(* ===== verification/Kernel_Prelude.thy ===== *)
theory Kernel_Prelude
  imports Main "HOL-Library.Word"
begin

text \<open>
  Shared vocabulary of the development: the machine integer types of
  \<^verbatim>\<open>lib/stdint.h\<close>, the result type of kernel code, and the generic lemmas on
  results, lists and words that the component theories use.

  A kernel function either returns a value or does not come back.  It does not come
  back when an \<^verbatim>\<open>ASSERT\<close> fails or \<^verbatim>\<open>PANIC\<close> is called (both end in the
  endless loop of \<^verbatim>\<open>panic_spin\<close>, \<^verbatim>\<open>kernel/debug.c\<close>; \<^verbatim>\<open>NDEBUG\<close> is
  not set by the makefile), when it touches memory it must not touch, or when the
  calling thread goes to sleep and nothing in the modelled run wakes it.
\<close>

unbundle bit_operations_syntax

named_theorems kres_simps \<open>rewriting of the result type\<close>

type_synonym u8 = "8 word"
type_synonym u16 = "16 word"
type_synonym u32 = "32 word"

datatype stop =
    Assert_fail string   \<comment> \<open>a failed \<^verbatim>\<open>ASSERT\<close> of the named function\<close>
  | Panic string         \<comment> \<open>an explicit \<^verbatim>\<open>PANIC\<close> of the named function\<close>
  | Fault                \<comment> \<open>an access outside the memory the model gives the code\<close>
  | Sleeps               \<comment> \<open>the caller blocks and is not woken in this run\<close>
  | Diverges             \<comment> \<open>an endless loop other than \<^verbatim>\<open>panic_spin\<close>\<close>

type_synonym 'a kres = "stop + 'a"

definition kbind :: "'a kres \<Rightarrow> ('a \<Rightarrow> 'b kres) \<Rightarrow> 'b kres" where
  "kbind m f = (case m of Inl e \<Rightarrow> Inl e | Inr x \<Rightarrow> f x)"

definition kassert :: "string \<Rightarrow> bool \<Rightarrow> unit kres" where
  "kassert fn c = (if c then Inr () else Inl (Assert_fail fn))"

section \<open>Results\<close>

lemma kbind_Inl [simp, kres_simps]: "kbind (Inl e) f = Inl e"
  by (simp add: kbind_def)

lemma kbind_Inr [simp, kres_simps]: "kbind (Inr x) f = f x"
  by (simp add: kbind_def)

lemma kbind_eq_Inr: "kbind m f = Inr y \<longleftrightarrow> (\<exists>x. m = Inr x \<and> f x = Inr y)"
  by (cases m) auto

lemma kbind_eq_Inl: "kbind m f = Inl e \<longleftrightarrow> m = Inl e \<or> (\<exists>x. m = Inr x \<and> f x = Inl e)"
  by (cases m) auto

lemma kbind_InrE [elim!]:
  assumes "kbind m f = Inr y"
  obtains x where "m = Inr x" "f x = Inr y"
  using assms by (auto simp: kbind_eq_Inr)

lemma kbind_cong [fundef_cong]:
  assumes "m = m'" and "\<And>x. m' = Inr x \<Longrightarrow> f x = f' x"
  shows "kbind m f = kbind m' f'"
  using assms by (cases m') auto

lemma kbind_assoc: "kbind (kbind m f) g = kbind m (\<lambda>x. kbind (f x) g)"
  by (cases m) auto

lemma kbind_return [simp]: "kbind m Inr = m"
  by (cases m) auto

lemma kassert_True [simp, kres_simps]: "kassert fn True = Inr ()"
  by (simp add: kassert_def)

lemma kassert_False [simp, kres_simps]: "kassert fn False = Inl (Assert_fail fn)"
  by (simp add: kassert_def)

lemma kassert_eq_Inr [simp]: "kassert fn c = Inr u \<longleftrightarrow> c"
  by (simp add: kassert_def)

lemma kassert_eq_Inl: "kassert fn c = Inl e \<longleftrightarrow> \<not> c \<and> e = Assert_fail fn"
  by (auto simp: kassert_def)

section \<open>Array accesses\<close>

text \<open>
  An array (or the memory behind a pointer) is a list; reading or writing an index the
  list does not have is a \<^const>\<open>Fault\<close>.
\<close>

definition aget :: "'a list \<Rightarrow> nat \<Rightarrow> 'a kres" where
  "aget xs i = (if i < length xs then Inr (xs ! i) else Inl Fault)"

definition aset :: "'a list \<Rightarrow> nat \<Rightarrow> 'a \<Rightarrow> 'a list kres" where
  "aset xs i v = (if i < length xs then Inr (xs[i := v]) else Inl Fault)"

lemma aget_Inr [simp]: "i < length xs \<Longrightarrow> aget xs i = Inr (xs ! i)"
  by (simp add: aget_def)

lemma aget_eq_Inr: "aget xs i = Inr x \<longleftrightarrow> i < length xs \<and> x = xs ! i"
  by (auto simp: aget_def)

lemma aset_Inr [simp]: "i < length xs \<Longrightarrow> aset xs i v = Inr (xs[i := v])"
  by (simp add: aset_def)

lemma aset_eq_Inr: "aset xs i v = Inr ys \<longleftrightarrow> i < length xs \<and> ys = xs[i := v]"
  by (auto simp: aset_def)

lemma in_set_tlD: "x \<in> set (tl xs) \<Longrightarrow> x \<in> set xs"
  by (cases xs) auto

section \<open>Overwriting a piece of an array\<close>

definition overwrite :: "nat \<Rightarrow> 'a list \<Rightarrow> 'a list \<Rightarrow> 'a list" where
  "overwrite p xs m = take p m @ xs @ drop (p + length xs) m"

lemma length_overwrite [simp]: "p + length xs \<le> length m \<Longrightarrow> length (overwrite p xs m) = length m"
  by (simp add: overwrite_def)

lemma overwrite_Nil [simp]: "overwrite p [] m = m"
  by (simp add: overwrite_def)

lemma nth_overwrite:
  assumes "p + length xs \<le> length m"
  shows "overwrite p xs m ! i = (if p \<le> i \<and> i < p + length xs then xs ! (i - p) else m ! i)"
proof -
  have m: "min (length m) p = p" using assms by simp
  consider "i < p" | "p \<le> i" "i < p + length xs" | "p + length xs \<le> i" by linarith
  then show ?thesis by cases (use assms m in \<open>auto simp: overwrite_def nth_append\<close>)
qed

lemma list_eq_nthI: "length xs = length ys \<Longrightarrow> (\<And>i. i < length xs \<Longrightarrow> xs ! i = ys ! i) \<Longrightarrow> xs = ys"
  by (rule nth_equalityI)

lemma overwrite_Cons:
  assumes "p + length (x # xs) \<le> length m"
  shows "overwrite p (x # xs) m = overwrite (Suc p) xs (m[p := x])"
  using assms by (intro list_eq_nthI) (auto simp: nth_overwrite nth_Cons' nth_list_update)

lemma overwrite_snoc:
  assumes "p + length xs < length m"
  shows "overwrite p (xs @ [x]) m = (overwrite p xs m)[p + length xs := x]"
  using assms by (intro list_eq_nthI) (auto simp: nth_overwrite nth_append nth_list_update)

lemma overwrite_overwrite:
  assumes "p + length xs + length ys \<le> length m"
  shows "overwrite (p + length xs) ys (overwrite p xs m) = overwrite p (xs @ ys) m"
  using assms by (intro list_eq_nthI) (auto simp: nth_overwrite nth_append)

lemma take_drop_overwrite_same:
  assumes "p + length xs \<le> length m"
  shows "take (length xs) (drop p (overwrite p xs m)) = xs"
  using assms by (intro list_eq_nthI) (auto simp: nth_overwrite)

lemma take_drop_overwrite_other:
  assumes "p + length xs \<le> length m" "q + n \<le> p \<or> p + length xs \<le> q"
  shows "take n (drop q (overwrite p xs m)) = take n (drop q m)"
  using assms by (intro list_eq_nthI) (auto simp: nth_overwrite)

section \<open>Words\<close>

definition DIV_ROUND_UP :: "u32 \<Rightarrow> u32 \<Rightarrow> u32" where
  "DIV_ROUND_UP x step = (x + step - 1) div step"

lemma and_push_bit_1_iff: "x AND push_bit k 1 \<noteq> 0 \<longleftrightarrow> bit x k" for x :: "'a::len word"
  by (rule bit_iff_and_push_bit_not_eq_0 [symmetric])

lemma and_exp_eq_0_iff [simp]: "x AND 2 ^ k = 0 \<longleftrightarrow> \<not> bit x k" for x :: "'a::len word"
  by (metis and_push_bit_1_iff push_bit_of_1)

lemma exp_and_eq_0_iff [simp]: "2 ^ k AND x = 0 \<longleftrightarrow> \<not> bit x k" for x :: "'a::len word"
  by (simp add: and.commute)

lemma unat_of_nat_u32: "n < 2 ^ 32 \<Longrightarrow> unat (of_nat n :: u32) = n"
  by (simp add: unat_of_nat take_bit_nat_eq_self)

lemma unat_ucast_u8: "unat (ucast (x :: u8) :: u32) = unat x"
proof -
  have "unat x < 2 ^ 8" using unsigned_less [of x] by simp
  then show ?thesis by (simp add: unsigned_ucast_eq take_bit_nat_eq_self)
qed

lemma and_1_eq_0_iff: "x AND 1 = 0 \<longleftrightarrow> \<not> bit x 0" for x :: "'a::len word"
  using and_exp_eq_0_iff [of x 0] by simp

lemma u8_full_iff: "x = 0xFF \<longleftrightarrow> (\<forall>k<8. bit x k)" for x :: u8
proof
  assume "x = 0xFF"
  then have "x = mask 8" by (simp add: mask_eq_exp_minus_1)
  then show "\<forall>k<8. bit x k" by (simp add: bit_simps)
next
  assume all: "\<forall>k<8. bit x k"
  have "x = mask 8"
    by (rule bit_word_eqI) (use all in \<open>simp add: bit_simps\<close>)
  then show "x = 0xFF" by (simp add: mask_eq_exp_minus_1)
qed

end
