(* ===== verification/Paging.thy ===== *)
theory Paging
  imports Kernel_Prelude
begin

text \<open>
  Paging.  The processor's address translation (two levels, 4 KiB pages) over a physical
  memory of 32-bit cells, and the functions of \<^verbatim>\<open>kernel/memory.c\<close> that reach the page
  tables through the self-mapped last directory entry: \<^verbatim>\<open>pte_ptr\<close>, \<^verbatim>\<open>pde_ptr\<close>,
  \<^verbatim>\<open>addr_v2p\<close>, \<^verbatim>\<open>page_table_pte_remove\<close>.

  \<open>pmem\<close> is indexed by the address of a cell (a multiple of four).  A virtual access
  goes through \<open>translate\<close>; an access to an unmapped page is a \<^const>\<open>Fault\<close>.  Write
  protection and privilege bits are not consulted (the kernel runs with both open), and
  there is no translation cache: every access reads the tables as they are in memory.
\<close>

record mmu =
  cr3 :: u32
  pmem :: "u32 \<Rightarrow> u32"

definition PG_P_1 :: u32 where "PG_P_1 = 1"
definition PG_RW_W :: u32 where "PG_RW_W = 2"
definition PG_US_U :: u32 where "PG_US_U = 4"

abbreviation PG_SIZE :: u32 where "PG_SIZE \<equiv> 4096"

definition PDE_IDX :: "u32 \<Rightarrow> u32" where
  "PDE_IDX addr = drop_bit 22 (addr AND 0xFFC00000)"

definition PTE_IDX :: "u32 \<Rightarrow> u32" where
  "PTE_IDX addr = drop_bit 12 (addr AND 0x003FF000)"

definition pte_ptr :: "u32 \<Rightarrow> u32" where
  "pte_ptr vaddr = 0xFFC00000 + drop_bit 10 (vaddr AND 0xFFC00000) + PTE_IDX vaddr * 4"

definition pde_ptr :: "u32 \<Rightarrow> u32" where
  "pde_ptr vaddr = 0xFFFFF000 + PDE_IDX vaddr * 4"

section \<open>The processor\<close>

definition frame :: "u32 \<Rightarrow> u32" where
  "frame e = e AND 0xFFFFF000"

definition page_off :: "u32 \<Rightarrow> u32" where
  "page_off a = a AND 0xFFF"

definition present :: "u32 \<Rightarrow> bool" where
  "present e = bit e 0"

definition dir_cell :: "'a mmu_scheme \<Rightarrow> u32 \<Rightarrow> u32" where
  "dir_cell s va = frame (cr3 s) + PDE_IDX va * 4"

definition tab_cell :: "'a mmu_scheme \<Rightarrow> u32 \<Rightarrow> u32" where
  "tab_cell s va = frame (pmem s (dir_cell s va)) + PTE_IDX va * 4"

definition translate :: "'a mmu_scheme \<Rightarrow> u32 \<Rightarrow> u32 option" where
  "translate s va =
     (if present (pmem s (dir_cell s va)) \<and> present (pmem s (tab_cell s va))
      then Some (frame (pmem s (tab_cell s va)) + page_off va) else None)"

definition vread :: "u32 \<Rightarrow> 'a mmu_scheme \<Rightarrow> u32 kres" where
  "vread va s = (case translate s va of None \<Rightarrow> Inl Fault | Some pa \<Rightarrow> Inr (pmem s pa))"

definition vwrite :: "u32 \<Rightarrow> u32 \<Rightarrow> 'a mmu_scheme \<Rightarrow> 'a mmu_scheme kres" where
  "vwrite va v s = (case translate s va of None \<Rightarrow> Inl Fault | Some pa \<Rightarrow> Inr (s\<lparr>pmem := (pmem s)(pa := v)\<rparr>))"

text \<open>\<^verbatim>\<open>memset(va, 0, 4 * n)\<close>, one cell at a time.\<close>

fun memset_cells :: "u32 \<Rightarrow> nat \<Rightarrow> 'a mmu_scheme \<Rightarrow> 'a mmu_scheme kres" where
  "memset_cells va 0 s = Inr s"
| "memset_cells va (Suc n) s = kbind (vwrite va 0 s) (memset_cells (va + 4) n)"

definition addr_v2p :: "u32 \<Rightarrow> 'a mmu_scheme \<Rightarrow> u32 kres" where
  "addr_v2p vaddr s = kbind (vread (pte_ptr vaddr) s) (\<lambda>pte. Inr ((pte AND 0xFFFFF000) + (vaddr AND 0x00000FFF)))"

definition page_table_pte_remove :: "u32 \<Rightarrow> 'a mmu_scheme \<Rightarrow> 'a mmu_scheme kres" where
  "page_table_pte_remove vaddr s =
     (let pte = pte_ptr vaddr
      in kbind (vread pte s) (\<lambda>v. vwrite pte (v AND NOT PG_P_1) s))"

section \<open>The self map\<close>

text \<open>
  The last entry of the directory points to the directory itself.  Then the address
  \<open>pde_ptr va\<close> is the directory cell of \<open>va\<close>, and \<open>pte_ptr va\<close> its table cell.
\<close>

definition self_mapped :: "'a mmu_scheme \<Rightarrow> bool" where
  "self_mapped s \<longleftrightarrow> frame (cr3 s) = cr3 s \<and> present (pmem s (cr3 s + 0xFFC))
     \<and> frame (pmem s (cr3 s + 0xFFC)) = cr3 s"

lemma mask_fields:
  "(0xFFC00000 :: u32) = push_bit 22 (mask 10)" "(0x003FF000 :: u32) = push_bit 12 (mask 10)"
  "(0xFFFFF000 :: u32) = push_bit 12 (mask 20)" "(0xFFF :: u32) = mask 12"
  by (simp_all add: mask_eq_exp_minus_1 push_bit_eq_mult)

lemma mult4: "x * 4 = push_bit 2 x" for x :: u32
  by (simp add: push_bit_eq_mult)

lemma bit_PDE_IDX: "bit (PDE_IDX va) n \<longleftrightarrow> n < 10 \<and> bit va (22 + n)"
  unfolding PDE_IDX_def mask_fields by (auto simp: bit_simps dest: bit_imp_le_length)

lemma bit_PTE_IDX: "bit (PTE_IDX va) n \<longleftrightarrow> n < 10 \<and> bit va (12 + n)"
  unfolding PTE_IDX_def mask_fields by (auto simp: bit_simps dest: bit_imp_le_length)

lemma bit_frame: "bit (frame e) n \<longleftrightarrow> 12 \<le> n \<and> bit e n"
  unfolding frame_def mask_fields by (auto simp: bit_simps dest: bit_imp_le_length)

lemma bit_page_off: "bit (page_off e) n \<longleftrightarrow> n < 12 \<and> bit e n"
  unfolding page_off_def mask_fields by (auto simp: bit_simps dest: bit_imp_le_length)

lemma disjoint_add_or: "(\<And>n. \<not> (bit x n \<and> bit y n)) \<Longrightarrow> x + y = x OR y" for x y :: u32
  by (rule disjunctive_add_eq_or) (auto simp: bit_eq_iff bit_simps)

lemma pde_ptr_or: "pde_ptr va = push_bit 12 (mask 20) OR push_bit 2 (PDE_IDX va)"
  unfolding pde_ptr_def mult4 mask_fields
  by (rule disjoint_add_or) (auto simp: bit_simps bit_PDE_IDX)

lemma pte_ptr_or: "pte_ptr va = push_bit 22 (mask 10) OR (push_bit 12 (PDE_IDX va) OR push_bit 2 (PTE_IDX va))"
proof -
  have a: "drop_bit 10 (va AND 0xFFC00000) = push_bit 12 (PDE_IDX va)"
    unfolding mask_fields by (rule bit_word_eqI) (auto simp: bit_simps bit_PDE_IDX dest: bit_imp_le_length)
  have "0xFFC00000 + push_bit 12 (PDE_IDX va) = push_bit 22 (mask 10) OR push_bit 12 (PDE_IDX va)"
    unfolding mask_fields by (rule disjoint_add_or) (auto simp: bit_simps bit_PDE_IDX)
  moreover have "(push_bit 22 (mask 10) OR push_bit 12 (PDE_IDX va)) + push_bit 2 (PTE_IDX va)
      = (push_bit 22 (mask 10) OR push_bit 12 (PDE_IDX va)) OR push_bit 2 (PTE_IDX va)"
    by (rule disjoint_add_or) (auto simp: bit_simps bit_PDE_IDX bit_PTE_IDX)
  ultimately show ?thesis unfolding pte_ptr_def a mult4 by (simp add: or.assoc)
qed

lemma idx_of_ptrs [simp]:
  "PDE_IDX (pde_ptr va) = 1023" "PTE_IDX (pde_ptr va) = 1023" "page_off (pde_ptr va) = PDE_IDX va * 4"
  "PDE_IDX (pte_ptr va) = 1023" "PTE_IDX (pte_ptr va) = PDE_IDX va" "page_off (pte_ptr va) = PTE_IDX va * 4"
proof -
  have m: "(1023 :: u32) = mask 10" by (simp add: mask_eq_exp_minus_1)
  show "PDE_IDX (pde_ptr va) = 1023" "PTE_IDX (pde_ptr va) = 1023" "page_off (pde_ptr va) = PDE_IDX va * 4"
    "PDE_IDX (pte_ptr va) = 1023" "PTE_IDX (pte_ptr va) = PDE_IDX va" "page_off (pte_ptr va) = PTE_IDX va * 4"
    unfolding m mult4 pde_ptr_or pte_ptr_or
    by (rule bit_word_eqI; auto simp: bit_simps bit_PDE_IDX bit_PTE_IDX bit_page_off dest: bit_imp_le_length)+
qed

lemma dir_cell_ptr [simp]: "dir_cell s (pde_ptr va) = frame (cr3 s) + 0xFFC" "dir_cell s (pte_ptr va) = frame (cr3 s) + 0xFFC"
  by (simp_all add: dir_cell_def)

lemma translate_pde_ptr [simp]: "self_mapped s \<Longrightarrow> translate s (pde_ptr va) = Some (dir_cell s va)"
  by (simp add: translate_def tab_cell_def self_mapped_def dir_cell_def)

lemma translate_pte_ptr [simp]:
  "self_mapped s \<Longrightarrow> translate s (pte_ptr va) = (if present (pmem s (dir_cell s va)) then Some (tab_cell s va) else None)"
  by (simp add: translate_def tab_cell_def self_mapped_def dir_cell_def)

section \<open>Cells and pages\<close>

lemma PDE_IDX_less: "PDE_IDX va = take_bit 10 (PDE_IDX va)"
  by (rule bit_word_eqI) (auto simp: bit_simps bit_PDE_IDX)

lemma PTE_IDX_less: "PTE_IDX va = take_bit 10 (PTE_IDX va)"
  by (rule bit_word_eqI) (auto simp: bit_simps bit_PTE_IDX)

text \<open>A cell index: below 1024.\<close>

lemma frame_add_idx:
  assumes "i = take_bit 10 i"
  shows "frame (frame x + i * 4) = frame x" "page_off (frame x + i * 4) = i * 4"
proof -
  have i: "\<not> bit i n" if "10 \<le> n" for n by (subst assms) (use that in \<open>simp add: bit_simps\<close>)
  have "frame x + push_bit 2 i = frame x OR push_bit 2 i"
    by (rule disjoint_add_or) (auto simp: bit_simps bit_frame i)
  then have eq: "frame x + i * 4 = frame x OR push_bit 2 i" by (simp only: mult4)
  show "frame (frame x + i * 4) = frame x"
    unfolding eq by (rule bit_word_eqI) (auto simp: bit_simps bit_frame i)
  show "page_off (frame x + i * 4) = i * 4"
    unfolding eq unfolding mult4
  proof (rule bit_word_eqI)
    fix n
    show "bit (page_off (frame x OR push_bit 2 i)) n = bit (push_bit 2 i) n"
      using i [of "n - 2"] by (cases "n < 12") (auto simp: bit_simps bit_frame bit_page_off)
  qed
qed

lemma frame_frame [simp]: "frame (frame x) = frame x"
  by (rule bit_word_eqI) (auto simp: bit_frame)

lemma frame_cell_eqD:
  assumes "frame x + i * 4 = frame y + j * 4" "i = take_bit 10 i" "j = take_bit 10 j"
  shows "frame x = frame y" "i = j"
proof -
  show "frame x = frame y" using assms frame_add_idx(1) by metis
  have "i * 4 = j * 4" using assms frame_add_idx(2) by metis
  then have e: "push_bit 2 i = push_bit 2 j" by (simp only: mult4)
  show "i = j"
  proof (rule bit_word_eqI)
    fix n assume "n < LENGTH(32)"
    have i: "bit i n \<longleftrightarrow> n < 10 \<and> bit i n" for n by (subst assms(2)) (simp add: bit_simps)
    have j: "bit j n \<longleftrightarrow> n < 10 \<and> bit j n" for n by (subst assms(3)) (simp add: bit_simps)
    show "bit i n = bit j n"
    proof (cases "n < 10")
      case True
      have "bit (push_bit 2 i) (n + 2) = bit (push_bit 2 j) (n + 2)" using e by simp
      with True show ?thesis by (simp add: bit_simps)
    next
      case False
      with i [of n] j [of n] show ?thesis by simp
    qed
  qed
qed

lemma frame_dir_cell [simp]: "frame (dir_cell s va) = frame (cr3 s)"
  unfolding dir_cell_def by (rule frame_add_idx [OF PDE_IDX_less])

lemma frame_tab_cell [simp]: "frame (tab_cell s va) = frame (pmem s (dir_cell s va))"
  unfolding tab_cell_def by (rule frame_add_idx [OF PTE_IDX_less])

lemma dir_cell_inj: "dir_cell s va = dir_cell s va' \<longleftrightarrow> PDE_IDX va = PDE_IDX va'"
  using frame_cell_eqD(2) [of "cr3 s" "PDE_IDX va" "cr3 s" "PDE_IDX va'"]
  by (auto simp: dir_cell_def PDE_IDX_less [symmetric])

lemma tab_cell_eq:
  "tab_cell s va = tab_cell s va' \<longleftrightarrow>
     frame (pmem s (dir_cell s va)) = frame (pmem s (dir_cell s va')) \<and> PTE_IDX va = PTE_IDX va'"
  using frame_cell_eqD [of _ "PTE_IDX va" _ "PTE_IDX va'"]
  by (auto simp: tab_cell_def PTE_IDX_less [symmetric])

lemma same_page_idx: "frame va = frame va' \<Longrightarrow> PDE_IDX va = PDE_IDX va' \<and> PTE_IDX va = PTE_IDX va'"
proof -
  assume "frame va = frame va'"
  then have "bit va n = bit va' n" if "12 \<le> n" for n by (metis that bit_frame)
  then show ?thesis by (auto intro!: bit_word_eqI simp: bit_PDE_IDX bit_PTE_IDX)
qed

lemma translate_same_page:
  assumes "frame va = frame va'"
  shows "dir_cell s va = dir_cell s va'" "tab_cell s va = tab_cell s va'"
    "translate s va = map_option (\<lambda>_. frame (pmem s (tab_cell s va')) + page_off va) (translate s va')"
  using same_page_idx [OF assms] by (simp_all add: dir_cell_def tab_cell_def translate_def)

text \<open>The frames that hold page tables, and the frame of the directory.\<close>

definition table_frames :: "'a mmu_scheme \<Rightarrow> u32 set" where
  "table_frames s = insert (frame (cr3 s)) {frame (pmem s (dir_cell s va)) |va. present (pmem s (dir_cell s va))}"

lemma translate_cong:
  assumes "cr3 s' = cr3 s" "\<And>a. frame a \<in> table_frames s \<Longrightarrow> pmem s' a = pmem s a"
  shows "translate s' = translate s" "self_mapped s' = self_mapped s" "table_frames s' = table_frames s"
proof -
  have d1: "dir_cell s' va = dir_cell s va" for va by (simp add: dir_cell_def assms(1))
  have d2: "pmem s' (dir_cell s va) = pmem s (dir_cell s va)" for va
    by (rule assms(2)) (simp add: table_frames_def)
  note d = d1 d2
  have t: "tab_cell s' va = tab_cell s va" for va
    by (simp add: tab_cell_def d)
  have p: "present (pmem s (dir_cell s va)) \<Longrightarrow> pmem s' (tab_cell s va) = pmem s (tab_cell s va)" for va
    by (rule assms(2)) (auto simp: table_frames_def)
  show "translate s' = translate s" using d t p by (auto simp: translate_def fun_eq_iff)
  have "frame (cr3 s) = cr3 s \<Longrightarrow> frame (cr3 s + 0xFFC) = cr3 s"
    using frame_dir_cell [of s "pde_ptr 0"] by (simp add: dir_cell_def)
  then have "frame (cr3 s) = cr3 s \<Longrightarrow> pmem s' (cr3 s + 0xFFC) = pmem s (cr3 s + 0xFFC)"
    by (intro assms(2)) (simp add: table_frames_def)
  then show "self_mapped s' = self_mapped s"
    using assms(1) unfolding self_mapped_def by auto
  show "table_frames s' = table_frames s" using d assms(1) by (simp add: table_frames_def)
qed

text \<open>Writing one table cell changes the translation of the pages that use this cell.\<close>

lemma translate_set_pte:
  fixes s :: "'a mmu_scheme" and c v :: u32
  assumes "self_mapped s" "frame c \<noteq> cr3 s"
  defines "s' \<equiv> s\<lparr>pmem := (pmem s)(c := v)\<rparr>"
  shows "self_mapped s'" "table_frames s' = table_frames s"
    "translate s' va = (if present (pmem s (dir_cell s va)) \<and> tab_cell s va = c
       then (if present v then Some (frame v + page_off va) else None) else translate s va)"
proof -
  have c: "frame (cr3 s) = cr3 s" using assms(1) by (simp add: self_mapped_def)
  have d: "dir_cell s' va = dir_cell s va" for va by (simp add: dir_cell_def s'_def)
  have ne: "dir_cell s va \<noteq> c" for va using frame_dir_cell [of s va] c assms(2) by auto
  have d2: "pmem s' (dir_cell s va) = pmem s (dir_cell s va)" for va using ne by (simp add: s'_def)
  have "frame (cr3 s + 0xFFC) = cr3 s" using frame_dir_cell [of s "pde_ptr 0"] c by simp
  then have "cr3 s + 0xFFC \<noteq> c" using assms(2) by auto
  then show "self_mapped s'" using assms(1) by (simp add: self_mapped_def s'_def)
  have "cr3 s' = cr3 s" by (simp add: s'_def)
  then show "table_frames s' = table_frames s" by (simp add: table_frames_def d d2)
  have t: "tab_cell s' va = tab_cell s va" for va by (simp add: tab_cell_def d d2)
  show "translate s' va = (if present (pmem s (dir_cell s va)) \<and> tab_cell s va = c
       then (if present v then Some (frame v + page_off va) else None) else translate s va)"
    unfolding translate_def d t d2 by (auto simp: s'_def)
qed

section \<open>Clearing a page\<close>

definition page_cells :: "u32 \<Rightarrow> u32 set" where
  "page_cells f = (\<lambda>j. f + of_nat j * 4) ` {..<1024}"

lemma cell_idx: "j < 1024 \<Longrightarrow> (of_nat j :: u32) = take_bit 10 (of_nat j)"
  by (simp add: take_bit_of_nat take_bit_nat_eq_self)

lemma frame_page_cells: "frame f = f \<Longrightarrow> a \<in> page_cells f \<Longrightarrow> frame a = f"
  using frame_add_idx(1) [OF cell_idx, of _ f] by (auto simp: page_cells_def)

lemma idx_page_cells:
  "i = take_bit 10 i \<Longrightarrow> f + i * 4 \<in> page_cells f"
proof -
  assume i: "i = take_bit 10 i"
  have "unat i < 1024"
    by (subst i) (simp add: unsigned_take_bit_eq take_bit_nat_less_exp [of 10 "unat i", simplified])
  then show ?thesis unfolding page_cells_def by (intro image_eqI [of _ _ "unat i"]) auto
qed

lemma page_addr_fields:
  assumes "frame va = va" "j < 1024"
  shows "PDE_IDX (va + of_nat j * 4) = PDE_IDX va" "PTE_IDX (va + of_nat j * 4) = PTE_IDX va"
    "page_off (va + of_nat j * 4) = of_nat j * 4"
  using frame_add_idx [OF cell_idx [OF assms(2)], of va] same_page_idx [of "va + of_nat j * 4" va] assms(1)
  by auto

lemma memset_cells_spec:
  fixes s :: "'a mmu_scheme"
  assumes "\<And>(s1 :: 'a mmu_scheme) k. k < n \<Longrightarrow> cr3 s1 = cr3 s \<Longrightarrow> (\<forall>a. a \<notin> C \<longrightarrow> pmem s1 a = pmem s a)
      \<Longrightarrow> translate s1 (va + of_nat k * 4) = Some (pa + of_nat k * 4)"
    and "\<forall>k<n. pa + of_nat k * 4 \<in> C"
  shows "memset_cells va n s = Inr (s\<lparr>pmem := \<lambda>a. if \<exists>k<n. a = pa + of_nat k * 4 then 0 else pmem s a\<rparr>)"
  using assms
proof (induction n arbitrary: va pa s)
  case 0
  then show ?case by simp
next
  case (Suc n)
  let ?s1 = "s\<lparr>pmem := (pmem s)(pa := 0)\<rparr>"
  have "translate s va = Some pa" using Suc.prems(1) [of 0 s] by simp
  then have w: "vwrite va 0 s = Inr ?s1" by (simp add: vwrite_def)
  have pa: "pa \<in> C" using Suc.prems(2) by force
  have "memset_cells (va + 4) n ?s1
      = Inr (?s1\<lparr>pmem := \<lambda>a. if \<exists>k<n. a = pa + 4 + of_nat k * 4 then 0 else pmem ?s1 a\<rparr>)"
  proof (rule Suc.IH)
    fix s1 :: "'a mmu_scheme" and k
    assume k: "k < n" "cr3 s1 = cr3 ?s1" "\<forall>a. a \<notin> C \<longrightarrow> pmem s1 a = pmem ?s1 a"
    then have "\<forall>a. a \<notin> C \<longrightarrow> pmem s1 a = pmem s a" using pa by auto
    with Suc.prems(1) [of "Suc k" s1] k show "translate s1 (va + 4 + of_nat k * 4) = Some (pa + 4 + of_nat k * 4)"
      by (simp add: algebra_simps)
  next
    show "\<forall>k<n. pa + 4 + of_nat k * 4 \<in> C"
      using Suc.prems(2) by (metis (no_types, lifting) Suc_less_eq add.assoc distrib_right mult_1 of_nat_Suc)
  qed
  moreover have "(\<lambda>a. if \<exists>k<Suc n. a = pa + of_nat k * 4 then 0 else pmem s a)
      = (\<lambda>a. if \<exists>k<n. a = pa + 4 + of_nat k * 4 then 0 else pmem ?s1 a)"
    by (rule ext) (auto simp: less_Suc_eq_0_disj algebra_simps)
  ultimately show ?case by (simp add: w)
qed

section \<open>A new page table\<close>

text \<open>
  The address spaces of the kernel: the directory maps itself through its last entry and
  through no other.
\<close>

definition paging_ok :: "'a mmu_scheme \<Rightarrow> bool" where
  "paging_ok s \<longleftrightarrow> self_mapped s \<and>
     (\<forall>va. PDE_IDX va \<noteq> 1023 \<longrightarrow> present (pmem s (dir_cell s va)) \<longrightarrow> frame (pmem s (dir_cell s va)) \<noteq> cr3 s)"

lemma paging_okD: "paging_ok s \<Longrightarrow> self_mapped s" "paging_ok s \<Longrightarrow> frame (cr3 s) = cr3 s"
  by (auto simp: paging_ok_def self_mapped_def)

lemma paging_ok_tab: "paging_ok s \<Longrightarrow> PDE_IDX va \<noteq> 1023 \<Longrightarrow> present (pmem s (dir_cell s va)) \<Longrightarrow>
   frame (tab_cell s va) \<noteq> cr3 s"
  by (auto simp: paging_ok_def)

definition entry :: "u32 \<Rightarrow> u32" where
  "entry f = f OR PG_US_U OR PG_RW_W OR PG_P_1"

lemma entry_flags: "PG_US_U OR PG_RW_W OR PG_P_1 = mask 3"
  by (simp add: PG_US_U_def PG_RW_W_def PG_P_1_def mask_eq_exp_minus_1)

lemma frame_entry [simp]: "frame (entry f) = frame f"
  unfolding entry_def entry_flags by (rule bit_word_eqI) (auto simp: bit_simps bit_frame)

lemma present_entry [simp]: "present (entry f)"
  unfolding entry_def entry_flags present_def by (simp add: bit_simps)

lemma not_present_0 [simp]: "\<not> present 0"
  by (simp add: present_def)

lemma page_off_frame [simp]: "page_off (frame x) = 0"
  by (rule bit_word_eqI) (auto simp: bit_simps bit_frame bit_page_off)

lemma self_cell: "self_mapped s \<Longrightarrow> cr3 s + 0xFFC = dir_cell s (pde_ptr va)"
  by (simp add: self_mapped_def)

lemma new_table_cells:
  assumes ok: "paging_ok s" and i: "PDE_IDX va \<noteq> 1023" and f: "frame f = f" "f \<noteq> cr3 s"
    and s1: "s1 = s\<lparr>pmem := (pmem s)(dir_cell s va := entry f)\<rparr>"
  shows "memset_cells (frame (pte_ptr va)) 1024 s1
    = Inr (s1\<lparr>pmem := \<lambda>a. if a \<in> page_cells f then 0 else pmem s1 a\<rparr>)"
proof -
  let ?v = "frame (pte_ptr va)"
  have c: "frame (cr3 s) = cr3 s" using ok by (rule paging_okD)
  have T: "translate s2 (?v + of_nat k * 4) = Some (f + of_nat k * 4)"
    if k: "k < 1024" and s2: "cr3 s2 = cr3 s1" "\<forall>a. a \<notin> page_cells f \<longrightarrow> pmem s2 a = pmem s1 a"
    for s2 :: "'a mmu_scheme" and k
  proof -
    have idx: "PDE_IDX (?v + of_nat k * 4) = 1023" "PTE_IDX (?v + of_nat k * 4) = PDE_IDX va"
      "page_off (?v + of_nat k * 4) = of_nat k * 4"
      using page_addr_fields [of ?v k] k same_page_idx [of ?v "pte_ptr va"] by simp_all
    have cr: "cr3 s2 = cr3 s" using s2(1) s1 by simp
    have out: "a \<notin> page_cells f" if "frame a = cr3 s" for a
      using frame_page_cells [OF f(1)] that f(2) by auto
    have "dir_cell s (pde_ptr va) \<noteq> dir_cell s va" using i by (simp add: dir_cell_inj del: dir_cell_ptr)
    then have ne: "cr3 s + 0xFFC \<noteq> dir_cell s va"
      using self_cell [OF paging_okD(1) [OF ok]] by metis
    have dcell: "dir_cell s2 (?v + of_nat k * 4) = cr3 s + 0xFFC" by (simp add: dir_cell_def idx cr c)
    have "frame (cr3 s + 0xFFC) = cr3 s"
      using frame_dir_cell [of s "pde_ptr va"] c by simp
    then have "pmem s2 (cr3 s + 0xFFC) = pmem s (cr3 s + 0xFFC)"
      using s2(2) out ne by (simp add: s1)
    then have d: "present (pmem s2 (dir_cell s2 (?v + of_nat k * 4)))" "frame (pmem s2 (dir_cell s2 (?v + of_nat k * 4))) = cr3 s"
      using paging_okD(1) [OF ok] unfolding dcell by (simp_all add: self_mapped_def)
    then have t: "tab_cell s2 (?v + of_nat k * 4) = dir_cell s va"
      by (simp add: tab_cell_def idx dir_cell_def c)
    have "pmem s2 (dir_cell s va) = entry f"
      using s2(2) out [of "dir_cell s va"] c by (simp add: s1)
    with d t show ?thesis by (simp add: translate_def idx f(1))
  qed
  have "memset_cells ?v 1024 s1 = Inr (s1\<lparr>pmem := \<lambda>a. if \<exists>k<1024. a = f + of_nat k * 4 then 0 else pmem s1 a\<rparr>)"
  proof (rule memset_cells_spec [where C = "page_cells f"])
    show "\<forall>k<1024. f + of_nat k * 4 \<in> page_cells f" by (simp add: page_cells_def)
  qed (rule T)
  moreover have "(\<exists>k<1024. a = f + of_nat k * 4) = (a \<in> page_cells f)" for a
    by (auto simp: page_cells_def)
  ultimately show ?thesis by simp
qed

lemma new_table_memset:
  assumes "paging_ok s" "PDE_IDX va \<noteq> 1023" "frame f = f" "f \<noteq> cr3 s"
  shows "memset_cells (frame (pte_ptr va)) 1024 (s\<lparr>pmem := (pmem s)(dir_cell s va := entry f)\<rparr>)
    = Inr (s\<lparr>pmem := \<lambda>a. if a \<in> page_cells f then 0 else ((pmem s)(dir_cell s va := entry f)) a\<rparr>)"
  using new_table_cells [OF assms refl] by (simp cong: if_cong)

lemma new_table_translate:
  assumes ok: "paging_ok s" and i: "PDE_IDX va \<noteq> 1023" and np: "\<not> present (pmem s (dir_cell s va))"
    and f: "frame f = f" "f \<notin> table_frames s"
    and s2: "s2 = s\<lparr>pmem := \<lambda>a. if a \<in> page_cells f then 0 else ((pmem s)(dir_cell s va := entry f)) a\<rparr>"
  shows "paging_ok s2" "table_frames s2 = insert f (table_frames s)"
    "PDE_IDX va' \<noteq> 1023 \<Longrightarrow> translate s2 va' = translate s va'"
    "present (pmem s2 (dir_cell s2 va))" "pmem s2 (tab_cell s2 va) = 0" "frame (tab_cell s2 va) = f"
    "pmem s2 (dir_cell s v) = (if PDE_IDX v = PDE_IDX va then entry f else pmem s (dir_cell s v))"
proof -
  have c: "frame (cr3 s) = cr3 s" "cr3 s2 = cr3 s" using paging_okD [OF ok] by (simp_all add: s2)
  have fc: "f \<noteq> cr3 s" using f(2) c by (auto simp: table_frames_def)
  have out: "a \<notin> page_cells f" if "frame a \<noteq> f" for a using frame_page_cells [OF f(1)] that by auto
  have d: "dir_cell s2 v = dir_cell s v" for v by (simp add: dir_cell_def c(2))
  have dv: "pmem s2 (dir_cell s v) = (if PDE_IDX v = PDE_IDX va then entry f else pmem s (dir_cell s v))" for v
    using out [of "dir_cell s v"] fc c by (auto simp: s2 dir_cell_inj)
  then show "pmem s2 (dir_cell s v) = (if PDE_IDX v = PDE_IDX va then entry f else pmem s (dir_cell s v))" .
  have t: "tab_cell s2 v = f + PTE_IDX v * 4" if "PDE_IDX v = PDE_IDX va" for v
    by (simp add: tab_cell_def d dv that f(1))
  have t0: "pmem s2 (tab_cell s2 v) = 0" if "PDE_IDX v = PDE_IDX va" for v
    unfolding t [OF that] using idx_page_cells [OF PTE_IDX_less] by (simp add: s2)
  show "present (pmem s2 (dir_cell s2 va))" "pmem s2 (tab_cell s2 va) = 0" "frame (tab_cell s2 va) = f"
    using t0 by (simp_all add: d dv f(1))
  have tv: "pmem s2 (tab_cell s2 v) = pmem s (tab_cell s v)"
    if v: "PDE_IDX v \<noteq> PDE_IDX va" "PDE_IDX v \<noteq> 1023" "present (pmem s (dir_cell s v))" for v
  proof -
    have eq: "tab_cell s2 v = tab_cell s v" using v by (simp add: tab_cell_def d dv)
    have "frame (tab_cell s v) \<noteq> f" using v(3) f(2) by (auto simp: table_frames_def)
    moreover have "tab_cell s v \<noteq> dir_cell s va"
      using paging_ok_tab [OF ok v(2,3)] frame_dir_cell [of s va] c(1) by metis
    ultimately show ?thesis unfolding eq using out by (simp add: s2)
  qed
  show "translate s2 va' = translate s va'" if "PDE_IDX va' \<noteq> 1023"
  proof (cases "PDE_IDX va' = PDE_IDX va")
    case True
    then have "dir_cell s va' = dir_cell s va" by (simp add: dir_cell_inj)
    then show ?thesis using np t0 [OF True] by (simp add: translate_def)
  next
    case False
    show ?thesis
    proof (cases "present (pmem s (dir_cell s va'))")
      case True
      then show ?thesis using tv [OF False that True] by (simp add: translate_def d dv False)
    qed (simp add: translate_def d dv False)
  qed
  have "PDE_IDX (pde_ptr va) \<noteq> PDE_IDX va" using i by simp
  then have "pmem s2 (cr3 s + 0xFFC) = pmem s (cr3 s + 0xFFC)"
    using dv [of "pde_ptr va"] c by simp
  then have "self_mapped s2" using paging_okD(1) [OF ok] by (simp add: self_mapped_def c)
  then show "paging_ok s2" using ok fc by (auto simp: paging_ok_def d dv f(1) c(2))
  have "{frame (pmem s2 (dir_cell s2 v)) |v. present (pmem s2 (dir_cell s2 v))}
      = insert f {frame (pmem s (dir_cell s v)) |v. present (pmem s (dir_cell s v))}" (is "?L = insert f ?R")
  proof (intro equalityI subsetI)
    fix x assume "x \<in> ?L"
    then show "x \<in> insert f ?R" using f(1) by (auto simp: d dv split: if_splits)
  next
    fix x assume "x \<in> insert f ?R"
    then consider "x = f" | v where "x = frame (pmem s (dir_cell s v))" "present (pmem s (dir_cell s v))" by auto
    then show "x \<in> ?L"
    proof cases
      case 1
      then show ?thesis using f(1) by (auto simp: d dv intro!: exI [of _ va])
    next
      case 2
      have "PDE_IDX v \<noteq> PDE_IDX va"
      proof
        assume "PDE_IDX v = PDE_IDX va"
        then have "dir_cell s v = dir_cell s va" by (simp add: dir_cell_inj)
        with 2 np show False by simp
      qed
      with 2 show ?thesis by (auto simp: d dv intro!: exI [of _ v])
    qed
  qed
  then show "table_frames s2 = insert f (table_frames s)" by (auto simp: table_frames_def c(2))
qed

text \<open>Two virtual addresses use the same table cell if they are on the same page, or if their
  directory entries name the same table (the kernel's directory enters its first table
  twice).\<close>

definition same_cell :: "'a mmu_scheme \<Rightarrow> u32 \<Rightarrow> u32 \<Rightarrow> bool" where
  "same_cell s va va' \<longleftrightarrow> frame va = frame va' \<or>
     present (pmem s (dir_cell s va)) \<and> present (pmem s (dir_cell s va')) \<and> tab_cell s va = tab_cell s va'"

lemma same_cell_refl [simp]: "same_cell s va va"
  by (simp add: same_cell_def)

lemma same_cell_sym: "same_cell s va va' \<Longrightarrow> same_cell s va' va"
  by (auto simp: same_cell_def)

lemma same_cell_trans: "same_cell s a b \<Longrightarrow> same_cell s b c \<Longrightarrow> same_cell s a c"
  unfolding same_cell_def using translate_same_page [of a b s] translate_same_page [of b c s] by auto

lemma same_cell_cong:
  assumes "\<And>v. pmem s' (dir_cell s' v) = pmem s (dir_cell s v)"
  shows "same_cell s' = same_cell s"
  unfolding same_cell_def tab_cell_eq by (simp add: assms fun_eq_iff)

lemma idx_same_page: "PDE_IDX va = PDE_IDX va' \<Longrightarrow> PTE_IDX va = PTE_IDX va' \<Longrightarrow> frame va = frame va'"
proof (rule bit_word_eqI)
  fix n assume e: "PDE_IDX va = PDE_IDX va'" "PTE_IDX va = PTE_IDX va'" and n: "n < LENGTH(32)"
  have "bit (PDE_IDX va) (n - 22) = bit (PDE_IDX va') (n - 22)" "bit (PTE_IDX va) (n - 12) = bit (PTE_IDX va') (n - 12)"
    using e by simp_all
  then show "bit (frame va) n = bit (frame va') n"
    using n by (cases "n < 22") (auto simp: bit_PDE_IDX bit_PTE_IDX bit_frame)
qed

text \<open>A new table is used by no address of another directory entry.\<close>

lemma same_cell_new_table:
  assumes dv: "\<And>v. pmem s' (dir_cell s' v) = (if PDE_IDX v = PDE_IDX va then entry f else pmem s (dir_cell s v))"
    and np: "\<not> present (pmem s (dir_cell s va))" and f: "frame f = f" "f \<notin> table_frames s"
  shows "same_cell s' a b = same_cell s a b"
proof -
  have npd: "\<not> present (pmem s (dir_cell s v))" if "PDE_IDX v = PDE_IDX va" for v
    using np that dir_cell_inj [of s v va] by simp
  have nf: "present (pmem s (dir_cell s v)) \<Longrightarrow> frame (pmem s (dir_cell s v)) \<noteq> f" for v
    using f(2) by (auto simp: table_frames_def)
  show ?thesis
    using npd nf [of a] nf [of b] idx_same_page [of a b] f(1) unfolding same_cell_def tab_cell_eq dv
    by (cases "PDE_IDX a = PDE_IDX va"; cases "PDE_IDX b = PDE_IDX va") auto
qed

lemma set_pte_paging_ok:
  assumes "paging_ok s" "frame c \<noteq> cr3 s"
  shows "paging_ok (s\<lparr>pmem := (pmem s)(c := v)\<rparr>)"
proof -
  have ne: "dir_cell s va \<noteq> c" for va using frame_dir_cell [of s va] paging_okD(2) [OF assms(1)] assms(2) by auto
  have "dir_cell (s\<lparr>pmem := (pmem s)(c := v)\<rparr>) va = dir_cell s va" for va by (simp add: dir_cell_def)
  then show ?thesis using assms(1) ne translate_set_pte(1) [OF paging_okD(1) [OF assms(1)] assms(2)]
    by (simp add: paging_ok_def)
qed

lemma addr_v2p_translate:
  assumes "self_mapped s" "translate s va = Some pa"
  shows "addr_v2p va s = Inr pa"
proof -
  have "present (pmem s (dir_cell s va))" "pa = frame (pmem s (tab_cell s va)) + page_off va"
    using assms(2) by (auto simp: translate_def split: if_splits)
  then show ?thesis using translate_pte_ptr [OF assms(1), of va]
    by (simp add: addr_v2p_def vread_def frame_def page_off_def)
qed

lemma paging_cong:
  assumes "cr3 s = cr3 s'" "pmem s = pmem s'"
  shows "translate s = translate s'" "vread va s = vread va s'" "addr_v2p va s = addr_v2p va s'"
    "self_mapped s = self_mapped s'" "table_frames s = table_frames s'" "paging_ok s = paging_ok s'"
proof -
  have d: "dir_cell s = dir_cell s'" using assms by (simp add: dir_cell_def fun_eq_iff)
  have t: "tab_cell s = tab_cell s'" using assms d by (simp add: tab_cell_def fun_eq_iff)
  show tr: "translate s = translate s'" using assms d t by (simp add: translate_def fun_eq_iff)
  show v: "vread va s = vread va s'" for va using tr assms by (simp add: vread_def split: option.split)
  show "addr_v2p va s = addr_v2p va s'" by (simp add: addr_v2p_def v)
  show sm: "self_mapped s = self_mapped s'" using assms by (simp add: self_mapped_def)
  show "table_frames s = table_frames s'" using assms d by (simp add: table_frames_def)
  show "paging_ok s = paging_ok s'" using assms d sm by (simp add: paging_ok_def)
qed

section \<open>Properties\<close>

text \<open>C8.  The self map: with the directory installed in its own last entry, the address that
  \<^verbatim>\<open>pde_ptr\<close> computes for a virtual address is the address of its directory entry, and
  the one that \<^verbatim>\<open>pte_ptr\<close> computes is the address of its page table entry; reading the
  latter faults exactly when there is no page table.\<close>

theorem self_map_pointers:
  assumes "self_mapped s"
  shows "translate s (pde_ptr va) = Some (dir_cell s va) \<and>
    translate s (pte_ptr va) = (if present (pmem s (dir_cell s va)) then Some (tab_cell s va) else None)"
  using assms by simp

theorem self_map_pointers_witness:
  "translate \<lparr>cr3 = 0x100000, pmem = (\<lambda>_. 0)(0x100FFC := 0x100007, 0x100C00 := 0x101007)\<rparr> (pte_ptr 0xC0200000)
    = Some 0x101800"
proof -
  let ?s = "\<lparr>cr3 = 0x100000, pmem = (\<lambda>_. 0)(0x100FFC := 0x100007, 0x100C00 := 0x101007)\<rparr>"
  have "self_mapped ?s" by (simp add: self_mapped_def frame_def present_def)
  from self_map_pointers [OF this, of "0xC0200000"] show ?thesis
    by (simp add: dir_cell_def tab_cell_def PDE_IDX_def PTE_IDX_def frame_def present_def)
qed

text \<open>C9.  \<^verbatim>\<open>addr_v2p\<close>, which reads the page table through the self map, returns the physical
  address that the processor uses.\<close>

theorem addr_v2p_correct:
  assumes "self_mapped s" "translate s va = Some pa"
  shows "addr_v2p va s = Inr pa"
  using addr_v2p_translate [OF assms] .

theorem addr_v2p_correct_witness:
  "addr_v2p 0xC0200123 \<lparr>cr3 = 0x100000, pmem = (\<lambda>_. 0)(0x100FFC := 0x100007, 0x100C00 := 0x101007, 0x101800 := 0x345067)\<rparr>
    = Inr 0x345123"
proof -
  let ?s = "\<lparr>cr3 = 0x100000, pmem = (\<lambda>_. 0)(0x100FFC := 0x100007, 0x100C00 := 0x101007, 0x101800 := 0x345067)\<rparr>"
  have "self_mapped ?s" by (simp add: self_mapped_def frame_def present_def)
  moreover have "translate ?s 0xC0200123 = Some 0x345123"
    by (simp add: translate_def dir_cell_def tab_cell_def PDE_IDX_def PTE_IDX_def frame_def present_def page_off_def)
  ultimately show ?thesis by (rule addr_v2p_correct)
qed

end
