(* ===== verification/Bitmap.thy ===== *)
theory Bitmap
  imports Kernel_Prelude
begin

text \<open>
  \<^verbatim>\<open>lib/kernel/bitmap.c\<close>: the bitmaps that hand out physical frames, virtual pages,
  pids, inodes and disk blocks.

  \<^verbatim>\<open>struct bitmap\<close> is a length in bytes and a pointer.  The model keeps, in the field
  \<open>bits\<close>, the bytes of memory that start at that pointer: the first
  \<open>btmp_bytes_len\<close> of them are the bitmap, what follows is whatever the kernel has
  placed behind it.  The code does read behind the bitmap, so that memory is part of the
  model.  Bit and byte indices are naturals: the largest bitmap of the kernel has less
  than \<open>2 ^ 20\<close> bits, far below the range of \<^verbatim>\<open>uint32_t\<close> and \<^verbatim>\<open>int\<close>.
\<close>

record bitmap =
  btmp_bytes_len :: nat
  bits :: "u8 list"

section \<open>Operations\<close>

definition bitmap_init :: "bitmap \<Rightarrow> bitmap kres" where
  "bitmap_init b =
     (if btmp_bytes_len b \<le> length (bits b)
      then Inr (b\<lparr>bits := replicate (btmp_bytes_len b) 0 @ drop (btmp_bytes_len b) (bits b)\<rparr>)
      else Inl Fault)"

definition bitmap_scan_test :: "bitmap \<Rightarrow> nat \<Rightarrow> bool kres" where
  "bitmap_scan_test b bit_idx =
     (let byte_idx = bit_idx div 8; bit_odd = bit_idx mod 8
      in kbind (aget (bits b) byte_idx) (\<lambda>x.
         Inr (x AND push_bit bit_odd 1 \<noteq> 0)))"

text \<open>The byte loop; the byte is read before the bound is checked.\<close>

function scan_bytes :: "bitmap \<Rightarrow> nat \<Rightarrow> nat kres" where
  "scan_bytes b idx_byte =
     kbind (aget (bits b) idx_byte) (\<lambda>x.
       if x = 0xFF \<and> idx_byte < btmp_bytes_len b then scan_bytes b (Suc idx_byte)
       else Inr idx_byte)"
  by pat_completeness auto
termination
  by (relation "measure (\<lambda>(b, i). btmp_bytes_len b - i)") auto

text \<open>The bit loop inside one byte; \<open>(uint8_t)(BITMAP_MASK << idx_bit)\<close> is 0 from 8 on.\<close>

function scan_bits :: "u8 \<Rightarrow> nat \<Rightarrow> nat" where
  "scan_bits x idx_bit =
     (if push_bit idx_bit 1 AND x \<noteq> 0 then scan_bits x (Suc idx_bit) else idx_bit)"
  by pat_completeness auto
termination
proof (relation "measure (\<lambda>(x, k). 8 - k)")
  show "wf (measure (\<lambda>(x :: u8, k). 8 - k))" by simp
next
  fix x :: u8 and k :: nat
  assume "push_bit k 1 AND x \<noteq> 0"
  then have "bit x k" by (metis and.commute and_push_bit_1_iff)
  then have "k < 8" by (drule_tac bit_imp_le_length) simp
  then show "((x, Suc k), (x, k)) \<in> measure (\<lambda>(x :: u8, k). 8 - k)" by simp
qed

text \<open>The search for \<open>cnt\<close> free bits in a row, one bit per iteration.\<close>

fun scan_run :: "bitmap \<Rightarrow> nat \<Rightarrow> nat \<Rightarrow> nat \<Rightarrow> nat \<Rightarrow> int kres" where
  "scan_run b cnt 0 next_bit count = Inr (- 1)"
| "scan_run b cnt (Suc bit_left) next_bit count =
     kbind (bitmap_scan_test b next_bit) (\<lambda>used.
       let count = (if \<not> used then count + 1 else 0)
       in if count = cnt then Inr (int next_bit - int cnt + 1)
          else scan_run b cnt bit_left (next_bit + 1) count)"

definition bitmap_scan :: "bitmap \<Rightarrow> nat \<Rightarrow> int kres" where
  "bitmap_scan b cnt =
     kbind (scan_bytes b 0) (\<lambda>idx_byte.
     kbind (kassert ''bitmap_scan'' (idx_byte < btmp_bytes_len b)) (\<lambda>_.
     if idx_byte = btmp_bytes_len b then Inr (- 1)
     else kbind (aget (bits b) idx_byte) (\<lambda>x.
       let idx_bit = scan_bits x 0;
           bit_idx_start = idx_byte * 8 + idx_bit
       in if cnt = 1 then Inr (int bit_idx_start)
          else scan_run b cnt (btmp_bytes_len b * 8 - bit_idx_start) (bit_idx_start + 1) 1)))"

definition bitmap_set :: "bitmap \<Rightarrow> nat \<Rightarrow> int \<Rightarrow> bitmap kres" where
  "bitmap_set b bit_idx val =
     kbind (kassert ''bitmap_set'' (val = 0 \<or> val = 1)) (\<lambda>_.
       let byte_idx = bit_idx div 8; bit_odd = bit_idx mod 8
       in kbind (aget (bits b) byte_idx) (\<lambda>x.
          kbind (aset (bits b) byte_idx
                  (if val \<noteq> 0 then x OR push_bit bit_odd 1
                   else x AND NOT (push_bit bit_odd 1))) (\<lambda>bs.
          Inr (b\<lparr>bits := bs\<rparr>))))"


section \<open>Reading the bitmap\<close>

text \<open>
  \<open>bused b i\<close>: bit \<open>i\<close> is set; \<open>bcap\<close> is the number of bits the bitmap owns.
  A bitmap is well formed when its bytes exist and at least one byte of memory lies
  behind them, the one the byte loop and the run search may read.
\<close>

definition bused :: "bitmap \<Rightarrow> nat \<Rightarrow> bool" where
  "bused b i = bit (bits b ! (i div 8)) (i mod 8)"

abbreviation bcap :: "bitmap \<Rightarrow> nat" where
  "bcap b \<equiv> btmp_bytes_len b * 8"

definition bitmap_wf :: "bitmap \<Rightarrow> bool" where
  "bitmap_wf b \<longleftrightarrow> btmp_bytes_len b < length (bits b)"

definition bset :: "bitmap \<Rightarrow> nat set" where
  "bset b = {i. i < bcap b \<and> bused b i}"

declare scan_bytes.simps [simp del] scan_bits.simps [simp del]

lemma div8_less: "i < 8 * n \<Longrightarrow> i div 8 < n" for i n :: nat
  by (simp add: less_mult_imp_div_less mult.commute)

lemma bset_finite [simp]: "finite (bset b)"
  by (simp add: bset_def)

lemma bset_subset: "bset b \<subseteq> {..<bcap b}"
  by (auto simp: bset_def)

lemma bitmap_scan_test_Inr:
  "i < 8 * length (bits b) \<Longrightarrow> bitmap_scan_test b i = Inr (bused b i)"
  by (simp add: bitmap_scan_test_def bused_def Let_def div8_less and_push_bit_1_iff)

lemma bitmap_scan_test_eq: "bitmap_wf b \<Longrightarrow> i \<le> bcap b \<Longrightarrow> bitmap_scan_test b i = Inr (bused b i)"
  by (rule bitmap_scan_test_Inr) (auto simp: bitmap_wf_def)

section \<open>The single-bit scan finds the first free bit\<close>

lemma scan_bits_spec:
  assumes "\<forall>j<k. bit x j"
  shows "(\<forall>j < scan_bits x k. bit x j) \<and> \<not> bit x (scan_bits x k)"
  using assms
proof (induction x k rule: scan_bits.induct)
  case (1 x k)
  note eq = scan_bits.simps [of x k]
  show ?case
  proof (cases "bit x k")
    case True
    with 1 have "\<forall>j<Suc k. bit x j" by (auto simp: less_Suc_eq)
    with 1 True show ?thesis by (simp add: eq)
  next
    case False
    with 1 show ?thesis by (simp add: eq)
  qed
qed

lemma scan_bits_less: "x \<noteq> 0xFF \<Longrightarrow> scan_bits x 0 < 8"
  using scan_bits_spec [of 0 x] unfolding u8_full_iff by (meson less_nat_zero_code order_less_le_trans linorder_not_le)

lemma scan_bytes_stops:
  assumes "i < j" "j \<le> btmp_bytes_len b" "\<And>k. i \<le> k \<Longrightarrow> k < j \<Longrightarrow> bits b ! k = 0xFF"
    and "length (bits b) > j"
  shows "scan_bytes b i = scan_bytes b j"
  using assms
proof (induction "j - i" arbitrary: i)
  case 0
  then show ?case by simp
next
  case (Suc n)
  have step: "scan_bytes b i = scan_bytes b (Suc i)"
    using Suc.prems by (subst scan_bytes.simps) simp
  show ?case
  proof (cases "Suc i = j")
    case True
    with step show ?thesis by simp
  next
    case False
    with Suc.hyps(2) Suc.prems have "scan_bytes b (Suc i) = scan_bytes b j"
      by (intro Suc.hyps(1)) auto
    with step show ?thesis by simp
  qed
qed

lemma scan_bytes_find:
  assumes "j < btmp_bytes_len b" "bits b ! j \<noteq> 0xFF" "\<forall>k<j. bits b ! k = 0xFF"
    and "btmp_bytes_len b \<le> length (bits b)"
  shows "scan_bytes b 0 = Inr j"
proof -
  have "scan_bytes b j = Inr j"
    using assms by (subst scan_bytes.simps) simp
  moreover have "j > 0 \<Longrightarrow> scan_bytes b 0 = scan_bytes b j"
    by (rule scan_bytes_stops) (use assms in auto)
  ultimately show ?thesis by (cases j) auto
qed

lemma scan_bytes_full:
  assumes "\<forall>k<btmp_bytes_len b. bits b ! k = 0xFF" "bitmap_wf b"
  shows "scan_bytes b 0 = Inr (btmp_bytes_len b)"
proof -
  have "scan_bytes b (btmp_bytes_len b) = Inr (btmp_bytes_len b)"
    using assms by (subst scan_bytes.simps) (simp add: bitmap_wf_def)
  moreover have "btmp_bytes_len b > 0 \<Longrightarrow> scan_bytes b 0 = scan_bytes b (btmp_bytes_len b)"
    by (rule scan_bytes_stops) (use assms in \<open>auto simp: bitmap_wf_def\<close>)
  ultimately show ?thesis by (cases "btmp_bytes_len b") auto
qed

lemma byte_full_iff: "bits b ! k = 0xFF \<longleftrightarrow> (\<forall>i. i div 8 = k \<longrightarrow> bused b i)"
proof -
  have "(\<forall>j<8. bit (bits b ! k) j) \<longleftrightarrow> (\<forall>i. i div 8 = k \<longrightarrow> bit (bits b ! (i div 8)) (i mod 8))"
  proof
    assume L: "\<forall>i. i div 8 = k \<longrightarrow> bit (bits b ! (i div 8)) (i mod 8)"
    show "\<forall>j<8. bit (bits b ! k) j"
    proof (intro allI impI)
      fix j :: nat assume "j < 8"
      then show "bit (bits b ! k) j" using L [rule_format, of "k * 8 + j"] by simp
    qed
  qed auto
  then show ?thesis by (simp add: u8_full_iff bused_def)
qed

text \<open>The first free bit of a bitmap with memory for its bytes, and what the loops compute of it.\<close>

lemma first_free_loops:
  assumes wf: "btmp_bytes_len b \<le> length (bits b)"
    and f: "f < bcap b" "\<not> bused b f" "\<forall>j<f. bused b j"
  shows "scan_bytes b 0 = Inr (f div 8)" and "scan_bits (bits b ! (f div 8)) 0 = f mod 8"
    and "f div 8 < btmp_bytes_len b"
proof -
  let ?k = "f div 8"
  show k: "?k < btmp_bytes_len b" using f(1) by (simp add: div8_less mult.commute)
  have nf: "bits b ! ?k \<noteq> 0xFF" using f(2) by (auto simp: byte_full_iff)
  have "\<forall>i<?k. bits b ! i = 0xFF"
    unfolding byte_full_iff using f(3) by (auto simp: div_less_iff_less_mult)
  from scan_bytes_find [OF k nf this wf] show "scan_bytes b 0 = Inr ?k" .
  let ?s = "scan_bits (bits b ! ?k) 0"
  have s: "\<forall>j<?s. bit (bits b ! ?k) j" "\<not> bit (bits b ! ?k) ?s"
    using scan_bits_spec [of 0 "bits b ! ?k"] by auto
  have "\<not> ?s < f mod 8"
  proof
    assume lt: "?s < f mod 8"
    have "f mod 8 < 8" by simp
    with lt have "?s < 8" by linarith
    then have "\<not> bused b (?k * 8 + ?s)" using s(2) by (simp add: bused_def)
    moreover have "?k * 8 + ?s < f" using lt div_mult_mod_eq [of f 8] by linarith
    ultimately show False using f(3) by blast
  qed
  moreover have "\<not> f mod 8 < ?s" using s(1) f(2) by (auto simp: bused_def)
  ultimately show "?s = f mod 8" by simp
qed

lemma exists_first_free:
  assumes "bset b \<noteq> {..<bcap b}"
  obtains f where "f < bcap b" "\<not> bused b f" "\<forall>j<f. bused b j"
proof -
  obtain i where "i < bcap b" "\<not> bused b i" 
    using assms bset_subset [of b] unfolding bset_def by blast
  let ?f = "LEAST i. \<not> bused b i"
  show thesis
  proof (rule that)
    show "\<not> bused b ?f" by (rule LeastI) fact
    have "?f \<le> i" by (rule Least_le) fact
    then show "?f < bcap b" using \<open>i < bcap b\<close> by linarith
    show "\<forall>j<?f. bused b j" using not_less_Least [of _ "\<lambda>i. \<not> bused b i"] by blast
  qed
qed

lemma bitmap_scan_one:
  assumes "bitmap_wf b" "f < bcap b" "\<not> bused b f" "\<forall>j<f. bused b j"
  shows "bitmap_scan b 1 = Inr (int f)"
proof -
  have le: "btmp_bytes_len b \<le> length (bits b)" using assms by (simp add: bitmap_wf_def)
  note L = first_free_loops [OF le assms(2-4)]
  have "f div 8 < length (bits b)" using L(3) le by linarith
  moreover have "int (f div 8) * 8 + int (f mod 8) = int f"
    by (metis div_mult_mod_eq of_nat_add of_nat_mult of_nat_numeral)
  ultimately show ?thesis using L by (simp add: bitmap_scan_def Let_def)
qed

lemma bitmap_scan_full:
  assumes "bitmap_wf b" "bset b = {..<bcap b}"
  shows "bitmap_scan b cnt = Inl (Assert_fail ''bitmap_scan'')"
proof -
  have "\<forall>k<btmp_bytes_len b. bits b ! k = 0xFF"
  proof (unfold byte_full_iff, intro allI impI)
    fix k i assume "k < btmp_bytes_len b" "i div 8 = k"
    then have "i < bcap b" using div_less_iff_less_mult [of 8 i] by simp
    then have "i \<in> bset b" using assms(2) by simp
    then show "bused b i" by (simp add: bset_def)
  qed
  from scan_bytes_full [OF this assms(1)] show ?thesis by (simp add: bitmap_scan_def)
qed

section \<open>The search for a run of free bits\<close>

definition free_run :: "bitmap \<Rightarrow> nat \<Rightarrow> nat \<Rightarrow> bool" where
  "free_run b s cnt \<longleftrightarrow> (\<forall>j. s \<le> j \<longrightarrow> j < s + cnt \<longrightarrow> \<not> bused b j)"

lemma free_runD: "free_run b s cnt \<Longrightarrow> s \<le> j \<Longrightarrow> j < s + cnt \<Longrightarrow> \<not> bused b j"
  by (simp add: free_run_def)

lemma scan_run_spec:
  assumes "bitmap_wf b" "next_bit + left = Suc (bcap b)" "0 < cnt"
    and "count < cnt" "count \<le> next_bit" "free_run b (next_bit - count) count"
  shows "scan_run b cnt left next_bit count = Inr (- 1) \<and>
           (\<forall>s. next_bit \<le> s + count \<longrightarrow> s + cnt \<le> next_bit + left \<longrightarrow> \<not> free_run b s cnt)
       \<or> (\<exists>s. scan_run b cnt left next_bit count = Inr (int s) \<and> next_bit \<le> s + count
           \<and> s + cnt \<le> next_bit + left \<and> free_run b s cnt)"
  using assms(2-)
proof (induction left arbitrary: next_bit count)
  case 0
  then show ?case by auto
next
  case (Suc left)
  have test: "bitmap_scan_test b next_bit = Inr (bused b next_bit)"
    using Suc.prems(1) by (intro bitmap_scan_test_eq assms(1)) simp
  show ?case
  proof (cases "bused b next_bit")
    case True
    have shift: "\<not> free_run b s cnt" if "next_bit \<le> s + count" "s \<le> next_bit" for s
      using that True Suc.prems(3) by (auto simp: free_run_def)
    have "free_run b (Suc next_bit - 0) 0" by (simp add: free_run_def)
    from Suc.IH [of "Suc next_bit" 0, OF _ assms(3) assms(3) _ this] Suc.prems(1)
    consider
        (none) "scan_run b cnt left (Suc next_bit) 0 = Inr (- 1)"
          "\<And>s. Suc next_bit \<le> s \<Longrightarrow> s + cnt \<le> Suc next_bit + left \<Longrightarrow> \<not> free_run b s cnt"
      | (found) s where "scan_run b cnt left (Suc next_bit) 0 = Inr (int s)" "Suc next_bit \<le> s"
          "s + cnt \<le> Suc next_bit + left" "free_run b s cnt"
      by auto
    then show ?thesis
    proof cases
      case none
      have "\<not> free_run b s cnt" if "next_bit \<le> s + count" "s + cnt \<le> next_bit + Suc left" for s
        using that none(2) [of s] shift [of s] by (cases "s \<le> next_bit") auto
      with none test True assms(3) show ?thesis by simp
    next
      case found
      with test True assms(3) show ?thesis by (intro disjI2 exI [of _ s]) simp
    qed
  next
    case False
    have run: "free_run b (next_bit - count) (Suc count)"
      using False Suc.prems(4,5) unfolding free_run_def
      by (metis Suc_eq_plus1 add_Suc_right le_add_diff_inverse2 less_Suc_eq)
    show ?thesis
    proof (cases "Suc count = cnt")
      case True
      have eq: "int next_bit - int cnt + 1 = int (next_bit - count)"
        using True Suc.prems(4) by simp
      with True run test False Suc.prems show ?thesis
        by (intro disjI2 exI [of _ "next_bit - count"]) auto
    next
      case neq: False
      have "free_run b (Suc next_bit - Suc count) (Suc count)" using run by simp
      from Suc.IH [of "Suc next_bit" "Suc count", OF _ assms(3) _ _ this] Suc.prems neq
      show ?thesis using test False by simp
    qed
  qed
qed

lemma bitmap_scan_run_spec:
  assumes wf: "bitmap_wf b" and cnt: "0 < cnt" and space: "bset b \<noteq> {..<bcap b}"
  shows "bitmap_scan b cnt = Inr (- 1) \<and> (\<forall>s. s + cnt \<le> Suc (bcap b) \<longrightarrow> \<not> free_run b s cnt)
       \<or> (\<exists>s. bitmap_scan b cnt = Inr (int s) \<and> s + cnt \<le> Suc (bcap b) \<and> s < bcap b
             \<and> free_run b s cnt)"
proof -
  obtain f where f: "f < bcap b" "\<not> bused b f" "\<forall>j<f. bused b j"
    by (rule exists_first_free [OF space])
  show ?thesis
  proof (cases "cnt = 1")
    case True
    with f bitmap_scan_one [OF wf f] show ?thesis
      by (intro disjI2 exI [of _ f]) (auto simp: free_run_def less_Suc_eq_le)
  next
    case False
    have le: "btmp_bytes_len b \<le> length (bits b)" using wf by (simp add: bitmap_wf_def)
    note L = first_free_loops [OF le f]
    have idx: "f div 8 < length (bits b)" using L(3) le by linarith
    have eq: "bitmap_scan b cnt = scan_run b cnt (bcap b - f) (Suc f) 1"
      using L idx False by (simp add: bitmap_scan_def Let_def)
    have "free_run b (Suc f - 1) 1" using f by (simp add: free_run_def less_Suc_eq_le)
    from scan_run_spec [of b "Suc f" "bcap b - f" cnt 1, OF wf _ cnt _ _ this] f(1) False cnt
    consider (none) "bitmap_scan b cnt = Inr (- 1)"
        "\<And>s. f \<le> s \<Longrightarrow> s + cnt \<le> Suc (bcap b) \<Longrightarrow> \<not> free_run b s cnt"
      | (found) s where "bitmap_scan b cnt = Inr (int s)" "f \<le> s" "s + cnt \<le> Suc (bcap b)"
        "free_run b s cnt"
      unfolding eq by auto
    then show ?thesis
    proof cases
      case none
      have "\<not> free_run b s cnt" if "s + cnt \<le> Suc (bcap b)" for s
        using that none(2) [of s] f(3) cnt by (cases "f \<le> s") (auto simp: free_run_def)
      with none show ?thesis by simp
    next
      case found
      with False cnt show ?thesis by (intro disjI2 exI [of _ s]) auto
    qed
  qed
qed

section \<open>Setting a bit\<close>

lemma bitmap_set_spec:
  assumes "i < 8 * length (bits b)" "v = 0 \<or> v = 1"
  obtains b' where "bitmap_set b i v = Inr b'" "\<And>j. bused b' j = (if j = i then v = 1 else bused b j)"
    "btmp_bytes_len b' = btmp_bytes_len b" "length (bits b') = length (bits b)"
proof -
  let ?k = "i div 8" and ?o = "i mod 8"
  let ?x = "if v \<noteq> 0 then bits b ! ?k OR push_bit ?o 1 else bits b ! ?k AND NOT (push_bit ?o 1)"
  let ?b' = "b\<lparr>bits := (bits b)[?k := ?x]\<rparr>"
  have k: "?k < length (bits b)" using assms(1) by (rule div8_less)
  have bit: "bit ?x m = (if m = ?o then v = 1 else bit (bits b ! ?k) m)" if "m < 8" for m
    using that assms(2) by (auto simp: bit_simps)
  have "bused ?b' j = (if j = i then v = 1 else bused b j)" for j
  proof (cases "j div 8 = ?k")
    case True
    then have "j = i \<longleftrightarrow> j mod 8 = ?o" by (metis div_mult_mod_eq)
    then show ?thesis using True k bit [of "j mod 8"] by (simp add: bused_def)
  qed (auto simp: bused_def)
  moreover have "bitmap_set b i v = Inr ?b'"
    using k assms(2) by (auto simp: bitmap_set_def Let_def)
  ultimately show thesis using that by auto
qed

lemma bitmap_set_bset:
  assumes "bitmap_wf b" "i < bcap b" "v = 0 \<or> v = 1"
  obtains b' where "bitmap_set b i v = Inr b'" "bitmap_wf b'" "btmp_bytes_len b' = btmp_bytes_len b"
    "bset b' = (if v = 1 then insert i (bset b) else bset b - {i})"
    "length (bits b') = length (bits b)" "\<And>j. bused b' j = (if j = i then v = 1 else bused b j)"
proof -
  have "i < 8 * length (bits b)" using assms(1,2) by (auto simp: bitmap_wf_def)
  then obtain b' where b': "bitmap_set b i v = Inr b'"
    "\<And>j. bused b' j = (if j = i then v = 1 else bused b j)"
    "btmp_bytes_len b' = btmp_bytes_len b" "length (bits b') = length (bits b)"
    using bitmap_set_spec [of i b v] assms(3) by blast
  moreover have "bset b' = (if v = 1 then insert i (bset b) else bset b - {i})"
    using b' assms(2) by (auto simp: bset_def)
  ultimately show thesis using that assms(1) by (simp add: bitmap_wf_def)
qed

lemma bitmap_init_spec:
  assumes "bitmap_wf b"
  obtains b' where "bitmap_init b = Inr b'" "bitmap_wf b'" "bset b' = {}"
    "btmp_bytes_len b' = btmp_bytes_len b"
proof -
  let ?b' = "b\<lparr>bits := replicate (btmp_bytes_len b) 0 @ drop (btmp_bytes_len b) (bits b)\<rparr>"
  have "bset ?b' = {}"
    by (auto simp: bset_def bused_def nth_append div_less_iff_less_mult)
  with assms that [of ?b'] show thesis by (auto simp: bitmap_init_def bitmap_wf_def)
qed

section \<open>Properties\<close>

text \<open>C1.  The single-bit scan of a bitmap returns the lowest free bit.  When no bit is free the
  assertion in the middle of \<^verbatim>\<open>bitmap_scan\<close> fires, so the \<^verbatim>\<open>return -1\<close> that the
  comment announces is never reached.\<close>

theorem bitmap_scan_first_free:
  assumes "bitmap_wf b"
  shows "bitmap_scan b 1 =
    (if bset b = {..<bcap b} then Inl (Assert_fail ''bitmap_scan'') else Inr (int (LEAST i. \<not> bused b i)))"
proof (cases "bset b = {..<bcap b}")
  case True
  then show ?thesis using bitmap_scan_full [OF assms] by simp
next
  case False
  then obtain f where f: "f < bcap b" "\<not> bused b f" "\<forall>j<f. bused b j" by (rule exists_first_free)
  have "(LEAST i. \<not> bused b i) = f"
    by (rule Least_equality) (use f in \<open>auto simp: not_less [symmetric]\<close>)
  with bitmap_scan_one [OF assms f] False show ?thesis by simp
qed

theorem bitmap_scan_first_free_witness:
  "bitmap_wf \<lparr>btmp_bytes_len = 2, bits = [0xFF, 0x0B, 0]\<rparr> \<and>
   bitmap_scan \<lparr>btmp_bytes_len = 2, bits = [0xFF, 0x0B, 0]\<rparr> 1 = Inr 10"
proof -
  let ?b = "\<lparr>btmp_bytes_len = 2, bits = [0xFF, 0x0B, 0]\<rparr>"
  have wf: "bitmap_wf ?b" by (simp add: bitmap_wf_def)
  have free: "\<not> bused ?b 10" by (simp add: bused_def)
  have "list_all (bused ?b) [0..<10]" by code_simp
  then have used: "bused ?b j" if "j < 10" for j
    using that by (simp add: list_all_iff)
  have "(LEAST i. \<not> bused ?b i) = 10"
    by (rule Least_equality) (use free used in \<open>auto simp: not_less [symmetric]\<close>)
  moreover have "10 \<in> {..<bcap ?b} - bset ?b" using free by (simp add: bset_def)
  then have "bset ?b \<noteq> {..<bcap ?b}" by blast
  ultimately show ?thesis using bitmap_scan_first_free [OF wf] wf by simp
qed

text \<open>C2.  The search for \<open>cnt\<close> free bits in a row: it returns the start of a run of free bits, and
  it returns \<open>- 1\<close> only when there is none; the bit directly behind the bitmap counts as one
  of its bits, so the run it returns may end one bit too late.\<close>

theorem bitmap_scan_finds_run:
  assumes "bitmap_wf b" "0 < cnt" "bset b \<noteq> {..<bcap b}"
  shows "bitmap_scan b cnt = Inr (- 1) \<and> (\<forall>s. s + cnt \<le> Suc (bcap b) \<longrightarrow> \<not> free_run b s cnt)
    \<or> (\<exists>s. bitmap_scan b cnt = Inr (int s) \<and> s < bcap b \<and> s + cnt \<le> Suc (bcap b) \<and> free_run b s cnt)"
  using bitmap_scan_run_spec [OF assms] by blast

theorem bitmap_scan_finds_run_witness:
  "bitmap_wf \<lparr>btmp_bytes_len = 1, bits = [0x15, 0xFF]\<rparr> \<and>
   (\<exists>s. bitmap_scan \<lparr>btmp_bytes_len = 1, bits = [0x15, 0xFF]\<rparr> 3 = Inr (int s) \<and> s + 3 \<le> 9)"
proof -
  let ?b = "\<lparr>btmp_bytes_len = 1, bits = [0x15, 0xFF]\<rparr>"
  have wf: "bitmap_wf ?b" by (simp add: bitmap_wf_def)
  have "1 \<in> {..<bcap ?b} - bset ?b" by (simp add: bset_def bused_def)
  then have sp: "bset ?b \<noteq> {..<bcap ?b}" by blast
  have "\<forall>j\<in>{5..<8}. \<not> bused ?b j" by code_simp
  then have "free_run ?b 5 3" by (simp add: free_run_def)
  then show ?thesis using bitmap_scan_finds_run [OF wf _ sp, of 3] wf by force
qed

text \<open>The run search on one byte with one free bit at its end, followed by a clear byte.\<close>

theorem bitmap_scan_overshoots:
  "bitmap_scan \<lparr>btmp_bytes_len = 1, bits = [0x7F, 0]\<rparr> 2 = Inr 7"
proof -
  have "scan_bytes \<lparr>btmp_bytes_len = 1, bits = [0x7F, 0]\<rparr> 0 = Inr 0"
    by (subst scan_bytes.simps) simp
  moreover have "scan_bits 0x7F 0 = 7"
    by (simp add: scan_bits.simps)
  ultimately show ?thesis
    by (simp add: bitmap_scan_def Let_def numeral_2_eq_2 bitmap_scan_test_def aget_def)
qed

end
