(* ===== verification/Interrupt.thy ===== *)
theory Interrupt
  imports Kernel_Prelude
begin

text \<open>
  \<^verbatim>\<open>kernel/interrupt.c\<close>: the interrupt flag, the interrupt descriptor table and the
  programming of the two interrupt controllers.  The flags register is a 32-bit word;
  addresses of entry points are 32-bit words; \<^verbatim>\<open>outb\<close> appends to a trace of port
  writes.
\<close>

section \<open>The interrupt flag\<close>

datatype intr_status = INTR_OFF | INTR_ON

definition EFLAGS_IF :: u32 where
  "EFLAGS_IF = 0x200"

definition intr_get_status :: "u32 \<Rightarrow> intr_status" where
  "intr_get_status eflags = (if eflags AND EFLAGS_IF \<noteq> 0 then INTR_ON else INTR_OFF)"

definition intr_enable :: "u32 \<Rightarrow> intr_status \<times> u32" where
  "intr_enable eflags =
     (let old_status = intr_get_status eflags
      in (old_status, if old_status = INTR_OFF then eflags OR EFLAGS_IF else eflags))"

definition intr_disable :: "u32 \<Rightarrow> intr_status \<times> u32" where
  "intr_disable eflags =
     (let old_status = intr_get_status eflags
      in (old_status, if old_status = INTR_ON then eflags AND NOT EFLAGS_IF else eflags))"

definition intr_set_status :: "intr_status \<Rightarrow> u32 \<Rightarrow> intr_status \<times> u32" where
  "intr_set_status status eflags =
     (if status = INTR_ON then intr_enable eflags else intr_disable eflags)"

section \<open>The interrupt descriptor table\<close>

record gate_desc =
  func_offset_low_word :: u16
  selector :: u16
  dcount :: u8
  attribute :: u8
  func_offset_high_word :: u16

definition IDT_DESC_CNT :: nat where
  "IDT_DESC_CNT = 0x81"

definition SELECTOR_K_CODE :: u16 where
  "SELECTOR_K_CODE = push_bit 3 1 + push_bit 2 0 + 0"

definition IDT_DESC_ATTR_DPL0 :: u8 where
  "IDT_DESC_ATTR_DPL0 = push_bit 7 1 + push_bit 5 0 + 0xE"

definition IDT_DESC_ATTR_DPL3 :: u8 where
  "IDT_DESC_ATTR_DPL3 = push_bit 7 1 + push_bit 5 3 + 0xE"

definition make_idt_desc :: "u8 \<Rightarrow> u32 \<Rightarrow> gate_desc" where
  "make_idt_desc attr function =
     \<lparr>func_offset_low_word = ucast (function AND 0x0000FFFF),
      selector = SELECTOR_K_CODE,
      dcount = 0,
      attribute = attr,
      func_offset_high_word = ucast (drop_bit 16 (function AND 0xFFFF0000))\<rparr>"

text \<open>
  \<open>intr_entry_table\<close> (from \<^verbatim>\<open>kernel/kernel.s\<close>) and the address of
  \<^verbatim>\<open>syscall_handler\<close> are parameters.
\<close>

definition idt_desc_init :: "u32 list \<Rightarrow> u32 \<Rightarrow> gate_desc list kres" where
  "idt_desc_init intr_entry_table syscall_handler =
     (let lastindex = IDT_DESC_CNT - 1
      in if IDT_DESC_CNT \<le> length intr_entry_table
         then Inr ((map (\<lambda>i. make_idt_desc IDT_DESC_ATTR_DPL0 (intr_entry_table ! i)) [0..<IDT_DESC_CNT])
                     [lastindex := make_idt_desc IDT_DESC_ATTR_DPL3 syscall_handler])
         else Inl Fault)"

datatype handler =
    General_intr_handler
  | Handler string

text \<open>
  The default handler returns for the two spurious vectors; for any other vector it
  paints the exception on the screen and spins.  The second component of the result is
  what it writes to the screen.
\<close>

datatype screen_event =
    Set_cursor nat
  | Put_char char
  | Put_str string
  | Put_int u32

definition general_intr_handler :: "string list \<Rightarrow> u32 \<Rightarrow> u8 \<Rightarrow> screen_event list \<times> unit kres" where
  "general_intr_handler intr_name cr2 vec_nr =
     (if vec_nr = 0x27 \<or> vec_nr = 0x2f then ([], Inr ())
      else
        let clear = [Set_cursor 0] @ replicate 320 (Put_char CHR '' '') @
              [Set_cursor 0, Put_str (''!!!!!!!      excetion message begin  !!!!!!!!'' @ [CHR 0x0A]), Set_cursor 88]
        in case aget intr_name (unat vec_nr) of
             Inl e \<Rightarrow> (clear, Inl e)
           | Inr name \<Rightarrow>
               (clear @ [Put_str name] @
                (if vec_nr = 14 then [Put_str (CHR 0x0A # ''page fault addr is ''), Put_int cr2] else []) @
                [Put_str (CHR 0x0A # ''!!!!!!!      excetion message end  !!!!!!!!'' @ [CHR 0x0A])],
                Inl Diverges))"

text \<open>The handler table and the exception names that \<^verbatim>\<open>exception_init\<close> fills.\<close>

definition exception_init :: "handler list \<times> string list" where
  "exception_init =
     (replicate IDT_DESC_CNT General_intr_handler,
      (replicate IDT_DESC_CNT ''unknown'')
        [0 := ''#DE Divide Error'', 1 := ''#DB Debug Exception'', 2 := ''NMI Interrupt'',
         3 := ''#BP Breakpoint Exception'', 4 := ''#OF Overflow Exception'',
         5 := ''#BR BOUND Range Exceeded Exception'', 6 := ''#UD Invalid Opcode Exception'',
         7 := ''#NM Device Not Available Exception'', 8 := ''#DF Double Fault Exception'',
         9 := ''Coprocessor Segment Overrun'', 10 := ''#TS Invalid TSS Exception'',
         11 := ''#NP Segment Not Present'', 12 := ''#SS Stack Fault Exception'',
         13 := ''#GP General Protection Exception'', 14 := ''#PF Page-Fault Exception'',
         16 := ''#MF x87 FPU Floating-Point Error'', 17 := ''#AC Alignment Check Exception'',
         18 := ''#MC Machine-Check Exception'', 19 := ''#XF SIMD Floating-Point Exception''])"

definition register_handler :: "u8 \<Rightarrow> handler \<Rightarrow> handler list \<Rightarrow> handler list kres" where
  "register_handler vector_no function idt_table = aset idt_table (unat vector_no) function"

definition pic_init :: "(u16 \<times> u8) list" where
  "pic_init =
     [(0x20, 0x11), (0x21, 0x20), (0x21, 0x04), (0x21, 0x01),
      (0xa0, 0x11), (0xa1, 0x28), (0xa1, 0x02), (0xa1, 0x01),
      (0x21, 0xf8), (0xa1, 0xbf)]"

text \<open>The operand of \<^verbatim>\<open>lidt\<close>: table size minus one in the low 16 bits, the address above.\<close>

definition idt_operand :: "u32 \<Rightarrow> 64 word" where
  "idt_operand idt = (of_nat (IDT_DESC_CNT * 8) - 1) OR push_bit 16 (ucast idt)"

text \<open>What \<^verbatim>\<open>idt_init\<close> sets up: the table, the handlers and names, the port writes, the
  operand of \<^verbatim>\<open>lidt\<close>.\<close>

record idt_state =
  idt :: "gate_desc list"
  idt_table :: "handler list"
  intr_name :: "string list"
  ports :: "(u16 \<times> u8) list"
  idtr :: "64 word"

definition idt_init :: "u32 list \<Rightarrow> u32 \<Rightarrow> u32 \<Rightarrow> idt_state kres" where
  "idt_init intr_entry_table syscall_handler idt_addr =
     kbind (idt_desc_init intr_entry_table syscall_handler) (\<lambda>tbl.
       let (handlers, names) = exception_init
       in Inr \<lparr>idt = tbl, idt_table = handlers, intr_name = names, ports = pic_init, idtr = idt_operand idt_addr\<rparr>)"

section \<open>Lemmas\<close>

lemma bit_u32_exp: "bit (2 ^ k :: u32) n \<longleftrightarrow> n = k \<and> k < 32"
  by (auto simp: bit_simps)

lemma bit_EFLAGS_IF [simp]: "bit EFLAGS_IF n \<longleftrightarrow> n = 9"
  using bit_u32_exp [of 9 n] by (simp add: EFLAGS_IF_def)

lemma intr_get_status_bit: "intr_get_status e = (if bit e 9 then INTR_ON else INTR_OFF)"
  using and_exp_eq_0_iff [of e 9] by (simp add: intr_get_status_def EFLAGS_IF_def)

lemma intr_disable_off [simp]: "intr_get_status (snd (intr_disable e)) = INTR_OFF"
  by (auto simp: intr_disable_def intr_get_status_bit Let_def bit_simps)

lemma intr_disable_fst [simp]: "fst (intr_disable e) = intr_get_status e"
  by (simp add: intr_disable_def Let_def)

text \<open>Every kernel critical section has this shape: disable, work, restore.\<close>

lemma intr_restore [simp]:
  "snd (intr_set_status (intr_get_status e) (snd (intr_disable e))) = e"
  by (rule bit_word_eqI)
     (auto simp: intr_set_status_def intr_disable_def intr_enable_def intr_get_status_bit Let_def bit_simps)

definition gate_offset :: "gate_desc \<Rightarrow> u32" where
  "gate_offset g = ucast (func_offset_low_word g) OR push_bit 16 (ucast (func_offset_high_word g))"

definition gate_dpl :: "gate_desc \<Rightarrow> nat" where
  "gate_dpl g = unat (drop_bit 5 (attribute g) AND 3)"

definition gate_present :: "gate_desc \<Rightarrow> bool" where
  "gate_present g = bit (attribute g) 7"

lemma mask_low16: "(0xFFFF :: u32) = mask 16"
  by (simp add: mask_eq_exp_minus_1)

lemma mask_high16: "(0xFFFF0000 :: u32) = push_bit 16 (mask 16)"
  by (simp add: mask_eq_exp_minus_1 push_bit_eq_mult)

lemma make_idt_desc_offset [simp]: "gate_offset (make_idt_desc a f) = f"
proof (rule bit_word_eqI)
  fix n assume n: "n < LENGTH(32)"
  show "bit (gate_offset (make_idt_desc a f)) n = bit f n"
    unfolding gate_offset_def make_idt_desc_def mask_low16 mask_high16
    using n by (cases "n < 16") (auto simp: bit_simps)
qed

lemma idt_desc_init_spec:
  assumes "IDT_DESC_CNT \<le> length tbl"
  obtains idt where "idt_desc_init tbl h = Inr idt" "length idt = IDT_DESC_CNT"
    "\<And>i. i < IDT_DESC_CNT \<Longrightarrow> idt ! i = (if i = IDT_DESC_CNT - 1 then make_idt_desc IDT_DESC_ATTR_DPL3 h
        else make_idt_desc IDT_DESC_ATTR_DPL0 (tbl ! i))"
proof (rule that)
  let ?idt = "(map (\<lambda>i. make_idt_desc IDT_DESC_ATTR_DPL0 (tbl ! i)) [0..<IDT_DESC_CNT])
                     [IDT_DESC_CNT - 1 := make_idt_desc IDT_DESC_ATTR_DPL3 h]"
  show "idt_desc_init tbl h = Inr ?idt" using assms by (simp add: idt_desc_init_def Let_def)
  show "length ?idt = IDT_DESC_CNT" by simp
  show "?idt ! i = (if i = IDT_DESC_CNT - 1 then make_idt_desc IDT_DESC_ATTR_DPL3 h
        else make_idt_desc IDT_DESC_ATTR_DPL0 (tbl ! i))" if "i < IDT_DESC_CNT" for i
    using that by (simp add: nth_list_update)
qed

lemma gate_attr [simp]:
  "gate_dpl (make_idt_desc IDT_DESC_ATTR_DPL0 f) = 0" "gate_present (make_idt_desc IDT_DESC_ATTR_DPL0 f)"
  "gate_dpl (make_idt_desc IDT_DESC_ATTR_DPL3 f) = 3" "gate_present (make_idt_desc IDT_DESC_ATTR_DPL3 f)"
  by (simp_all add: gate_dpl_def gate_present_def make_idt_desc_def IDT_DESC_ATTR_DPL0_def IDT_DESC_ATTR_DPL3_def)

section \<open>Properties\<close>



text \<open>C4.  Disabling interrupts and restoring the saved status leaves the interrupt flag as it
  was, whatever it was; in between the flag is clear.\<close>

theorem intr_save_restore:
  "intr_get_status (snd (intr_disable e)) = INTR_OFF
   \<and> snd (intr_set_status (fst (intr_disable e)) (snd (intr_disable e))) = e"
  by simp

end
