(* ===== verification/Sched.thy ===== *)
theory Sched
  imports Paging Bitmap Interrupt
begin

text \<open>
  The scheduler: \<^verbatim>\<open>thread/thread.h\<close>, the scheduling half of \<^verbatim>\<open>thread/thread.c\<close>,
  the address-space switch of \<^verbatim>\<open>userprog/process.c\<close> and the clock of
  \<^verbatim>\<open>device/timer.c\<close>.

  A thread is named by the address of its PCB.  The queues hold PCB addresses, standing
  for the list nodes inside the PCBs (\<^verbatim>\<open>general_tag\<close> in the ready list and the wait
  queues, \<^verbatim>\<open>all_list_tag\<close> in the list of all threads), as sequences: that the pointer
  code implements sequences is shown in the theory of \<^verbatim>\<open>list.c\<close>.  \<open>running\<close> is what
  \<^verbatim>\<open>running_thread\<close> derives from the stack pointer; \<^verbatim>\<open>switch_to\<close> is its update.
\<close>

section \<open>Data\<close>

datatype task_status = TASK_RUNNING | TASK_READY | TASK_BLOCKED | TASK_WAITING | TASK_HANGING | TASK_DIED

record virtual_addr =
  vaddr_bitmap :: bitmap
  vaddr_start :: u32

record mem_block_desc =
  block_size :: u32
  blocks_per_arena :: u32
  free_list :: "u32 list"

record task_struct =
  self_kstack :: u32
  pid :: int
  status :: task_status
  tname :: string
  priority :: u32
  ticks :: u8
  elapsed_ticks :: u32
  pgdir :: u32
  userprog_vaddr :: virtual_addr
  u_block_desc :: "mem_block_desc list"
  fd_table :: "int list"
  cwd_inode_nr :: u32
  parent_pid :: int
  exit_status :: int
  stack_magic :: u32

record sched = mmu +
  tss_esp0 :: u32
  flags :: u32
  timer_ticks :: u32
  running :: u32
  tasks :: "u32 \<rightharpoonup> task_struct"
  thread_ready_list :: "u32 list"
  thread_all_list :: "u32 list"
  main_thread :: u32
  idle_thread :: u32

definition get_task :: "u32 \<Rightarrow> 'a sched_scheme \<Rightarrow> task_struct kres" where
  "get_task p s = (case tasks s p of None \<Rightarrow> Inl Fault | Some t \<Rightarrow> Inr t)"

definition upd_task :: "u32 \<Rightarrow> (task_struct \<Rightarrow> task_struct) \<Rightarrow> 'a sched_scheme \<Rightarrow> 'a sched_scheme" where
  "upd_task p f s = s\<lparr>tasks := (tasks s)(p := map_option f (tasks s p))\<rparr>"

definition intr_off :: "'a sched_scheme \<Rightarrow> intr_status \<times> 'a sched_scheme" where
  "intr_off s = (let (old, fl) = intr_disable (flags s) in (old, s\<lparr>flags := fl\<rparr>))"

definition intr_back :: "intr_status \<Rightarrow> 'a sched_scheme \<Rightarrow> 'a sched_scheme" where
  "intr_back old s = s\<lparr>flags := snd (intr_set_status old (flags s))\<rparr>"

section \<open>Address space of the next task\<close>

definition page_dir_activate :: "u32 \<Rightarrow> 'a sched_scheme \<Rightarrow> 'a sched_scheme kres" where
  "page_dir_activate p s =
     kbind (get_task p s) (\<lambda>t.
     kbind (if pgdir t \<noteq> 0 then addr_v2p (pgdir t) s else Inr 0x100000) (\<lambda>pagedir_phy_addr.
     Inr (s\<lparr>cr3 := pagedir_phy_addr\<rparr>)))"

definition update_tss_esp :: "u32 \<Rightarrow> 'a sched_scheme \<Rightarrow> 'a sched_scheme" where
  "update_tss_esp p s = s\<lparr>tss_esp0 := p + PG_SIZE\<rparr>"

definition process_activate :: "u32 \<Rightarrow> 'a sched_scheme \<Rightarrow> 'a sched_scheme kres" where
  "process_activate p s =
     kbind (kassert ''process_activate'' (p \<noteq> 0)) (\<lambda>_.
     kbind (page_dir_activate p s) (\<lambda>s.
     kbind (get_task p s) (\<lambda>t.
     Inr (if pgdir t \<noteq> 0 then update_tss_esp p s else s))))"

section \<open>Scheduling\<close>

definition thread_unblock :: "u32 \<Rightarrow> 'a sched_scheme \<Rightarrow> 'a sched_scheme kres" where
  "thread_unblock p s =
     (let (old_status, s) = intr_off s
      in kbind (get_task p s) (\<lambda>t.
         kbind (kassert ''thread_unblock'' (status t = TASK_BLOCKED \<or> status t = TASK_WAITING \<or> status t = TASK_HANGING)) (\<lambda>_.
         if status t \<noteq> TASK_READY then
           kbind (kassert ''thread_unblock'' (p \<notin> set (thread_ready_list s))) (\<lambda>_.
           Inr (intr_back old_status
             (upd_task p (\<lambda>t. t\<lparr>status := TASK_READY\<rparr>) (s\<lparr>thread_ready_list := p # thread_ready_list s\<rparr>))))
         else Inr (intr_back old_status s))))"

text \<open>The second half of \<^verbatim>\<open>schedule\<close>: take the head of the ready list, which is the idle
  thread when nothing else is ready, and switch to it.\<close>

definition dispatch :: "'a sched_scheme \<Rightarrow> 'a sched_scheme kres" where
  "dispatch s =
     kbind (if thread_ready_list s = [] then thread_unblock (idle_thread s) s else Inr s) (\<lambda>s.
     case thread_ready_list s of
       [] \<Rightarrow> Inl (Assert_fail ''schedule'')
     | next_task # rest \<Rightarrow>
         kbind (get_task next_task s) (\<lambda>_.
         kbind (process_activate next_task
                 (upd_task next_task (\<lambda>t. t\<lparr>status := TASK_RUNNING\<rparr>) (s\<lparr>thread_ready_list := rest\<rparr>))) (\<lambda>s.
         Inr (s\<lparr>running := next_task\<rparr>))))"

definition schedule :: "'a sched_scheme \<Rightarrow> 'a sched_scheme kres" where
  "schedule s =
     kbind (kassert ''schedule'' (intr_get_status (flags s) = INTR_OFF)) (\<lambda>_.
     let cur = running s
     in kbind (get_task cur s) (\<lambda>t.
        if status t = TASK_RUNNING then
          kbind (kassert ''schedule'' (cur \<notin> set (thread_ready_list s))) (\<lambda>_.
          dispatch (upd_task cur (\<lambda>t. t\<lparr>ticks := ucast (priority t), status := TASK_READY\<rparr>)
                     (s\<lparr>thread_ready_list := thread_ready_list s @ [cur]\<rparr>)))
        else dispatch s))"

text \<open>
  \<^verbatim>\<open>thread_block\<close> and \<^verbatim>\<open>thread_yield\<close> up to the switch; when the caller is switched
  back to, \<open>intr_back\<close> with its saved status is all that is left to do.
\<close>

definition thread_block :: "task_status \<Rightarrow> 'a sched_scheme \<Rightarrow> 'a sched_scheme kres" where
  "thread_block stat s =
     kbind (kassert ''thread_block'' (stat = TASK_BLOCKED \<or> stat = TASK_WAITING \<or> stat = TASK_HANGING)) (\<lambda>_.
     let (old_status, s) = intr_off s
     in kbind (get_task (running s) s) (\<lambda>_.
        schedule (upd_task (running s) (\<lambda>t. t\<lparr>status := stat\<rparr>) s)))"

definition thread_yield :: "'a sched_scheme \<Rightarrow> 'a sched_scheme kres" where
  "thread_yield s =
     (let cur = running s; (old_status, s) = intr_off s
      in kbind (kassert ''thread_yield'' (cur \<notin> set (thread_ready_list s))) (\<lambda>_.
         kbind (get_task cur s) (\<lambda>_.
         schedule (upd_task cur (\<lambda>t. t\<lparr>status := TASK_READY\<rparr>)
                    (s\<lparr>thread_ready_list := thread_ready_list s @ [cur]\<rparr>)))))"

section \<open>The clock\<close>

definition intr_timer_handler :: "'a sched_scheme \<Rightarrow> 'a sched_scheme kres" where
  "intr_timer_handler s =
     (let cur = running s
      in kbind (get_task cur s) (\<lambda>t.
         kbind (kassert ''intr_timer_handler'' (stack_magic t = 0x19750130)) (\<lambda>_.
         let s = upd_task cur (\<lambda>t. t\<lparr>elapsed_ticks := elapsed_ticks t + 1\<rparr>) s;
             s = s\<lparr>timer_ticks := timer_ticks s + 1\<rparr>
         in if ticks t = 0 then schedule s
            else Inr (upd_task cur (\<lambda>t. t\<lparr>ticks := ticks t - 1\<rparr>) s))))"

text \<open>One test of the loop of \<^verbatim>\<open>ticks_to_sleep\<close>: done, or the thread yields.\<close>

definition ticks_to_sleep_step :: "u32 \<Rightarrow> u32 \<Rightarrow> 'a sched_scheme \<Rightarrow> (bool \<times> 'a sched_scheme) kres" where
  "ticks_to_sleep_step start_tick sleep_ticks s =
     (if timer_ticks s - start_tick < sleep_ticks then kbind (thread_yield s) (\<lambda>s. Inr (False, s))
      else Inr (True, s))"

definition mtime_sleep_ticks :: "u32 \<Rightarrow> u32 kres" where
  "mtime_sleep_ticks m_seconds =
     (let sleep_ticks = (m_seconds + 10 - 1) div 10
      in kbind (kassert ''mtime_sleep'' (sleep_ticks > 0)) (\<lambda>_. Inr sleep_ticks))"

text \<open>The three port writes that program counter 0.\<close>

definition frequency_set :: "u8 \<Rightarrow> u8 \<Rightarrow> u8 \<Rightarrow> u8 \<Rightarrow> u16 \<Rightarrow> (u16 \<times> u8) list" where
  "frequency_set counter_port counter_no rwl counter_mode counter_value =
     [(0x43, push_bit 6 counter_no OR push_bit 4 rwl OR push_bit 1 counter_mode),
      (ucast counter_port, ucast counter_value),
      (ucast counter_port, ucast (drop_bit 8 counter_value))]"

definition timer_init :: "handler list \<Rightarrow> ((u16 \<times> u8) list \<times> handler list) kres" where
  "timer_init tbl =
     kbind (register_handler 0x20 (Handler ''intr_timer_handler'') tbl) (\<lambda>tbl.
     Inr (frequency_set 0x40 0 3 2 (of_int (1193180 div 100)), tbl))"

section \<open>Invariant\<close>

text \<open>
  The address spaces: a set of directories that contains the kernel's and the current
  one, under each of which every process directory can be looked up.
\<close>

definition spaces_ok :: "'a sched_scheme \<Rightarrow> bool" where
  "spaces_ok s \<longleftrightarrow> (\<exists>D. cr3 s \<in> D \<and> 0x100000 \<in> D \<and>
     (\<forall>c\<in>D. \<forall>p t. tasks s p = Some t \<longrightarrow> pgdir t \<noteq> 0 \<longrightarrow> (\<exists>d\<in>D. addr_v2p (pgdir t) (s\<lparr>cr3 := c\<rparr>) = Inr d)))"

definition has_status :: "'a sched_scheme \<Rightarrow> u32 \<Rightarrow> task_status \<Rightarrow> bool" where
  "has_status s p st = (case tasks s p of None \<Rightarrow> False | Some t \<Rightarrow> status t = st)"

text \<open>The threads outside \<open>A\<close> that are neither running nor ready are the same in both states.\<close>

definition same_sleepers :: "u32 set \<Rightarrow> 'a sched_scheme \<Rightarrow> 'a sched_scheme \<Rightarrow> bool" where
  "same_sleepers A s s' \<longleftrightarrow> (\<forall>p st. st \<noteq> TASK_RUNNING \<longrightarrow> st \<noteq> TASK_READY \<longrightarrow> p \<notin> A \<longrightarrow>
     has_status s' p st = has_status s p st)"

text \<open>Everything but the running thread: the ready list is the set of ready threads.\<close>

definition queues_ok :: "'a sched_scheme \<Rightarrow> bool" where
  "queues_ok s \<longleftrightarrow> distinct (thread_ready_list s) \<and> 0 \<notin> dom (tasks s)
     \<and> (\<forall>p. p \<in> set (thread_ready_list s) \<longleftrightarrow> has_status s p TASK_READY)
     \<and> idle_thread s \<in> dom (tasks s) \<and> \<not> has_status s (idle_thread s) TASK_DIED
     \<and> spaces_ok s"

definition sched_inv :: "'a sched_scheme \<Rightarrow> bool" where
  "sched_inv s \<longleftrightarrow> queues_ok s \<and> (\<forall>p. has_status s p TASK_RUNNING \<longleftrightarrow> p = running s)"

lemma has_status_iff: "has_status s p st \<longleftrightarrow> (\<exists>t. tasks s p = Some t \<and> status t = st)"
  by (auto simp: has_status_def split: option.split)

lemma get_task_Some [simp]: "tasks s p = Some t \<Longrightarrow> get_task p s = Inr t"
  by (simp add: get_task_def)

lemma upd_task_sel [simp]:
  "tasks (upd_task p f s) = (tasks s)(p := map_option f (tasks s p))"
  "thread_ready_list (upd_task p f s) = thread_ready_list s" "running (upd_task p f s) = running s"
  "cr3 (upd_task p f s) = cr3 s" "pmem (upd_task p f s) = pmem s" "flags (upd_task p f s) = flags s"
  "idle_thread (upd_task p f s) = idle_thread s" "thread_all_list (upd_task p f s) = thread_all_list s"
  "timer_ticks (upd_task p f s) = timer_ticks s" "main_thread (upd_task p f s) = main_thread s"
  "tss_esp0 (upd_task p f s) = tss_esp0 s"
  by (simp_all add: upd_task_def)

lemma intr_off_sel [simp]:
  "tasks (snd (intr_off s)) = tasks s" "thread_ready_list (snd (intr_off s)) = thread_ready_list s"
  "running (snd (intr_off s)) = running s" "cr3 (snd (intr_off s)) = cr3 s" "pmem (snd (intr_off s)) = pmem s"
  "idle_thread (snd (intr_off s)) = idle_thread s" "intr_get_status (flags (snd (intr_off s))) = INTR_OFF"
  by (simp_all add: intr_off_def split_beta)

lemma intr_off_back [simp]: "intr_back (fst (intr_off s)) (snd (intr_off s)) = s"
  by (simp add: intr_off_def intr_back_def split_beta)

lemma spaces_okE:
  assumes "spaces_ok s"
  obtains D where "cr3 s \<in> D" "0x100000 \<in> D"
    "\<And>c p t. c \<in> D \<Longrightarrow> tasks s p = Some t \<Longrightarrow> pgdir t \<noteq> 0 \<Longrightarrow> \<exists>d\<in>D. addr_v2p (pgdir t) (s\<lparr>cr3 := c\<rparr>) = Inr d"
proof -
  from assms obtain D where "cr3 s \<in> D \<and> 0x100000 \<in> D \<and>
     (\<forall>c\<in>D. \<forall>p t. tasks s p = Some t \<longrightarrow> pgdir t \<noteq> 0 \<longrightarrow> (\<exists>d\<in>D. addr_v2p (pgdir t) (s\<lparr>cr3 := c\<rparr>) = Inr d))"
    unfolding spaces_ok_def by (rule exE)
  then show thesis by (intro that [of D]) simp_all
qed

text \<open>The directory lookup depends on the tables and on the tasks' directories only.\<close>

lemma spaces_ok_cong:
  assumes "cr3 s' = cr3 s" "pmem s' = pmem s"
    and "\<And>p t'. tasks s' p = Some t' \<Longrightarrow> \<exists>q t. tasks s q = Some t \<and> pgdir t = pgdir t'"
    and "spaces_ok s"
  shows "spaces_ok s'"
proof -
  have eq: "addr_v2p va (s'\<lparr>cr3 := c\<rparr>) = addr_v2p va (s\<lparr>cr3 := c\<rparr>)" for va c
    by (rule paging_cong) (simp_all add: assms)
  from assms(4) obtain D where D: "cr3 s \<in> D" "0x100000 \<in> D"
    "\<And>c p t. c \<in> D \<Longrightarrow> tasks s p = Some t \<Longrightarrow> pgdir t \<noteq> 0 \<Longrightarrow> \<exists>d\<in>D. addr_v2p (pgdir t) (s\<lparr>cr3 := c\<rparr>) = Inr d"
    by (rule spaces_okE) blast
  have "\<exists>d\<in>D. addr_v2p (pgdir t') (s'\<lparr>cr3 := c\<rparr>) = Inr d"
    if "c \<in> D" "tasks s' p = Some t'" "pgdir t' \<noteq> 0" for c p t'
    using assms(3) [OF that(2)] D(3) [OF that(1)] that(3) unfolding eq by metis
  then show ?thesis unfolding spaces_ok_def using D(1,2) assms(1) by metis
qed

lemma spaces_ok_switch:
  assumes "spaces_ok s" "tasks s p = Some t" "p \<noteq> 0"
  obtains c e where "process_activate p s = Inr (s\<lparr>cr3 := c, tss_esp0 := e\<rparr>)"
    "spaces_ok (s\<lparr>cr3 := c, tss_esp0 := e\<rparr>)" "e = (if pgdir t \<noteq> 0 then p + PG_SIZE else tss_esp0 s)"
proof -
  let ?e = "if pgdir t \<noteq> 0 then p + PG_SIZE else tss_esp0 s"
  from assms(1) obtain D where D: "cr3 s \<in> D" "0x100000 \<in> D"
    "\<And>c p t. c \<in> D \<Longrightarrow> tasks s p = Some t \<Longrightarrow> pgdir t \<noteq> 0 \<Longrightarrow> \<exists>d\<in>D. addr_v2p (pgdir t) (s\<lparr>cr3 := c\<rparr>) = Inr d"
    by (rule spaces_okE) blast
  obtain c where c: "c \<in> D" "(if pgdir t \<noteq> 0 then addr_v2p (pgdir t) s else Inr 0x100000) = Inr c"
    using D(3) [OF D(1) assms(2)] D(2) by (cases "pgdir t = 0") auto
  have eq: "addr_v2p va (s\<lparr>tss_esp0 := ?e, cr3 := c'\<rparr>) = addr_v2p va (s\<lparr>cr3 := c'\<rparr>)" for va c'
    by (rule paging_cong) simp_all
  have "spaces_ok (s\<lparr>cr3 := c, tss_esp0 := ?e\<rparr>)"
    unfolding spaces_ok_def using c(1) D(2,3) by (intro exI [of _ D]) (auto simp: eq)
  moreover have "process_activate p s = Inr (s\<lparr>cr3 := c, tss_esp0 := ?e\<rparr>)"
    using assms(2,3) c(2) by (simp add: process_activate_def page_dir_activate_def update_tss_esp_def get_task_def)
  ultimately show thesis using that by blast
qed

section \<open>Switching keeps the invariant\<close>

lemma has_status_upd [simp]:
  "has_status (upd_task p f s) q st \<longleftrightarrow>
     (if q = p then \<exists>t. tasks s p = Some t \<and> status (f t) = st else has_status s q st)"
  by (auto simp: has_status_iff)

lemma has_status_cong: "tasks s = tasks s' \<Longrightarrow> has_status s = has_status s'"
  by (simp add: has_status_iff fun_eq_iff)

lemma has_status_ready_list [simp]: "has_status (s\<lparr>thread_ready_list := r\<rparr>) = has_status s"
  by (rule has_status_cong) simp

lemma has_status_unique: "has_status s p st \<Longrightarrow> has_status s p st' \<Longrightarrow> st = st'"
  by (auto simp: has_status_iff)

lemma dom_upd_task [simp]: "dom (tasks (upd_task p f s)) = dom (tasks s)"
  by (auto split: if_splits)

lemma spaces_ok_upd_task:
  "spaces_ok s \<Longrightarrow> (\<And>t. pgdir (f t) = pgdir t) \<Longrightarrow> spaces_ok (upd_task p f s)"
  by (rule spaces_ok_cong [of _ s]) (auto split: if_splits, blast)

lemma spaces_ok_fields:
  "spaces_ok s \<Longrightarrow> spaces_ok (s\<lparr>thread_ready_list := r\<rparr>)" "spaces_ok s \<Longrightarrow> spaces_ok (s\<lparr>running := c\<rparr>)"
  "spaces_ok s \<Longrightarrow> spaces_ok (s\<lparr>flags := g\<rparr>)" "spaces_ok s \<Longrightarrow> spaces_ok (s\<lparr>timer_ticks := n\<rparr>)"
  by (rule spaces_ok_cong [of _ s]; auto)+

text \<open>Waking a sleeping thread puts it in front of the ready list.\<close>

lemma thread_unblock_spec:
  assumes "tasks s p = Some t" "status t \<in> {TASK_BLOCKED, TASK_WAITING, TASK_HANGING}" "queues_ok s"
  shows "thread_unblock p s =
      Inr (upd_task p (\<lambda>t. t\<lparr>status := TASK_READY\<rparr>) (s\<lparr>thread_ready_list := p # thread_ready_list s\<rparr>))"
    and "queues_ok (upd_task p (\<lambda>t. t\<lparr>status := TASK_READY\<rparr>) (s\<lparr>thread_ready_list := p # thread_ready_list s\<rparr>))"
proof -
  have np: "p \<notin> set (thread_ready_list s)" using assms by (auto simp: queues_ok_def has_status_iff)
  have restore: "intr_back (fst (intr_off s)) (upd_task p f (snd (intr_off s)\<lparr>thread_ready_list := r\<rparr>))
      = upd_task p f (s\<lparr>thread_ready_list := r\<rparr>)" for f r
    by (simp add: intr_off_def intr_back_def split_beta upd_task_def)
  show "thread_unblock p s =
      Inr (upd_task p (\<lambda>t. t\<lparr>status := TASK_READY\<rparr>) (s\<lparr>thread_ready_list := p # thread_ready_list s\<rparr>))"
    using assms(1,2) np by (auto simp: thread_unblock_def split_beta Let_def restore)
  show "queues_ok (upd_task p (\<lambda>t. t\<lparr>status := TASK_READY\<rparr>) (s\<lparr>thread_ready_list := p # thread_ready_list s\<rparr>))"
    (is "queues_ok ?s'")
  proof -
    have "q \<in> set (thread_ready_list ?s') \<longleftrightarrow> has_status ?s' q TASK_READY" for q
      using assms(1,3) by (simp add: queues_ok_def)
    moreover have "spaces_ok ?s'" using assms(3) by (simp add: queues_ok_def spaces_ok_upd_task spaces_ok_fields)
    moreover have "\<not> has_status ?s' (idle_thread ?s') TASK_DIED" using assms(3) by (simp add: queues_ok_def)
    ultimately show ?thesis using assms(3) np unfolding queues_ok_def dom_upd_task by simp
  qed
qed

lemma dispatch_spec:
  assumes q: "queues_ok s" and nr: "\<And>p. \<not> has_status s p TASK_RUNNING"
  obtains s' where "dispatch s = Inr s'" "sched_inv s'"
    "running s' # thread_ready_list s' = (if thread_ready_list s = [] then [idle_thread s] else thread_ready_list s)"
    "flags s' = flags s" "pmem s' = pmem s" "idle_thread s' = idle_thread s"
    "same_sleepers (if thread_ready_list s = [] then {idle_thread s} else {}) s s'"
proof -
  obtain s1 where s1: "(if thread_ready_list s = [] then thread_unblock (idle_thread s) s else Inr s) = Inr s1"
    "queues_ok s1" "\<And>p. \<not> has_status s1 p TASK_RUNNING"
    "thread_ready_list s1 = (if thread_ready_list s = [] then [idle_thread s] else thread_ready_list s)"
    "flags s1 = flags s" "pmem s1 = pmem s" "idle_thread s1 = idle_thread s"
    "same_sleepers (if thread_ready_list s = [] then {idle_thread s} else {}) s s1"
  proof (cases "thread_ready_list s = []")
    case True
    obtain t where t: "tasks s (idle_thread s) = Some t" using q by (auto simp: queues_ok_def)
    have "status t \<noteq> TASK_READY" "status t \<noteq> TASK_RUNNING" "status t \<noteq> TASK_DIED"
      using q nr t True by (auto simp: queues_ok_def has_status_iff)
    then have "status t \<in> {TASK_BLOCKED, TASK_WAITING, TASK_HANGING}" by (cases "status t") auto
    note U = thread_unblock_spec [OF t this q]
    let ?s1 = "upd_task (idle_thread s) (\<lambda>t. t\<lparr>status := TASK_READY\<rparr>) (s\<lparr>thread_ready_list := [idle_thread s]\<rparr>)"
    show thesis
    proof (rule that [of ?s1])
      show "\<not> has_status ?s1 p TASK_RUNNING" for p
        using nr [of p] by (auto simp: has_status_iff)
      show "same_sleepers (if thread_ready_list s = [] then {idle_thread s} else {}) s ?s1"
        using True by (simp add: same_sleepers_def)
    qed (use U True in simp_all)
  qed (use that q nr in \<open>simp add: same_sleepers_def\<close>)
  have "thread_ready_list s1 \<noteq> []" using s1(4) by (auto split: if_splits)
  then obtain n r where nrl: "thread_ready_list s1 = n # r" by (auto simp: neq_Nil_conv)
  obtain t where t: "tasks s1 n = Some t" "status t = TASK_READY" "n \<noteq> 0"
    using s1(2) nrl unfolding queues_ok_def has_status_iff dom_def by (metis (mono_tags, lifting) list.set_intros(1) mem_Collect_eq option.distinct(1))
  let ?s2 = "upd_task n (\<lambda>t. t\<lparr>status := TASK_RUNNING\<rparr>) (s1\<lparr>thread_ready_list := r\<rparr>)"
  have "spaces_ok ?s2" using s1(2) by (simp add: queues_ok_def spaces_ok_upd_task spaces_ok_fields)
  then obtain c e where
    P: "process_activate n ?s2 = Inr (?s2\<lparr>cr3 := c, tss_esp0 := e\<rparr>)" "spaces_ok (?s2\<lparr>cr3 := c, tss_esp0 := e\<rparr>)"
    by (rule spaces_ok_switch [of ?s2 n "t\<lparr>status := TASK_RUNNING\<rparr>"]) (use t in auto)
  let ?s3 = "?s2\<lparr>cr3 := c, tss_esp0 := e\<rparr>\<lparr>running := n\<rparr>"
  have D: "dispatch s = Inr ?s3" using s1(1) nrl t P(1) by (simp add: dispatch_def)
  have h: "has_status ?s3 = has_status ?s2" by (rule has_status_cong) simp
  have "spaces_ok ?s3" by (rule spaces_ok_fields(2) [OF P(2)])
  moreover have "idle_thread s1 \<in> dom (tasks s1)" using s1(2) by (simp add: queues_ok_def)
  ultimately have "sched_inv ?s3" using s1(2,3) nrl t unfolding sched_inv_def queues_ok_def h
    by (auto simp: dom_def)
  moreover have "same_sleepers (if thread_ready_list s = [] then {idle_thread s} else {}) s ?s3"
    unfolding same_sleepers_def
  proof (intro allI impI)
    fix p st
    assume st: "st \<noteq> TASK_RUNNING" "st \<noteq> TASK_READY" "p \<notin> (if thread_ready_list s = [] then {idle_thread s} else {})"
    then have "has_status s1 p st = has_status s p st" using s1(8) unfolding same_sleepers_def by blast
    moreover have "\<not> has_status s1 n st" using t st(2) by (auto simp: has_status_iff)
    ultimately show "has_status ?s3 p st = has_status s p st" unfolding h using t st(1) by auto
  qed
  ultimately show thesis using D that [of ?s3] s1(4-7) nrl by simp
qed

lemma sched_inv_running: "sched_inv s \<Longrightarrow> \<exists>t. tasks s (running s) = Some t \<and> status t = TASK_RUNNING"
  by (auto simp: sched_inv_def has_status_iff)

lemma sched_inv_not_ready: "sched_inv s \<Longrightarrow> running s \<notin> set (thread_ready_list s)"
  using has_status_unique [of s "running s" TASK_RUNNING TASK_READY] by (auto simp: sched_inv_def queues_ok_def)

text \<open>The running thread leaves the processor with a new status.\<close>

lemma leave_queues_ok:
  assumes "sched_inv s" "st \<noteq> TASK_RUNNING" "st \<noteq> TASK_DIED" "\<And>t. status (f t) = st \<and> pgdir (f t) = pgdir t"
  defines "r \<equiv> thread_ready_list s @ (if st = TASK_READY then [running s] else [])"
  shows "queues_ok (upd_task (running s) f (s\<lparr>thread_ready_list := r\<rparr>))"
    "\<not> has_status (upd_task (running s) f (s\<lparr>thread_ready_list := r\<rparr>)) p TASK_RUNNING"
proof -
  obtain t where t: "tasks s (running s) = Some t" "status t = TASK_RUNNING" using sched_inv_running [OF assms(1)] by blast
  have nin: "running s \<notin> set (thread_ready_list s)" using sched_inv_not_ready [OF assms(1)] .
  have sp: "spaces_ok (upd_task (running s) f (s\<lparr>thread_ready_list := r\<rparr>))"
    using assms(1,4) by (intro spaces_ok_upd_task spaces_ok_fields) (auto simp: sched_inv_def queues_ok_def)
  show "\<not> has_status (upd_task (running s) f (s\<lparr>thread_ready_list := r\<rparr>)) p TASK_RUNNING"
    using assms(1,2,4) by (auto simp: sched_inv_def)
  have rl: "p \<in> set r \<longleftrightarrow> has_status (upd_task (running s) f (s\<lparr>thread_ready_list := r\<rparr>)) p TASK_READY" for p
    using assms(1,4) t nin by (auto simp: r_def sched_inv_def queues_ok_def)
  have "distinct r" "0 \<notin> dom (tasks s)" "idle_thread s \<in> dom (tasks s)" "\<not> has_status s (idle_thread s) TASK_DIED"
    using assms(1) nin by (auto simp: r_def sched_inv_def queues_ok_def)
  with rl sp show "queues_ok (upd_task (running s) f (s\<lparr>thread_ready_list := r\<rparr>))"
    unfolding queues_ok_def dom_upd_task using assms(3,4) by auto
qed

text \<open>A preempted thread goes to the end of the ready list; the head runs.\<close>

lemma schedule_preempt:
  assumes "sched_inv s" "intr_get_status (flags s) = INTR_OFF"
  obtains s' where "schedule s = Inr s'" "sched_inv s'"
    "running s' # thread_ready_list s' = thread_ready_list s @ [running s]" "flags s' = flags s" "pmem s' = pmem s"
    "idle_thread s' = idle_thread s"
    "same_sleepers {} s s'"
proof -
  obtain t where t: "tasks s (running s) = Some t" "status t = TASK_RUNNING" using sched_inv_running [OF assms(1)] by blast
  let ?s1 = "upd_task (running s) (\<lambda>t. t\<lparr>ticks := ucast (priority t), status := TASK_READY\<rparr>)
                     (s\<lparr>thread_ready_list := thread_ready_list s @ [running s]\<rparr>)"
  have "queues_ok ?s1" "\<not> has_status ?s1 p TASK_RUNNING" for p
    using leave_queues_ok [OF assms(1), of TASK_READY "\<lambda>t. t\<lparr>ticks := ucast (priority t), status := TASK_READY\<rparr>"] by auto
  then obtain s' where "dispatch ?s1 = Inr s'" "sched_inv s'"
    "running s' # thread_ready_list s' = (if thread_ready_list ?s1 = [] then [idle_thread ?s1] else thread_ready_list ?s1)"
    "flags s' = flags ?s1" "pmem s' = pmem ?s1" "idle_thread s' = idle_thread ?s1"
    "same_sleepers (if thread_ready_list ?s1 = [] then {idle_thread ?s1} else {}) ?s1 s'"
    by (rule dispatch_spec)
  moreover from this(7) have "same_sleepers {} s s'" using t
    by (auto simp: same_sleepers_def has_status_iff)
  ultimately show thesis using that [of s'] t assms sched_inv_not_ready [OF assms(1)] by (simp add: schedule_def)
qed

text \<open>A thread that blocks is in no queue of the scheduler; the head of the ready list runs, or
  the idle thread.\<close>

lemma thread_block_spec:
  assumes "sched_inv s" "st \<in> {TASK_BLOCKED, TASK_WAITING, TASK_HANGING}"
  obtains s' where "thread_block st s = Inr s'" "sched_inv s'" "intr_get_status (flags s') = INTR_OFF" "pmem s' = pmem s"
    "running s' # thread_ready_list s' = (if thread_ready_list s = [] then [idle_thread s] else thread_ready_list s)"
    "idle_thread s' = idle_thread s"
    "same_sleepers {running s, idle_thread s} s s'"
    "running s \<noteq> idle_thread s \<Longrightarrow> has_status s' (running s) st"
proof -
  let ?s0 = "snd (intr_off s)"
  have inv: "sched_inv ?s0"
  proof -
    have "has_status ?s0 = has_status s" by (rule has_status_cong) simp
    moreover have "spaces_ok s \<Longrightarrow> spaces_ok ?s0" by (rule spaces_ok_cong [of _ s]) auto
    ultimately show ?thesis using assms(1) by (simp add: sched_inv_def queues_ok_def)
  qed
  obtain t where t: "tasks s (running s) = Some t" "status t = TASK_RUNNING" using sched_inv_running [OF assms(1)] by blast
  let ?s1 = "upd_task (running s) (\<lambda>t. t\<lparr>status := st\<rparr>) ?s0"
  have same: "?s0\<lparr>thread_ready_list := thread_ready_list s\<rparr> = ?s0" by (simp add: intr_off_def split_beta)
  have ne: "st \<noteq> TASK_RUNNING" "st \<noteq> TASK_DIED" "st \<noteq> TASK_READY" using assms(2) by auto
  have "queues_ok ?s1" "\<not> has_status ?s1 p TASK_RUNNING" for p
    using leave_queues_ok [OF inv ne(1,2), of "\<lambda>t. t\<lparr>status := st\<rparr>"] ne(3) by (simp_all add: same)
  then obtain s' where "dispatch ?s1 = Inr s'" "sched_inv s'"
    "running s' # thread_ready_list s' = (if thread_ready_list ?s1 = [] then [idle_thread ?s1] else thread_ready_list ?s1)"
    "flags s' = flags ?s1" "pmem s' = pmem ?s1" "idle_thread s' = idle_thread ?s1"
    "same_sleepers (if thread_ready_list ?s1 = [] then {idle_thread ?s1} else {}) ?s1 s'"
    by (rule dispatch_spec)
  moreover have "has_status ?s0 = has_status s" by (rule has_status_cong) simp
  moreover have "thread_block st s = dispatch ?s1"
    using t assms(2) ne by (auto simp: thread_block_def split_beta Let_def schedule_def get_task_def)
  moreover have "same_sleepers {running s, idle_thread s} s s'"
    using calculation(7,8) by (auto simp: same_sleepers_def split: if_splits)
  moreover have "has_status s' (running s) st" if "running s \<noteq> idle_thread s"
    using calculation(7) ne that t by (auto simp: same_sleepers_def)
  ultimately show thesis using that [of s'] by simp
qed

lemma intr_off_inv: "sched_inv s \<Longrightarrow> sched_inv (snd (intr_off s))"
proof -
  assume inv: "sched_inv s"
  have "has_status (snd (intr_off s)) = has_status s" by (rule has_status_cong) simp
  moreover have "spaces_ok s \<Longrightarrow> spaces_ok (snd (intr_off s))" by (rule spaces_ok_cong [of _ s]) auto
  ultimately show ?thesis using inv by (simp add: sched_inv_def queues_ok_def)
qed

lemma thread_yield_spec:
  assumes "sched_inv s"
  obtains s' where "thread_yield s = Inr s'" "sched_inv s'" "intr_get_status (flags s') = INTR_OFF" "pmem s' = pmem s"
    "running s' # thread_ready_list s' = thread_ready_list s @ [running s]"
proof -
  let ?s0 = "snd (intr_off s)"
  have inv: "sched_inv ?s0" by (rule intr_off_inv [OF assms])
  obtain t where t: "tasks s (running s) = Some t" "status t = TASK_RUNNING" using sched_inv_running [OF assms] by blast
  let ?s1 = "upd_task (running s) (\<lambda>t. t\<lparr>status := TASK_READY\<rparr>) (?s0\<lparr>thread_ready_list := thread_ready_list s @ [running s]\<rparr>)"
  have "queues_ok ?s1" "\<not> has_status ?s1 p TASK_RUNNING" for p
    using leave_queues_ok [OF inv, of TASK_READY "\<lambda>t. t\<lparr>status := TASK_READY\<rparr>"] by auto
  then obtain s' where "dispatch ?s1 = Inr s'" "sched_inv s'"
    "running s' # thread_ready_list s' = (if thread_ready_list ?s1 = [] then [idle_thread ?s1] else thread_ready_list ?s1)"
    "flags s' = flags ?s1" "pmem s' = pmem ?s1" by (rule dispatch_spec)
  with that [of s'] t sched_inv_not_ready [OF assms] show thesis
    by (simp add: thread_yield_def split_beta Let_def schedule_def get_task_def)
qed

section \<open>Sequences of clock interrupts\<close>

fun preempt_n :: "nat \<Rightarrow> 'a sched_scheme \<Rightarrow> 'a sched_scheme kres" where
  "preempt_n 0 s = Inr s"
| "preempt_n (Suc n) s = kbind (schedule s) (preempt_n n)"

lemma preempt_n_rotates:
  assumes "sched_inv s" "intr_get_status (flags s) = INTR_OFF"
  shows "\<exists>s'. preempt_n n s = Inr s' \<and> sched_inv s'
    \<and> running s' # thread_ready_list s' = rotate n (running s # thread_ready_list s)"
  using assms
proof (induction n arbitrary: s)
  case 0
  then show ?case by simp
next
  case (Suc n)
  obtain s1 where s1: "schedule s = Inr s1" "sched_inv s1"
    "running s1 # thread_ready_list s1 = thread_ready_list s @ [running s]" "flags s1 = flags s"
    by (rule schedule_preempt [OF Suc.prems])
  from Suc.IH [OF s1(2)] s1(4) Suc.prems(2) obtain s' where
    "preempt_n n s1 = Inr s'" "sched_inv s'"
    "running s' # thread_ready_list s' = rotate n (running s1 # thread_ready_list s1)" by auto
  with s1 show ?case by (simp add: rotate1_rotate_swap rotate_def funpow_swap1)
qed

fun timer_n :: "nat \<Rightarrow> 'a sched_scheme \<Rightarrow> 'a sched_scheme kres" where
  "timer_n 0 s = Inr s"
| "timer_n (Suc n) s = kbind (intr_timer_handler s) (timer_n n)"

lemma timer_count_down:
  assumes "tasks s (running s) = Some t" "stack_magic t = 0x19750130" "n \<le> unat (ticks t)"
  shows "timer_n n s = Inr (upd_task (running s) (\<lambda>t. t\<lparr>elapsed_ticks := elapsed_ticks t + of_nat n, ticks := ticks t - of_nat n\<rparr>)
      (s\<lparr>timer_ticks := timer_ticks s + of_nat n\<rparr>))"
  using assms
proof (induction n arbitrary: s t)
  case 0
  then have "(tasks s)(running s := map_option (\<lambda>t. t) (tasks s (running s))) = tasks s" by auto
  then show ?case by (simp add: upd_task_def)
next
  case (Suc n)
  have nz: "ticks t \<noteq> 0" using Suc.prems(3) by auto
  let ?t = "t\<lparr>elapsed_ticks := elapsed_ticks t + 1, ticks := ticks t - 1\<rparr>"
  let ?s = "s\<lparr>tasks := (tasks s)(running s \<mapsto> ?t), timer_ticks := timer_ticks s + 1\<rparr>"
  have step: "intr_timer_handler s = Inr ?s"
    using Suc.prems nz by (simp add: intr_timer_handler_def Let_def upd_task_def)
  have "n \<le> unat (ticks ?t)" using Suc.prems(3) nz by (simp add: unat_minus_one)
  with Suc.IH [of ?s ?t] Suc.prems have "timer_n n ?s = Inr (upd_task (running ?s)
      (\<lambda>t. t\<lparr>elapsed_ticks := elapsed_ticks t + of_nat n, ticks := ticks t - of_nat n\<rparr>) (?s\<lparr>timer_ticks := timer_ticks ?s + of_nat n\<rparr>))"
    by simp
  with step Suc.prems(1) show ?case by (simp add: upd_task_def algebra_simps)
qed

lemma timer_n_Suc_right: "timer_n (Suc n) s = kbind (timer_n n s) intr_timer_handler"
proof (induction n arbitrary: s)
  case 0
  show ?case by (cases "intr_timer_handler s") simp_all
next
  case (Suc n)
  have "timer_n (Suc (Suc n)) s = kbind (intr_timer_handler s) (\<lambda>s. kbind (timer_n n s) intr_timer_handler)"
    unfolding timer_n.simps(2) [of "Suc n"] by (rule kbind_cong) (simp_all only: Suc)
  then show ?case by (simp add: kbind_assoc)
qed

lemma sched_inv_cong:
  assumes "has_status s' = has_status s" "thread_ready_list s' = thread_ready_list s" "dom (tasks s') = dom (tasks s)"
    "running s' = running s" "idle_thread s' = idle_thread s" "spaces_ok s \<Longrightarrow> spaces_ok s'"
  shows "sched_inv s \<Longrightarrow> sched_inv s'"
  using assms by (simp add: sched_inv_def queues_ok_def)

lemma sched_inv_upd_task:
  "sched_inv s \<Longrightarrow> (\<And>t. status (f t) = status t) \<Longrightarrow> (\<And>t. pgdir (f t) = pgdir t) \<Longrightarrow> sched_inv (upd_task p f s)"
  by (rule sched_inv_cong [of _ s]) (auto simp: has_status_iff fun_eq_iff spaces_ok_upd_task split: if_splits)

lemma sched_inv_timer: "sched_inv s \<Longrightarrow> sched_inv (s\<lparr>timer_ticks := n\<rparr>)"
  by (rule sched_inv_cong [of _ s]) (auto simp: has_status_iff fun_eq_iff spaces_ok_fields)

section \<open>Properties\<close>

text \<open>A kernel with three kernel threads: the first runs, the second is ready, the idle thread
  sleeps.\<close>

definition kthread :: "int \<Rightarrow> task_status \<Rightarrow> u8 \<Rightarrow> task_struct" where
  "kthread p st tk = \<lparr>self_kstack = 0, pid = p, status = st, tname = ''k'', priority = 8, ticks = tk, elapsed_ticks = 0,
     pgdir = 0, userprog_vaddr = \<lparr>vaddr_bitmap = \<lparr>btmp_bytes_len = 0, bits = []\<rparr>, vaddr_start = 0\<rparr>, u_block_desc = [],
     fd_table = [0, 1, 2, - 1, - 1, - 1, - 1, - 1], cwd_inode_nr = 0, parent_pid = - 1, exit_status = 0,
     stack_magic = 0x19750130\<rparr>"

definition three_threads :: sched where
  "three_threads = \<lparr>cr3 = 0x100000, pmem = \<lambda>_. 0, tss_esp0 = 0, flags = 0x2, timer_ticks = 0, running = 0x1000,
     tasks = [0x1000 \<mapsto> kthread 1 TASK_RUNNING 2, 0x2000 \<mapsto> kthread 2 TASK_READY 8, 0x3000 \<mapsto> kthread 3 TASK_BLOCKED 4],
     thread_ready_list = [0x2000], thread_all_list = [0x1000, 0x2000, 0x3000], main_thread = 0x1000, idle_thread = 0x3000\<rparr>"

lemma three_threads_inv: "sched_inv three_threads"
proof -
  have "spaces_ok three_threads"
    unfolding spaces_ok_def
    by (rule exI [of _ "{0x100000}"]) (auto simp: three_threads_def kthread_def split: if_splits)
  moreover have "has_status three_threads p st \<longleftrightarrow>
      p = 0x1000 \<and> st = TASK_RUNNING \<or> p = 0x2000 \<and> st = TASK_READY \<or> p = 0x3000 \<and> st = TASK_BLOCKED" for p st
    by (auto simp: has_status_iff three_threads_def kthread_def)
  ultimately show ?thesis
    by (simp add: sched_inv_def queues_ok_def) (auto simp: three_threads_def)
qed

lemma three_threads_intr: "intr_get_status (flags three_threads) = INTR_OFF"
  by (simp add: intr_get_status_def EFLAGS_IF_def three_threads_def)

text \<open>C14.  The scheduler keeps its invariant (one running thread, which is in no queue; the ready
  list holds each ready thread once and nothing else) and none of its assertions fails:
  when the running thread is preempted, blocks, or yields, a thread is switched to, and the
  thread that left is at the end of the ready list or, if it blocked, in no queue.\<close>

theorem scheduling_invariant:
  assumes "sched_inv s"
  shows "(intr_get_status (flags s) = INTR_OFF \<longrightarrow>
      (\<exists>s'. schedule s = Inr s' \<and> sched_inv s' \<and> running s' # thread_ready_list s' = thread_ready_list s @ [running s]))
    \<and> (\<exists>s'. thread_yield s = Inr s' \<and> sched_inv s' \<and> running s' # thread_ready_list s' = thread_ready_list s @ [running s])
    \<and> (\<forall>st\<in>{TASK_BLOCKED, TASK_WAITING, TASK_HANGING}. \<exists>s'. thread_block st s = Inr s' \<and> sched_inv s'
         \<and> running s' # thread_ready_list s' = (if thread_ready_list s = [] then [idle_thread s] else thread_ready_list s))"
proof (intro conjI ballI impI)
  show "\<exists>s'. schedule s = Inr s' \<and> sched_inv s' \<and> running s' # thread_ready_list s' = thread_ready_list s @ [running s]"
    if "intr_get_status (flags s) = INTR_OFF"
    using schedule_preempt [OF assms that] by blast
  show "\<exists>s'. thread_yield s = Inr s' \<and> sched_inv s' \<and> running s' # thread_ready_list s' = thread_ready_list s @ [running s]"
    using thread_yield_spec [OF assms] by blast
  show "\<exists>s'. thread_block st s = Inr s' \<and> sched_inv s'
         \<and> running s' # thread_ready_list s' = (if thread_ready_list s = [] then [idle_thread s] else thread_ready_list s)"
    if "st \<in> {TASK_BLOCKED, TASK_WAITING, TASK_HANGING}" for st
    using thread_block_spec [OF assms that] by blast
qed

theorem scheduling_invariant_witness:
  "\<exists>s'. thread_block TASK_BLOCKED three_threads = Inr s' \<and> sched_inv s' \<and> running s' = 0x2000"
  using scheduling_invariant [OF three_threads_inv] by (auto simp: three_threads_def)

text \<open>C15.  Round robin: while the threads only compute, \<open>n\<close> preemptions rotate the running thread
  and the ready list by \<open>n\<close> places; so every ready thread gets the processor after as many
  preemptions as its position says, and again after each full turn.\<close>

theorem round_robin_order:
  assumes "sched_inv s" "intr_get_status (flags s) = INTR_OFF"
  shows "\<exists>s'. preempt_n n s = Inr s' \<and> sched_inv s'
    \<and> running s' # thread_ready_list s' = rotate n (running s # thread_ready_list s)"
  using preempt_n_rotates [OF assms] .

theorem round_robin_order_witness:
  "\<exists>s'. preempt_n 3 three_threads = Inr s' \<and> running s' = 0x2000"
  using round_robin_order [OF three_threads_inv three_threads_intr, of 3]
  by (auto simp: three_threads_def rotate_def numeral_3_eq_3)

text \<open>C16.  The time slice: a thread that starts with \<open>n\<close> ticks left keeps the processor for \<open>n\<close>
  clock interrupts, each counted in its and in the global tick counter, and the next clock
  interrupt switches to the head of the ready list.\<close>

theorem time_slice:
  assumes "sched_inv s" "intr_get_status (flags s) = INTR_OFF"
    and "tasks s (running s) = Some t" "stack_magic t = 0x19750130"
  shows "(\<exists>s'. timer_n (unat (ticks t)) s = Inr s' \<and> running s' = running s
       \<and> timer_ticks s' = timer_ticks s + of_nat (unat (ticks t)))
    \<and> (\<exists>s'. timer_n (Suc (unat (ticks t))) s = Inr s' \<and> sched_inv s'
       \<and> running s' # thread_ready_list s' = thread_ready_list s @ [running s])"
proof -
  let ?n = "unat (ticks t)"
  note T = timer_count_down [OF assms(3,4), of ?n]
  let ?s1 = "upd_task (running s) (\<lambda>t. t\<lparr>elapsed_ticks := elapsed_ticks t + of_nat ?n, ticks := ticks t - of_nat ?n\<rparr>)
      (s\<lparr>timer_ticks := timer_ticks s + of_nat ?n\<rparr>)"
  let ?s2 = "(upd_task (running s) (\<lambda>t. t\<lparr>elapsed_ticks := elapsed_ticks t + 1\<rparr>) ?s1)\<lparr>timer_ticks := timer_ticks ?s1 + 1\<rparr>"
  have inv: "sched_inv ?s2" using assms(1) by (simp add: sched_inv_upd_task sched_inv_timer)
  obtain s' where s': "schedule ?s2 = Inr s'" "sched_inv s'"
    "running s' # thread_ready_list s' = thread_ready_list ?s2 @ [running ?s2]"
    by (rule schedule_preempt [OF inv]) (use assms(2) in simp)
  have "intr_timer_handler ?s1 = schedule ?s2"
    using assms(3,4) by (simp add: intr_timer_handler_def Let_def)
  then have "timer_n (Suc ?n) s = Inr s'" using T s'(1) by (simp add: timer_n_Suc_right del: timer_n.simps)
  with s' T show ?thesis by simp
qed

theorem time_slice_witness:
  "\<exists>s'. timer_n 3 three_threads = Inr s' \<and> running s' = 0x2000"
  using time_slice [OF three_threads_inv three_threads_intr, of "kthread 1 TASK_RUNNING 2"]
  by (auto simp: three_threads_def kthread_def numeral_3_eq_3)

end
