(* ===== verification/Sync.thy ===== *)
theory Sync
  imports Sched
begin

text \<open>
  \<^verbatim>\<open>thread/sync.c\<close>: binary semaphores and locks.

  A semaphore is a counter and a queue of waiting threads.  The loop of \<^verbatim>\<open>sema_down\<close>
  runs with interrupts off; one test of its condition is \<open>sema_down_test\<close>, which either
  takes the semaphore or puts the caller into the queue and blocks it.  After a wake-up
  the test is made again.  In sequential code (\<open>sema_down\<close>, \<open>lock_acquire\<close>) a caller
  that must wait ends as \<^const>\<open>Sleeps\<close>; the interleaving of several threads on one lock
  is the subject of \<open>lock_act\<close> below.
\<close>

section \<open>Operations\<close>

record semaphore =
  sema_value :: u8
  waiters :: "u32 list"

record lock =
  holder :: u32
  semaphore :: semaphore
  holder_repeat_nr :: u32

definition sema_init :: "u8 \<Rightarrow> semaphore" where
  "sema_init v = \<lparr>sema_value = v, waiters = []\<rparr>"

definition lock_init :: lock where
  "lock_init = \<lparr>holder = 0, semaphore = sema_init 1, holder_repeat_nr = 0\<rparr>"

definition sema_down_test :: "semaphore \<Rightarrow> 'a sched_scheme \<Rightarrow> (bool \<times> semaphore \<times> 'a sched_scheme) kres" where
  "sema_down_test sem s =
     (if sema_value sem = 0 then
        kbind (kassert ''sema_down'' (running s \<notin> set (waiters sem))) (\<lambda>_.
        kbind (thread_block TASK_BLOCKED s) (\<lambda>s'.
        Inr (False, sem\<lparr>waiters := waiters sem @ [running s]\<rparr>, s')))
      else
        kbind (kassert ''sema_down'' (sema_value sem - 1 = 0)) (\<lambda>_.
        Inr (True, sem\<lparr>sema_value := sema_value sem - 1\<rparr>, s)))"

definition sema_down :: "semaphore \<Rightarrow> 'a sched_scheme \<Rightarrow> (semaphore \<times> 'a sched_scheme) kres" where
  "sema_down sem s =
     (let (old_status, s) = intr_off s
      in kbind (sema_down_test sem s) (\<lambda>(got, sem, s).
         if got then Inr (sem, intr_back old_status s) else Inl Sleeps))"

definition sema_up :: "semaphore \<Rightarrow> 'a sched_scheme \<Rightarrow> (semaphore \<times> 'a sched_scheme) kres" where
  "sema_up sem s =
     (let (old_status, s) = intr_off s
      in kbind (kassert ''sema_up'' (sema_value sem = 0)) (\<lambda>_.
         kbind (case waiters sem of
                  [] \<Rightarrow> Inr (sem, s)
                | thread_blocked # ws \<Rightarrow>
                    kbind (thread_unblock thread_blocked s) (\<lambda>s. Inr (sem\<lparr>waiters := ws\<rparr>, s))) (\<lambda>(sem, s).
         let sem = sem\<lparr>sema_value := sema_value sem + 1\<rparr>
         in kbind (kassert ''sema_up'' (sema_value sem = 1)) (\<lambda>_.
            Inr (sem, intr_back old_status s)))))"

definition lock_acquire :: "lock \<Rightarrow> 'a sched_scheme \<Rightarrow> (lock \<times> 'a sched_scheme) kres" where
  "lock_acquire plock s =
     (if holder plock \<noteq> running s then
        kbind (sema_down (semaphore plock) s) (\<lambda>(sem, s).
          let plock = plock\<lparr>semaphore := sem, holder := running s\<rparr>
          in kbind (kassert ''lock_acquire'' (holder_repeat_nr plock = 0)) (\<lambda>_.
             Inr (plock\<lparr>holder_repeat_nr := 1\<rparr>, s)))
      else Inr (plock\<lparr>holder_repeat_nr := holder_repeat_nr plock + 1\<rparr>, s))"

definition lock_release :: "lock \<Rightarrow> 'a sched_scheme \<Rightarrow> (lock \<times> 'a sched_scheme) kres" where
  "lock_release plock s =
     kbind (kassert ''lock_release'' (holder plock = running s)) (\<lambda>_.
       if holder_repeat_nr plock > 1 then
         Inr (plock\<lparr>holder_repeat_nr := holder_repeat_nr plock - 1\<rparr>, s)
       else
         kbind (kassert ''lock_release'' (holder_repeat_nr plock = 1)) (\<lambda>_.
         let plock = plock\<lparr>holder := 0, holder_repeat_nr := 0\<rparr>
         in kbind (sema_up (semaphore plock) s) (\<lambda>(sem, s).
            Inr (plock\<lparr>semaphore := sem\<rparr>, s))))"

section \<open>Sequential use\<close>

definition lock_free :: "lock \<Rightarrow> bool" where
  "lock_free l \<longleftrightarrow> holder l = 0 \<and> holder_repeat_nr l = 0 \<and> semaphore l = \<lparr>sema_value = 1, waiters = []\<rparr>"

definition lock_held :: "u32 \<Rightarrow> nat \<Rightarrow> lock \<Rightarrow> bool" where
  "lock_held t n l \<longleftrightarrow> holder l = t \<and> holder_repeat_nr l = of_nat n \<and> 0 < n \<and> n < 2 ^ 32
     \<and> semaphore l = \<lparr>sema_value = 0, waiters = []\<rparr>"

lemma lock_init_free: "lock_free lock_init"
  by (simp add: lock_free_def lock_init_def sema_init_def)

lemma lock_acquire_free:
  assumes "lock_free l" "running s \<noteq> 0"
  obtains l' where "lock_acquire l s = Inr (l', s)" "lock_held (running s) 1 l'"
proof (rule that)
  let ?l = "l\<lparr>semaphore := \<lparr>sema_value = 0, waiters = []\<rparr>, holder := running s, holder_repeat_nr := 1\<rparr>"
  show "lock_held (running s) 1 ?l" by (simp add: lock_held_def)
  show "lock_acquire l s = Inr (?l, s)"
    using assms by (simp add: lock_acquire_def lock_free_def sema_down_def sema_down_test_def split_beta Let_def)
qed

lemma lock_release_held:
  assumes "lock_held (running s) 1 l"
  obtains l' where "lock_release l s = Inr (l', s)" "lock_free l'"
proof (rule that)
  let ?l = "l\<lparr>holder := 0, holder_repeat_nr := 0, semaphore := \<lparr>sema_value = 1, waiters = []\<rparr>\<rparr>"
  show "lock_free ?l" by (simp add: lock_free_def)
  show "lock_release l s = Inr (?l, s)"
    using assms by (simp add: lock_release_def lock_held_def sema_up_def split_beta Let_def)
qed

text \<open>Nesting: a lock acquired again by its holder is only given up by the matching release.\<close>

lemma lock_acquire_nested:
  assumes "lock_held (running s) n l" "Suc n < 2 ^ 32"
  obtains l' where "lock_acquire l s = Inr (l', s)" "lock_held (running s) (Suc n) l'"
proof (rule that)
  let ?l = "l\<lparr>holder_repeat_nr := holder_repeat_nr l + 1\<rparr>"
  show "lock_acquire l s = Inr (?l, s)" using assms(1) by (simp add: lock_acquire_def lock_held_def)
  show "lock_held (running s) (Suc n) ?l" using assms by (simp add: lock_held_def)
qed

lemma lock_release_nested:
  assumes "lock_held (running s) (Suc n) l" "0 < n"
  obtains l' where "lock_release l s = Inr (l', s)" "lock_held (running s) n l'"
proof (rule that)
  let ?l = "l\<lparr>holder_repeat_nr := holder_repeat_nr l - 1\<rparr>"
  have n: "Suc n < 2 ^ 32" using assms(1) by (simp add: lock_held_def)
  then have "(1 :: u32) < of_nat (Suc n)"
    using assms(2) by (simp add: word_less_nat_alt unat_of_nat take_bit_nat_eq_self del: of_nat_Suc)
  then show "lock_release l s = Inr (?l, s)"
    using assms(1) by (simp add: lock_release_def lock_held_def)
  show "lock_held (running s) n ?l" using assms n by (simp add: lock_held_def)
qed

section \<open>Several threads on one lock\<close>

text \<open>
  Where a thread is in the code of \<^verbatim>\<open>lock_acquire\<close> and \<^verbatim>\<open>lock_release\<close>: outside;
  in front of the test of the loop of \<^verbatim>\<open>sema_down\<close>; behind \<^verbatim>\<open>sema_down\<close>; behind the
  assignment of \<^verbatim>\<open>holder\<close>; in the critical section; in \<^verbatim>\<open>lock_release\<close> behind the
  first and behind the second assignment.
\<close>

datatype lock_pc = Outside | Testing | Downed | Holder_set | Inside | Holder_cleared | Count_cleared

record lock_conf =
  ksys :: sched
  klock :: lock
  pcs :: "u32 \<Rightarrow> lock_pc"

text \<open>
  The running thread executes its next atomic action, or the clock preempts it.  The code
  in the critical section and outside may block for another reason, and such a thread may
  be woken.  The idle thread takes no locks.  An action that is not possible at the place of
  the running thread is \<open>None\<close>; so is a nested acquisition that would overflow the count.
\<close>

datatype lock_action = Acquire | Proceed | Release | Preempt | Block_elsewhere | Wake u32

definition goto :: "u32 \<Rightarrow> lock_pc \<Rightarrow> lock_conf \<Rightarrow> lock_conf" where
  "goto t pc c = c\<lparr>pcs := (pcs c)(t := pc)\<rparr>"

definition lock_proceed :: "lock_conf \<Rightarrow> lock_conf kres option" where
  "lock_proceed c =
     (let s = ksys c; l = klock c; t = running s
      in case pcs c t of
        Outside \<Rightarrow> None
      | Testing \<Rightarrow> Some (kbind (sema_down_test (semaphore l) (snd (intr_off s))) (\<lambda>(got, sem, s').
            Inr (goto t (if got then Downed else Testing)
              (c\<lparr>ksys := (if got then s else s'), klock := l\<lparr>semaphore := sem\<rparr>\<rparr>))))
      | Downed \<Rightarrow> Some (Inr (goto t Holder_set (c\<lparr>klock := l\<lparr>holder := t\<rparr>\<rparr>)))
      | Holder_set \<Rightarrow> Some (kbind (kassert ''lock_acquire'' (holder_repeat_nr l = 0)) (\<lambda>_.
            Inr (goto t Inside (c\<lparr>klock := l\<lparr>holder_repeat_nr := 1\<rparr>\<rparr>))))
      | Inside \<Rightarrow> None
      | Holder_cleared \<Rightarrow> Some (Inr (goto t Count_cleared (c\<lparr>klock := l\<lparr>holder_repeat_nr := 0\<rparr>\<rparr>)))
      | Count_cleared \<Rightarrow> Some (kbind (sema_up (semaphore l) s) (\<lambda>(sem, s).
            Inr (goto t Outside (c\<lparr>ksys := s, klock := l\<lparr>semaphore := sem\<rparr>\<rparr>)))))"

definition lock_act :: "lock_action \<Rightarrow> lock_conf \<Rightarrow> lock_conf kres option" where
  "lock_act a c =
     (let s = ksys c; l = klock c; t = running s
      in case a of
        Acquire \<Rightarrow>
          (if (pcs c t = Outside \<or> pcs c t = Inside) \<and> t \<noteq> idle_thread s then
             if holder l \<noteq> t then Some (Inr (goto t Testing c))
             else if holder_repeat_nr l + 1 = 0 then None
             else Some (Inr (c\<lparr>klock := l\<lparr>holder_repeat_nr := holder_repeat_nr l + 1\<rparr>\<rparr>))
           else None)
      | Proceed \<Rightarrow> lock_proceed c
      | Release \<Rightarrow>
          (if pcs c t = Inside then
             Some (kbind (kassert ''lock_release'' (holder l = t)) (\<lambda>_.
               if holder_repeat_nr l > 1 then Inr (c\<lparr>klock := l\<lparr>holder_repeat_nr := holder_repeat_nr l - 1\<rparr>\<rparr>)
               else kbind (kassert ''lock_release'' (holder_repeat_nr l = 1)) (\<lambda>_.
                 Inr (goto t Holder_cleared (c\<lparr>klock := l\<lparr>holder := 0\<rparr>\<rparr>)))))
           else None)
      | Preempt \<Rightarrow> Some (kbind (schedule (snd (intr_off s))) (\<lambda>s. Inr (c\<lparr>ksys := s\<rparr>)))
      | Block_elsewhere \<Rightarrow>
          (if (pcs c t = Outside \<or> pcs c t = Inside)
           then Some (kbind (thread_block TASK_BLOCKED s) (\<lambda>s. Inr (c\<lparr>ksys := s\<rparr>))) else None)
      | Wake p \<Rightarrow>
          (if (pcs c p = Outside \<or> pcs c p = Inside) \<and> has_status s p TASK_BLOCKED
           then Some (kbind (thread_unblock p s) (\<lambda>s. Inr (c\<lparr>ksys := s\<rparr>))) else None))"

definition lock_start :: "sched \<Rightarrow> lock_conf" where
  "lock_start s = \<lparr>ksys = s, klock = lock_init, pcs = \<lambda>_. Outside\<rparr>"

inductive lock_reach :: "lock_conf \<Rightarrow> bool" where
  start: "sched_inv s \<Longrightarrow> lock_reach (lock_start s)"
| step: "lock_reach c \<Longrightarrow> lock_act a c = Some (Inr c') \<Longrightarrow> lock_reach c'"

section \<open>Invariant of a lock\<close>

definition runnable :: "'a sched_scheme \<Rightarrow> u32 \<Rightarrow> bool" where
  "runnable s t \<longleftrightarrow> t \<in> set (running s # thread_ready_list s)"

text \<open>A waiter is blocked in front of the test; a thread inside the lock code that is not in the
  queue can run.\<close>

definition wait_ok :: "'a sched_scheme \<Rightarrow> u32 list \<Rightarrow> (u32 \<Rightarrow> lock_pc) \<Rightarrow> bool" where
  "wait_ok s ws pc \<longleftrightarrow> distinct ws \<and> (\<forall>t\<in>set ws. pc t = Testing \<and> has_status s t TASK_BLOCKED)
     \<and> (\<forall>t. pc t \<noteq> Outside \<longrightarrow> pc t \<noteq> Inside \<longrightarrow> t \<notin> set ws \<longrightarrow> runnable s t)
     \<and> pc (idle_thread s) = Outside"

text \<open>What the fields of the lock are, by the place of its owner.\<close>

definition owner_fields :: "lock_pc \<Rightarrow> u32 \<Rightarrow> lock \<Rightarrow> bool" where
  "owner_fields pc ow l = (case pc of
       Outside \<Rightarrow> False
     | Testing \<Rightarrow> False
     | Downed \<Rightarrow> holder l = 0 \<and> holder_repeat_nr l = 0
     | Holder_set \<Rightarrow> holder l = ow \<and> holder_repeat_nr l = 0
     | Inside \<Rightarrow> holder l = ow \<and> holder_repeat_nr l \<noteq> 0
     | Holder_cleared \<Rightarrow> holder l = 0 \<and> holder_repeat_nr l = 1
     | Count_cleared \<Rightarrow> holder l = 0 \<and> holder_repeat_nr l = 0)"

definition unowned :: "lock \<Rightarrow> (u32 \<Rightarrow> lock_pc) \<Rightarrow> bool" where
  "unowned l pc \<longleftrightarrow> (\<forall>t. pc t = Outside \<or> pc t = Testing) \<and> sema_value (semaphore l) = 1 \<and> holder l = 0
     \<and> holder_repeat_nr l = 0
     \<and> (waiters (semaphore l) \<noteq> [] \<longrightarrow> (\<exists>t. pc t = Testing \<and> t \<notin> set (waiters (semaphore l))))"

definition owned :: "u32 \<Rightarrow> lock \<Rightarrow> (u32 \<Rightarrow> lock_pc) \<Rightarrow> bool" where
  "owned ow l pc \<longleftrightarrow> (\<forall>t. t \<noteq> ow \<longrightarrow> pc t = Outside \<or> pc t = Testing) \<and> sema_value (semaphore l) = 0
     \<and> owner_fields (pc ow) ow l"

definition lock_inv :: "lock_conf \<Rightarrow> bool" where
  "lock_inv c \<longleftrightarrow> sched_inv (ksys c) \<and> wait_ok (ksys c) (waiters (semaphore (klock c))) (pcs c)
     \<and> (unowned (klock c) (pcs c) \<or> (\<exists>ow. owned ow (klock c) (pcs c)))"

lemma sched_inv_runnable: "sched_inv s \<Longrightarrow> has_status s t TASK_BLOCKED \<Longrightarrow> \<not> runnable s t"
  unfolding runnable_def sched_inv_def queues_ok_def
  using has_status_unique [of s t TASK_BLOCKED TASK_RUNNING] has_status_unique [of s t TASK_BLOCKED TASK_READY]
  by auto

lemma sched_inv_running_nz: "sched_inv s \<Longrightarrow> running s \<noteq> 0"
  using sched_inv_running [of s] by (auto simp: sched_inv_def queues_ok_def dom_def)

text \<open>A change of the scheduler's state only.\<close>

lemma lock_inv_sched:
  assumes "lock_inv c" "sched_inv s'" "idle_thread s' = idle_thread (ksys c)"
    and "\<And>t. t \<noteq> idle_thread s' \<Longrightarrow> pcs c t = Testing \<Longrightarrow> has_status (ksys c) t TASK_BLOCKED \<Longrightarrow> has_status s' t TASK_BLOCKED"
    and "\<And>t. pcs c t \<noteq> Outside \<Longrightarrow> pcs c t \<noteq> Inside \<Longrightarrow> runnable (ksys c) t \<Longrightarrow> runnable s' t"
  shows "lock_inv (c\<lparr>ksys := s'\<rparr>)"
proof -
  have "wait_ok s' (waiters (semaphore (klock c))) (pcs c)"
    unfolding wait_ok_def
  proof (intro conjI ballI allI impI)
    fix t assume t: "t \<in> set (waiters (semaphore (klock c)))"
    then have T: "pcs c t = Testing" "has_status (ksys c) t TASK_BLOCKED"
      using assms(1) by (auto simp: lock_inv_def wait_ok_def)
    moreover have "t \<noteq> idle_thread s'" using T(1) assms(1,3) by (auto simp: lock_inv_def wait_ok_def)
    ultimately show "pcs c t = Testing" "has_status s' t TASK_BLOCKED" using assms(4) by auto
  qed (use assms(1,3,5) in \<open>auto simp: lock_inv_def wait_ok_def\<close>)
  with assms(1,2) show ?thesis by (simp add: lock_inv_def)
qed

lemma thread_unblock_inv:
  assumes "sched_inv s" "has_status s p TASK_BLOCKED"
  obtains s' where "thread_unblock p s = Inr s'" "sched_inv s'" "same_sleepers {p} s s'" "idle_thread s' = idle_thread s"
    "running s' = running s" "thread_ready_list s' = p # thread_ready_list s"
proof -
  obtain t where t: "tasks s p = Some t" "status t = TASK_BLOCKED" using assms(2) by (auto simp: has_status_iff)
  have q: "queues_ok s" using assms(1) by (simp add: sched_inv_def)
  let ?s = "upd_task p (\<lambda>t. t\<lparr>status := TASK_READY\<rparr>) (s\<lparr>thread_ready_list := p # thread_ready_list s\<rparr>)"
  have "thread_unblock p s = Inr ?s" "queues_ok ?s" using thread_unblock_spec [OF t(1) _ q] t(2) by auto
  moreover have "p \<noteq> running s"
    using sched_inv_runnable [OF assms] by (simp add: runnable_def)
  then have "has_status ?s q TASK_RUNNING \<longleftrightarrow> q = running ?s" for q
    using assms(1) by (auto simp: sched_inv_def)
  moreover have "same_sleepers {p} s ?s" by (simp add: same_sleepers_def)
  ultimately show thesis using that [of ?s] by (simp add: sched_inv_def)
qed

lemma lock_inv_simps: "sched_inv (ksys c) \<Longrightarrow> lock_inv c \<longleftrightarrow> wait_ok (ksys c) (waiters (semaphore (klock c))) (pcs c)
     \<and> (unowned (klock c) (pcs c) \<or> (\<exists>ow. owned ow (klock c) (pcs c)))"
  by (simp add: lock_inv_def)

lemma lock_owner:
  assumes "lock_inv c" "pcs c t \<noteq> Outside" "pcs c t \<noteq> Testing"
  shows "owned t (klock c) (pcs c)"
proof -
  have "\<not> unowned (klock c) (pcs c)" using assms(2,3) unfolding unowned_def by metis
  then obtain ow where ow: "owned ow (klock c) (pcs c)" using assms(1) by (auto simp: lock_inv_def)
  then have "ow = t" using assms(2,3) unfolding owned_def by metis
  with ow show ?thesis by simp
qed

lemma preempt_ok:
  assumes "lock_inv c"
  shows "\<exists>s'. schedule (snd (intr_off (ksys c))) = Inr s' \<and> lock_inv (c\<lparr>ksys := s'\<rparr>)"
proof -
  let ?s = "ksys c" and ?z = "snd (intr_off (ksys c))"
  have inv: "sched_inv ?s" using assms by (simp add: lock_inv_def)
  obtain s' where s': "schedule ?z = Inr s'" "sched_inv s'"
    "running s' # thread_ready_list s' = thread_ready_list ?z @ [running ?z]"
    "idle_thread s' = idle_thread ?z" "same_sleepers {} ?z s'"
    by (rule schedule_preempt [OF intr_off_inv [OF inv]]) simp_all
  have h: "has_status ?z = has_status ?s" by (rule has_status_cong) simp
  have "runnable s' t \<longleftrightarrow> runnable ?s t" for t
    unfolding runnable_def s'(3) by auto
  then have "lock_inv (c\<lparr>ksys := s'\<rparr>)"
    using s'(2,4,5) h by (intro lock_inv_sched [OF assms]) (auto simp: same_sleepers_def)
  with s'(1) show ?thesis by blast
qed

lemma block_elsewhere_ok:
  assumes "lock_inv c" "pcs c (running (ksys c)) = Outside \<or> pcs c (running (ksys c)) = Inside"
  shows "\<exists>s'. thread_block TASK_BLOCKED (ksys c) = Inr s' \<and> lock_inv (c\<lparr>ksys := s'\<rparr>)"
proof -
  let ?s = "ksys c"
  have inv: "sched_inv ?s" using assms(1) by (simp add: lock_inv_def)
  obtain s' where s': "thread_block TASK_BLOCKED ?s = Inr s'" "sched_inv s'"
    "running s' # thread_ready_list s' = (if thread_ready_list ?s = [] then [idle_thread ?s] else thread_ready_list ?s)"
    "idle_thread s' = idle_thread ?s" "same_sleepers {running ?s, idle_thread ?s} ?s s'"
    by (rule thread_block_spec [OF inv, of TASK_BLOCKED]) simp_all
  have "lock_inv (c\<lparr>ksys := s'\<rparr>)"
  proof (rule lock_inv_sched [OF assms(1) s'(2,4)])
    fix t
    show "has_status s' t TASK_BLOCKED" if "t \<noteq> idle_thread s'" "pcs c t = Testing" "has_status ?s t TASK_BLOCKED"
    proof -
      have "t \<noteq> running ?s" using that(2) assms(2) by auto
      with that(1,3) s'(4,5) show ?thesis by (auto simp: same_sleepers_def)
    qed
    show "runnable s' t" if "pcs c t \<noteq> Outside" "pcs c t \<noteq> Inside" "runnable ?s t"
    proof -
      have "t \<noteq> running ?s" using that(1,2) assms(2) by auto
      with that(3) have "t \<in> set (thread_ready_list ?s)" by (simp add: runnable_def)
      then show ?thesis unfolding runnable_def s'(3) by auto
    qed
  qed
  with s'(1) show ?thesis by blast
qed

lemma wake_ok:
  assumes "lock_inv c" "pcs c p = Outside \<or> pcs c p = Inside" "has_status (ksys c) p TASK_BLOCKED"
  shows "\<exists>s'. thread_unblock p (ksys c) = Inr s' \<and> lock_inv (c\<lparr>ksys := s'\<rparr>)"
proof -
  let ?s = "ksys c"
  have inv: "sched_inv ?s" using assms(1) by (simp add: lock_inv_def)
  obtain s' where s': "thread_unblock p ?s = Inr s'" "sched_inv s'" "same_sleepers {p} ?s s'"
    "idle_thread s' = idle_thread ?s" "running s' = running ?s" "thread_ready_list s' = p # thread_ready_list ?s"
    by (rule thread_unblock_inv [OF inv assms(3)])
  have "lock_inv (c\<lparr>ksys := s'\<rparr>)"
  proof (rule lock_inv_sched [OF assms(1) s'(2,4)])
    fix t
    show "has_status s' t TASK_BLOCKED" if "pcs c t = Testing" "has_status ?s t TASK_BLOCKED"
    proof -
      have "t \<noteq> p" using that(1) assms(2) by auto
      with that(2) s'(3) show ?thesis by (auto simp: same_sleepers_def)
    qed
  qed (use s'(5,6) in \<open>auto simp: runnable_def\<close>)
  with s'(1) show ?thesis by blast
qed

text \<open>Steps inside the lock code that leave the scheduler and the queue alone.\<close>

lemma owner_step:
  assumes "lock_inv c" "owned ow (klock c) (pcs c)" "runnable (ksys c) ow" "ow \<noteq> idle_thread (ksys c)"
    and "owner_fields pc' ow l'" "semaphore l' = semaphore (klock c)"
  shows "lock_inv (goto ow pc' (c\<lparr>klock := l'\<rparr>))"
proof -
  have "wait_ok (ksys c) (waiters (semaphore (klock c))) (pcs c)" using assms(1) by (simp add: lock_inv_def)
  moreover have "pcs c ow \<noteq> Testing" using assms(2) by (auto simp: owned_def owner_fields_def)
  ultimately have "wait_ok (ksys c) (waiters (semaphore l')) ((pcs c)(ow := pc'))"
    using assms(3,4,6) by (auto simp: wait_ok_def)
  moreover have "owned ow l' ((pcs c)(ow := pc'))"
    using assms(2,5,6) by (auto simp: owned_def)
  ultimately show ?thesis using assms(1) by (auto simp: lock_inv_def goto_def)
qed

lemma testing_unowned:
  assumes "lock_inv c" "pcs c (running (ksys c)) = Testing" "sema_value (semaphore (klock c)) \<noteq> 0"
  defines "t \<equiv> running (ksys c)" and "l \<equiv> klock c"
  shows "sema_down_test (semaphore l) s = Inr (True, (semaphore l)\<lparr>sema_value := 0\<rparr>, s)"
    and "lock_inv (goto t Downed (c\<lparr>klock := l\<lparr>semaphore := (semaphore l)\<lparr>sema_value := 0\<rparr>\<rparr>\<rparr>))"
proof -
  have u: "unowned l (pcs c)" using assms(1,3) by (auto simp: lock_inv_def owned_def l_def)
  then show "sema_down_test (semaphore l) s = Inr (True, (semaphore l)\<lparr>sema_value := 0\<rparr>, s)"
    by (simp add: sema_down_test_def unowned_def)
  have inv: "sched_inv (ksys c)" and w: "wait_ok (ksys c) (waiters (semaphore l)) (pcs c)"
    using assms(1) by (auto simp: lock_inv_def l_def)
  have "\<not> has_status (ksys c) t TASK_BLOCKED"
    using sched_inv_runnable [OF inv, of t] by (auto simp: runnable_def t_def)
  then have "t \<notin> set (waiters (semaphore l))" using w by (auto simp: wait_ok_def)
  then have "wait_ok (ksys c) (waiters (semaphore l)) ((pcs c)(t := Downed))"
    using w assms(2) by (auto simp: wait_ok_def t_def runnable_def)
  moreover have "owned t (l\<lparr>semaphore := (semaphore l)\<lparr>sema_value := 0\<rparr>\<rparr>) ((pcs c)(t := Downed))"
    using u by (auto simp: owned_def unowned_def owner_fields_def)
  ultimately show "lock_inv (goto t Downed (c\<lparr>klock := l\<lparr>semaphore := (semaphore l)\<lparr>sema_value := 0\<rparr>\<rparr>\<rparr>))"
    using inv by (auto simp: lock_inv_def goto_def)
qed

lemma testing_owned:
  assumes "lock_inv c" "pcs c (running (ksys c)) = Testing" "sema_value (semaphore (klock c)) = 0"
  defines "t \<equiv> running (ksys c)" and "l \<equiv> klock c"
  shows "\<exists>s'. sema_down_test (semaphore l) (snd (intr_off (ksys c)))
       = Inr (False, (semaphore l)\<lparr>waiters := waiters (semaphore l) @ [t]\<rparr>, s')
     \<and> lock_inv (goto t Testing (c\<lparr>ksys := s', klock := l\<lparr>semaphore := (semaphore l)\<lparr>waiters := waiters (semaphore l) @ [t]\<rparr>\<rparr>\<rparr>))"
proof -
  let ?z = "snd (intr_off (ksys c))" and ?ws = "waiters (semaphore l)"
  have inv: "sched_inv (ksys c)" and w: "wait_ok (ksys c) ?ws (pcs c)"
    using assms(1) by (auto simp: lock_inv_def l_def)
  have "\<not> has_status (ksys c) t TASK_BLOCKED"
    using sched_inv_runnable [OF inv, of t] by (auto simp: runnable_def t_def)
  then have nw: "t \<notin> set ?ws" using w by (auto simp: wait_ok_def)
  have ni: "t \<noteq> idle_thread (ksys c)" using w assms(2) by (auto simp: wait_ok_def t_def)
  have h: "has_status ?z = has_status (ksys c)" by (rule has_status_cong) simp
  obtain s' where s': "thread_block TASK_BLOCKED ?z = Inr s'" "sched_inv s'"
    "running s' # thread_ready_list s' = (if thread_ready_list ?z = [] then [idle_thread ?z] else thread_ready_list ?z)"
    "idle_thread s' = idle_thread ?z" "same_sleepers {running ?z, idle_thread ?z} ?z s'"
    "running ?z \<noteq> idle_thread ?z \<longrightarrow> has_status s' (running ?z) TASK_BLOCKED"
    by (rule thread_block_spec [OF intr_off_inv [OF inv], of TASK_BLOCKED]) auto
  have "wait_ok s' (?ws @ [t]) (pcs c)"
    unfolding wait_ok_def
  proof (intro conjI ballI allI impI)
    show "distinct (?ws @ [t])" using w nw by (auto simp: wait_ok_def)
    show "pcs c (idle_thread s') = Outside" using w s'(4) by (auto simp: wait_ok_def)
    fix u
    show "pcs c u = Testing" if "u \<in> set (?ws @ [t])" using w assms(2) that by (auto simp: wait_ok_def t_def)
    show "has_status s' u TASK_BLOCKED" if u: "u \<in> set (?ws @ [t])"
    proof (cases "u = t")
      case True
      then show ?thesis using s'(6) ni by (simp add: t_def)
    next
      case False
      then have "has_status (ksys c) u TASK_BLOCKED" "pcs c u = Testing" using u w by (auto simp: wait_ok_def)
      moreover from this(2) have "u \<noteq> idle_thread (ksys c)" using w by (auto simp: wait_ok_def)
      ultimately show ?thesis using s'(5) False by (auto simp: same_sleepers_def h t_def)
    qed
    show "runnable s' u" if "pcs c u \<noteq> Outside" "pcs c u \<noteq> Inside" "u \<notin> set (?ws @ [t])"
    proof -
      have "runnable (ksys c) u" "u \<noteq> t" using that w by (auto simp: wait_ok_def)
      then have "u \<in> set (thread_ready_list ?z)" by (simp add: runnable_def t_def)
      then show ?thesis unfolding runnable_def s'(3) by auto
    qed
  qed
  moreover have "(pcs c)(t := Testing) = pcs c" using assms(2) by (auto simp: t_def)
  moreover obtain ow where "owned ow l (pcs c)"
    using assms(1,3) by (auto simp: lock_inv_def unowned_def l_def)
  then have "owned ow (l\<lparr>semaphore := (semaphore l)\<lparr>waiters := ?ws @ [t]\<rparr>\<rparr>) (pcs c)"
    by (auto simp: owned_def owner_fields_def split: lock_pc.splits)
  ultimately have "lock_inv (goto t Testing (c\<lparr>ksys := s', klock := l\<lparr>semaphore := (semaphore l)\<lparr>waiters := ?ws @ [t]\<rparr>\<rparr>\<rparr>))"
    using s'(2) by (auto simp: lock_inv_def goto_def)
  moreover have "sema_down_test (semaphore l) ?z = Inr (False, (semaphore l)\<lparr>waiters := ?ws @ [t]\<rparr>, s')"
    using s'(1) nw assms(3) by (simp add: sema_down_test_def l_def t_def)
  ultimately show ?thesis by blast
qed

lemma intr_back_sel [simp]:
  "tasks (intr_back o' s) = tasks s" "thread_ready_list (intr_back o' s) = thread_ready_list s"
  "running (intr_back o' s) = running s" "idle_thread (intr_back o' s) = idle_thread s"
  "cr3 (intr_back o' s) = cr3 s" "pmem (intr_back o' s) = pmem s"
  by (simp_all add: intr_back_def)

lemma intr_back_inv: "sched_inv s \<Longrightarrow> sched_inv (intr_back o' s)"
proof (rule sched_inv_cong [of _ s])
  show "has_status (intr_back o' s) = has_status s" by (rule has_status_cong) simp
  show "spaces_ok s \<Longrightarrow> spaces_ok (intr_back o' s)" by (rule spaces_ok_cong [of _ s]) auto
qed simp_all

lemma count_cleared_ok:
  assumes "lock_inv c" "pcs c (running (ksys c)) = Count_cleared"
  defines "t \<equiv> running (ksys c)" and "l \<equiv> klock c"
  shows "\<exists>sem s'. sema_up (semaphore l) (ksys c) = Inr (sem, s') \<and> lock_inv (goto t Outside (c\<lparr>ksys := s', klock := l\<lparr>semaphore := sem\<rparr>\<rparr>))"
proof -
  let ?ws = "waiters (semaphore l)" and ?z = "snd (intr_off (ksys c))" and ?old = "fst (intr_off (ksys c))"
  have inv: "sched_inv (ksys c)" and w: "wait_ok (ksys c) ?ws (pcs c)" using assms(1) by (auto simp: lock_inv_def l_def)
  have "owned t l (pcs c)" using lock_owner [OF assms(1), of t] assms(2) by (simp add: t_def l_def)
  then have f: "sema_value (semaphore l) = 0" "holder l = 0" "holder_repeat_nr l = 0"
    "\<And>u. u \<noteq> t \<Longrightarrow> pcs c u = Outside \<or> pcs c u = Testing"
    using assms(2) by (auto simp: owned_def owner_fields_def t_def)
  show ?thesis
  proof (cases ?ws)
    case Nil
    let ?sem = "(semaphore l)\<lparr>sema_value := 1\<rparr>"
    have "sema_up (semaphore l) (ksys c) = Inr (?sem, ksys c)"
      using f(1) Nil by (simp add: sema_up_def split_beta Let_def)
    moreover have "wait_ok (ksys c) ?ws ((pcs c)(t := Outside))" using w Nil by (auto simp: wait_ok_def)
    moreover have "unowned (l\<lparr>semaphore := ?sem\<rparr>) ((pcs c)(t := Outside))"
      using f Nil by (auto simp: unowned_def)
    ultimately show ?thesis using inv by (auto simp: lock_inv_def goto_def)
  next
    case (Cons u us)
    let ?sem = "(semaphore l)\<lparr>waiters := us, sema_value := 1\<rparr>"
    have u: "pcs c u = Testing" "has_status (ksys c) u TASK_BLOCKED" "u \<notin> set us" using w Cons by (auto simp: wait_ok_def)
    have h: "has_status ?z = has_status (ksys c)" by (rule has_status_cong) simp
    have "has_status ?z u TASK_BLOCKED" using u(2) h by simp
    then obtain s1 where s1: "thread_unblock u ?z = Inr s1" "sched_inv s1" "same_sleepers {u} ?z s1"
      "idle_thread s1 = idle_thread ?z" "running s1 = running ?z" "thread_ready_list s1 = u # thread_ready_list ?z"
      by (rule thread_unblock_inv [OF intr_off_inv [OF inv]])
    let ?s = "intr_back ?old s1"
    have up: "sema_up (semaphore l) (ksys c) = Inr (?sem, ?s)"
      using f(1) Cons s1(1) by (simp add: sema_up_def split_beta Let_def)
    have hs: "has_status ?s = has_status s1" by (rule has_status_cong) simp
    have "wait_ok ?s us ((pcs c)(t := Outside))"
      unfolding wait_ok_def
    proof (intro conjI ballI allI impI)
      show "distinct us" using w Cons by (simp add: wait_ok_def)
      show "((pcs c)(t := Outside)) (idle_thread ?s) = Outside" using w s1(4) by (simp add: wait_ok_def)
      fix v
      show "((pcs c)(t := Outside)) v = Testing" if "v \<in> set us"
        using w Cons that assms(2) by (auto simp: wait_ok_def t_def)
      show "has_status ?s v TASK_BLOCKED" if "v \<in> set us"
      proof -
        have "has_status (ksys c) v TASK_BLOCKED" "v \<noteq> u" using w Cons that u(3) by (auto simp: wait_ok_def)
        with s1(3) show ?thesis by (auto simp: hs h same_sleepers_def)
      qed
      show "runnable ?s v" if "((pcs c)(t := Outside)) v \<noteq> Outside" "((pcs c)(t := Outside)) v \<noteq> Inside" "v \<notin> set us"
        using that w Cons s1(5,6) by (auto simp: wait_ok_def runnable_def split: if_splits)
    qed
    moreover have "u \<noteq> t" using u(1) assms(2) by (auto simp: t_def)
    then have "unowned (l\<lparr>semaphore := ?sem\<rparr>) ((pcs c)(t := Outside))"
      using f(2-4) u by (auto simp: unowned_def)
    ultimately have "lock_inv (goto t Outside (c\<lparr>ksys := ?s, klock := l\<lparr>semaphore := ?sem\<rparr>\<rparr>))"
      using intr_back_inv [OF s1(2), of ?old] by (auto simp: lock_inv_def goto_def)
    with up show ?thesis by blast
  qed
qed

text \<open>Every possible action succeeds (no assertion fails) and keeps the invariant.\<close>

lemma lock_proceed_ok:
  assumes inv: "lock_inv c" and r: "lock_proceed c = Some r"
  shows "\<exists>c'. r = Inr c' \<and> lock_inv c'"
proof -
  let ?t = "running (ksys c)"
  have run: "runnable (ksys c) ?t" by (simp add: runnable_def)
  have ni: "pcs c ?t \<noteq> Outside \<Longrightarrow> ?t \<noteq> idle_thread (ksys c)"
    using inv by (auto simp: lock_inv_def wait_ok_def)
  show ?thesis
  proof (cases "pcs c ?t")
    case Testing
    show ?thesis
    proof (cases "sema_value (semaphore (klock c)) = 0")
      case True
      from testing_owned [OF inv Testing True] r Testing show ?thesis
        by (auto simp: lock_proceed_def Let_def)
    next
      case False
      have "sema_down_test (semaphore (klock c)) (snd (intr_off (ksys c)))
          = Inr (True, (semaphore (klock c))\<lparr>sema_value := 0\<rparr>, snd (intr_off (ksys c)))"
        by (rule testing_unowned(1) [OF inv Testing False])
      then show ?thesis using testing_unowned(2) [OF inv Testing False] r Testing
        by (auto simp: lock_proceed_def Let_def)
    qed
  next
    case Downed
    then have "owned ?t (klock c) (pcs c)" by (intro lock_owner [OF inv]) auto
    then show ?thesis using r Downed owner_step [OF inv _ run ni, of Holder_set]
      by (auto simp: lock_proceed_def Let_def owned_def owner_fields_def)
  next
    case Holder_set
    then have "owned ?t (klock c) (pcs c)" by (intro lock_owner [OF inv]) auto
    then show ?thesis using r Holder_set owner_step [OF inv _ run ni, of Inside]
      by (auto simp: lock_proceed_def Let_def owned_def owner_fields_def)
  next
    case Holder_cleared
    then have "owned ?t (klock c) (pcs c)" by (intro lock_owner [OF inv]) auto
    then show ?thesis using r Holder_cleared owner_step [OF inv _ run ni, of Count_cleared]
      by (auto simp: lock_proceed_def Let_def owned_def owner_fields_def)
  next
    case Count_cleared
    from count_cleared_ok [OF inv this] r Count_cleared show ?thesis
      by (auto simp: lock_proceed_def Let_def)
  qed (use r in \<open>auto simp: lock_proceed_def Let_def\<close>)
qed

lemma release_ok:
  assumes inv: "lock_inv c" and r: "lock_act Release c = Some r"
  shows "\<exists>c'. r = Inr c' \<and> lock_inv c'"
proof -
  let ?t = "running (ksys c)" and ?l = "klock c"
  have pc: "pcs c ?t = Inside" using r by (auto simp: lock_act_def Let_def split: if_splits)
  have own: "owned ?t ?l (pcs c)" by (rule lock_owner [OF inv]) (simp_all add: pc)
  then have f: "holder ?l = ?t" "holder_repeat_nr ?l \<noteq> 0" using pc by (simp_all add: owned_def owner_fields_def)
  have run: "runnable (ksys c) ?t" by (simp add: runnable_def)
  have ni: "?t \<noteq> idle_thread (ksys c)" using inv pc by (auto simp: lock_inv_def wait_ok_def)
  show ?thesis
  proof (cases "holder_repeat_nr ?l > 1")
    case True
    then have nz: "holder_repeat_nr ?l - 1 \<noteq> 0" by auto
    have "lock_inv (goto ?t Inside (c\<lparr>klock := ?l\<lparr>holder_repeat_nr := holder_repeat_nr ?l - 1\<rparr>\<rparr>))"
      using nz f by (intro owner_step [OF inv own run ni]) (simp_all add: owner_fields_def)
    moreover have "goto ?t Inside (c\<lparr>klock := l'\<rparr>) = c\<lparr>klock := l'\<rparr>" for l' using pc by (simp add: goto_def fun_upd_idem)
    ultimately show ?thesis using r pc f True by (auto simp: lock_act_def Let_def)
  next
    case False
    then have one: "holder_repeat_nr ?l = 1" using f(2) by (metis (mono_tags) linorder_neqE less_one unat_1 word_less_nat_alt unat_eq_zero)
    have "lock_inv (goto ?t Holder_cleared (c\<lparr>klock := ?l\<lparr>holder := 0\<rparr>\<rparr>))"
      using one by (intro owner_step [OF inv own run ni]) (simp_all add: owner_fields_def)
    then show ?thesis using r pc f(1) one by (auto simp: lock_act_def Let_def)
  qed
qed

lemma acquire_ok:
  assumes inv: "lock_inv c" and r: "lock_act Acquire c = Some r"
  shows "\<exists>c'. r = Inr c' \<and> lock_inv c'"
proof -
  let ?t = "running (ksys c)" and ?l = "klock c"
  have pc: "pcs c ?t = Outside \<or> pcs c ?t = Inside" and ni: "?t \<noteq> idle_thread (ksys c)"
    using r by (auto simp: lock_act_def Let_def split: if_splits)
  have run: "runnable (ksys c) ?t" by (simp add: runnable_def)
  have nz: "?t \<noteq> 0" using inv sched_inv_running_nz by (auto simp: lock_inv_def)
  from pc show ?thesis
  proof
    assume pc: "pcs c ?t = Inside"
    have own: "owned ?t ?l (pcs c)" by (rule lock_owner [OF inv]) (simp_all add: pc)
    then have f: "holder ?l = ?t" using pc by (simp add: owned_def owner_fields_def)
    then have ne: "holder_repeat_nr ?l + 1 \<noteq> 0" using r pc ni by (auto simp: lock_act_def Let_def split: if_splits)
    have "lock_inv (goto ?t Inside (c\<lparr>klock := ?l\<lparr>holder_repeat_nr := holder_repeat_nr ?l + 1\<rparr>\<rparr>))"
      using ne f by (intro owner_step [OF inv own run ni]) (simp_all add: owner_fields_def)
    moreover have "goto ?t Inside (c\<lparr>klock := l'\<rparr>) = c\<lparr>klock := l'\<rparr>" for l' using pc by (simp add: goto_def fun_upd_idem)
    ultimately show ?thesis using r pc ni f ne by (auto simp: lock_act_def Let_def)
  next
    assume pc: "pcs c ?t = Outside"
    have "holder ?l \<noteq> ?t"
    proof
      assume h: "holder ?l = ?t"
      then obtain ow where ow: "owned ow ?l (pcs c)" using inv nz by (auto simp: lock_inv_def unowned_def)
      then have "ow = ?t" using h nz by (auto simp: owned_def owner_fields_def split: lock_pc.splits)
      with ow pc show False by (simp add: owned_def owner_fields_def)
    qed
    moreover have "lock_inv (goto ?t Testing c)"
    proof -
      have "wait_ok (ksys c) (waiters (semaphore ?l)) ((pcs c)(?t := Testing))"
        using inv pc ni run by (auto simp: lock_inv_def wait_ok_def)
      moreover have "unowned ?l ((pcs c)(?t := Testing))" if "unowned ?l (pcs c)"
        using that by (auto simp: unowned_def) metis
      moreover have "owned ow ?l ((pcs c)(?t := Testing))" if "owned ow ?l (pcs c)" for ow
        using that pc by (auto simp: owned_def owner_fields_def)
      ultimately show ?thesis using inv by (auto simp: lock_inv_def goto_def)
    qed
    ultimately show ?thesis using r pc ni by (auto simp: lock_act_def Let_def)
  qed
qed

lemma lock_act_ok:
  assumes inv: "lock_inv c" and r: "lock_act a c = Some r"
  shows "\<exists>c'. r = Inr c' \<and> lock_inv c'"
proof (cases a)
  case Acquire
  then show ?thesis using acquire_ok [OF inv] r by simp
next
  case Proceed
  then show ?thesis using lock_proceed_ok [OF inv] r by (simp add: lock_act_def Let_def)
next
  case Release
  then show ?thesis using release_ok [OF inv] r by simp
next
  case Preempt
  then show ?thesis using preempt_ok [OF inv] r by (auto simp: lock_act_def Let_def)
next
  case Block_elsewhere
  then show ?thesis using block_elsewhere_ok [OF inv] r by (auto simp: lock_act_def Let_def split: if_splits)
next
  case (Wake p)
  then show ?thesis using wake_ok [OF inv, of p] r by (auto simp: lock_act_def Let_def split: if_splits)
qed

lemma lock_start_inv: "sched_inv s \<Longrightarrow> lock_inv (lock_start s)"
  by (simp add: lock_inv_def lock_start_def wait_ok_def unowned_def lock_init_def sema_init_def)

lemma lock_reach_inv: "lock_reach c \<Longrightarrow> lock_inv c"
proof (induction rule: lock_reach.induct)
  case (start s)
  then show ?case by (rule lock_start_inv)
next
  case (step c a c')
  then show ?case using lock_act_ok by fastforce
qed

text \<open>Run without interruption, the actions of an acquisition are \<^verbatim>\<open>lock_acquire\<close>.\<close>

fun run_acts :: "lock_action list \<Rightarrow> lock_conf \<Rightarrow> lock_conf kres option" where
  "run_acts [] c = Some (Inr c)"
| "run_acts (a # as) c = (case lock_act a c of Some (Inr c') \<Rightarrow> run_acts as c' | r \<Rightarrow> r)"

lemma run_acts_reach: "lock_reach c \<Longrightarrow> run_acts as c = Some (Inr c') \<Longrightarrow> lock_reach c'"
  by (induction as arbitrary: c) (auto split: option.splits sum.splits intro: lock_reach.step)

lemma acquire_acts:
  assumes "lock_acquire (klock c) (ksys c) = Inr (l', s')" "holder (klock c) \<noteq> running (ksys c)"
    and "pcs c (running (ksys c)) = Outside" "running (ksys c) \<noteq> idle_thread (ksys c)"
  shows "run_acts [Acquire, Proceed, Proceed, Proceed] c = Some (Inr (goto (running (ksys c)) Inside (c\<lparr>klock := l'\<rparr>)))
    \<and> s' = ksys c"
proof -
  let ?l = "klock c" and ?s = "ksys c"
  have v: "sema_value (semaphore ?l) \<noteq> 0"
    using assms(1,2) by (auto simp: lock_acquire_def sema_down_def sema_down_test_def split_beta Let_def kbind_eq_Inr)
  then show ?thesis
    using assms by (auto simp: lock_acquire_def sema_down_def sema_down_test_def split_beta Let_def
        lock_act_def lock_proceed_def goto_def)
qed

section \<open>Properties\<close>

text \<open>C17.  Mutual exclusion.  Whatever the interleaving of any number of threads that acquire and
  release a lock, are preempted, or block and are woken inside and outside of it: at most one
  of them is between a finished \<^verbatim>\<open>sema_down\<close> and the \<^verbatim>\<open>sema_up\<close> that ends its use
  of the lock, and the lock names the thread inside as its holder.\<close>

theorem lock_mutual_exclusion:
  assumes "lock_reach c" "pcs c t \<notin> {Outside, Testing}" "pcs c u \<notin> {Outside, Testing}"
  shows "t = u \<and> (pcs c t = Inside \<longrightarrow> holder (klock c) = t)"
proof -
  have inv: "lock_inv c" by (rule lock_reach_inv [OF assms(1)])
  have "owned t (klock c) (pcs c)" using lock_owner [OF inv, of t] assms(2) by simp
  then show ?thesis using assms(3) by (auto simp: owned_def owner_fields_def)
qed

lemma one_inside:
  "\<exists>c. lock_reach c \<and> pcs c 0x1000 = Inside \<and> running (ksys c) = 0x1000"
proof -
  have "lock_free lock_init" "running three_threads \<noteq> 0" by (auto simp: lock_init_free three_threads_def)
  then obtain l' where l': "lock_acquire lock_init three_threads = Inr (l', three_threads)" by (rule lock_acquire_free)
  let ?c = "lock_start three_threads"
  have "run_acts [Acquire, Proceed, Proceed, Proceed] ?c = Some (Inr (goto (running (ksys ?c)) Inside (?c\<lparr>klock := l'\<rparr>)))"
    using acquire_acts [of ?c l' three_threads] l' by (simp add: lock_start_def lock_init_def three_threads_def)
  from run_acts_reach [OF lock_reach.start [OF three_threads_inv] this]
  have "lock_reach (goto (running (ksys ?c)) Inside (?c\<lparr>klock := l'\<rparr>))" .
  then show ?thesis by (intro exI conjI) (auto simp: goto_def lock_start_def three_threads_def)
qed

theorem lock_mutual_exclusion_witness:
  "\<exists>c. lock_reach c \<and> pcs c 0x1000 = Inside \<and> holder (klock c) = 0x1000 \<and> (\<forall>u. pcs c u = Inside \<longrightarrow> u = 0x1000)"
proof -
  obtain c where c: "lock_reach c" "pcs c 0x1000 = Inside" using one_inside by blast
  have "u = 0x1000" if "pcs c u = Inside" for u
    using lock_mutual_exclusion [OF c(1), of "0x1000" u] c(2) that by simp
  moreover have "holder (klock c) = 0x1000" using lock_mutual_exclusion [OF c(1), of "0x1000" "0x1000"] c(2) by simp
  ultimately show ?thesis using c by blast
qed

text \<open>C18.  In every reachable state every possible action of the lock code succeeds: none of the
  assertions of \<^verbatim>\<open>sema_down\<close>, \<^verbatim>\<open>sema_up\<close>, \<^verbatim>\<open>lock_acquire\<close>, \<^verbatim>\<open>lock_release\<close>,
  \<^verbatim>\<open>thread_block\<close>, \<^verbatim>\<open>thread_unblock\<close> and \<^verbatim>\<open>schedule\<close> can fail through them.\<close>

theorem lock_never_fails:
  assumes "lock_reach c" "lock_act a c = Some r"
  shows "\<exists>c'. r = Inr c'"
  using lock_act_ok [OF lock_reach_inv [OF assms(1)] assms(2)] by blast

theorem lock_never_fails_witness:
  "\<exists>c c'. lock_reach c \<and> pcs c (running (ksys c)) = Inside \<and> lock_act Release c = Some (Inr c')"
proof -
  obtain c where c: "lock_reach c" "pcs c 0x1000 = Inside" "running (ksys c) = 0x1000" using one_inside by blast
  then obtain r where r: "lock_act Release c = Some r" by (auto simp: lock_act_def Let_def)
  from lock_never_fails [OF c(1) r] r c show ?thesis by auto
qed



fun acquire_n :: "nat \<Rightarrow> lock \<Rightarrow> 'a sched_scheme \<Rightarrow> (lock \<times> 'a sched_scheme) kres" where
  "acquire_n 0 l s = Inr (l, s)"
| "acquire_n (Suc n) l s = kbind (lock_acquire l s) (\<lambda>(l, s). acquire_n n l s)"

fun release_n :: "nat \<Rightarrow> lock \<Rightarrow> 'a sched_scheme \<Rightarrow> (lock \<times> 'a sched_scheme) kres" where
  "release_n 0 l s = Inr (l, s)"
| "release_n (Suc n) l s = kbind (lock_release l s) (\<lambda>(l, s). release_n n l s)"

lemma acquire_n_held:
  assumes "lock_held (running s) m l" "m + n < 2 ^ 32"
  shows "\<exists>l'. acquire_n n l s = Inr (l', s) \<and> lock_held (running s) (m + n) l'"
  using assms
proof (induction n arbitrary: l m)
  case (Suc n)
  obtain l1 where "lock_acquire l s = Inr (l1, s)" "lock_held (running s) (Suc m) l1"
    using lock_acquire_nested [OF Suc.prems(1)] Suc.prems(2) by auto
  with Suc.IH [of "Suc m" l1] Suc.prems(2) show ?case by simp
qed auto

lemma release_n_held:
  assumes "lock_held (running s) n l"
  shows "\<exists>l'. release_n n l s = Inr (l', s) \<and> lock_free l'"
  using assms
proof (induction n arbitrary: l)
  case 0
  then show ?case by (simp add: lock_held_def)
next
  case (Suc n)
  show ?case
  proof (cases "n = 0")
    case True
    then obtain l1 where "lock_release l s = Inr (l1, s)" "lock_free l1"
      using lock_release_held [of s l] Suc.prems by auto
    then show ?thesis by (simp add: True)
  next
    case False
    then obtain l1 where "lock_release l s = Inr (l1, s)" "lock_held (running s) n l1"
      using lock_release_nested [OF Suc.prems] by auto
    with Suc.IH [of l1] show ?thesis by simp
  qed
qed

text \<open>C20.  A lock can be taken again by its holder: after \<open>n\<close> acquisitions of a free lock (fewer
  than \<open>2 ^ 32\<close>), \<open>n\<close> releases make it free again, and not before; no other state of the
  system changes.\<close>

theorem lock_nesting:
  assumes "lock_free l" "running s \<noteq> 0" "0 < n" "n < 2 ^ 32"
  shows "\<exists>l'. acquire_n n l s = Inr (l', s) \<and> lock_held (running s) n l'
    \<and> (\<exists>l''. release_n n l' s = Inr (l'', s) \<and> lock_free l'')"
proof -
  obtain l1 where l1: "lock_acquire l s = Inr (l1, s)" "lock_held (running s) 1 l1"
    by (rule lock_acquire_free [OF assms(1,2)])
  obtain m where n: "n = Suc m" using assms(3) by (cases n) auto
  from acquire_n_held [OF l1(2), of m] obtain l' where "acquire_n m l1 s = Inr (l', s)" "lock_held (running s) n l'"
    using assms(4) n by auto
  with l1 release_n_held [of s n l'] show ?thesis by (auto simp: n)
qed

theorem lock_nesting_witness:
  "\<exists>l' l''. acquire_n 3 lock_init three_threads = Inr (l', three_threads) \<and> lock_held 0x1000 3 l'
     \<and> release_n 3 l' three_threads = Inr (l'', three_threads) \<and> lock_free l''"
  using lock_nesting [OF lock_init_free, of three_threads 3] by (auto simp: three_threads_def)

end
