(* ===== verification/Slot_Pool.thy ===== *)
theory Slot_Pool
  imports Kernel_Prelude
begin

text \<open>
  The contract that the kernel's bitmap-backed allocators share (physical frames, pids,
  inodes, disk blocks): an allocator hands out an identifier that is not in use, refuses
  by a failed assertion when all are in use, and takes identifiers back.  The client
  lemmas are proved once here; \<^verbatim>\<open>palloc\<close>, \<^verbatim>\<open>allocate_pid\<close>,
  \<^verbatim>\<open>inode_bitmap_alloc\<close> and \<^verbatim>\<open>block_bitmap_alloc\<close> are shown to meet the contract
  in the theories of their components.
\<close>

fun alloc_many :: "('s \<Rightarrow> ('r \<times> 's) kres) \<Rightarrow> nat \<Rightarrow> 's \<Rightarrow> ('r list \<times> 's) kres" where
  "alloc_many al 0 s = Inr ([], s)"
| "alloc_many al (Suc n) s =
     kbind (al s) (\<lambda>(r, s1). kbind (alloc_many al n s1) (\<lambda>(rs, s2). Inr (r # rs, s2)))"

locale slot_pool =
  fixes pinv :: "'s \<Rightarrow> bool"
    and all_ids :: "'s \<Rightarrow> 'r set"
    and used_ids :: "'s \<Rightarrow> 'r set"
    and alloc :: "'s \<Rightarrow> ('r \<times> 's) kres"
    and release :: "'r \<Rightarrow> 's \<Rightarrow> 's kres"
  assumes finite_ids: "pinv s \<Longrightarrow> finite (all_ids s)"
    and used_sub: "pinv s \<Longrightarrow> used_ids s \<subseteq> all_ids s"
    and alloc_fresh: "pinv s \<Longrightarrow> used_ids s \<noteq> all_ids s \<Longrightarrow>
      \<exists>r s'. alloc s = Inr (r, s') \<and> r \<in> all_ids s - used_ids s \<and> used_ids s' = insert r (used_ids s)
        \<and> all_ids s' = all_ids s \<and> pinv s'"
    and alloc_full: "pinv s \<Longrightarrow> used_ids s = all_ids s \<Longrightarrow> \<exists>e. alloc s = Inl e"
    and release_back: "pinv s \<Longrightarrow> r \<in> used_ids s \<Longrightarrow>
      \<exists>s'. release r s = Inr s' \<and> used_ids s' = used_ids s - {r} \<and> all_ids s' = all_ids s \<and> pinv s'"
begin

lemma alloc_Inr_fresh:
  assumes "pinv s" "alloc s = Inr (r, s')"
  shows "r \<in> all_ids s - used_ids s" "used_ids s' = insert r (used_ids s)" "all_ids s' = all_ids s" "pinv s'"
proof -
  have "used_ids s \<noteq> all_ids s" using alloc_full [OF assms(1)] assms(2) by auto
  from alloc_fresh [OF assms(1) this] assms(2)
  show "r \<in> all_ids s - used_ids s" "used_ids s' = insert r (used_ids s)" "all_ids s' = all_ids s" "pinv s'"
    by auto
qed

lemma alloc_release:
  assumes "pinv s" "alloc s = Inr (r, s')"
  shows "\<exists>s''. release r s' = Inr s'' \<and> used_ids s'' = used_ids s \<and> all_ids s'' = all_ids s \<and> pinv s''"
proof -
  note A = alloc_Inr_fresh [OF assms]
  have "r \<in> used_ids s'" using A(2) by simp
  from release_back [OF A(4) this] A(1-3) show ?thesis by auto
qed

lemma alloc_many_distinct:
  assumes "pinv s" "n \<le> card (all_ids s - used_ids s)"
  shows "\<exists>rs s'. alloc_many alloc n s = Inr (rs, s') \<and> length rs = n \<and> distinct rs
    \<and> set rs \<subseteq> all_ids s - used_ids s \<and> used_ids s' = used_ids s \<union> set rs \<and> all_ids s' = all_ids s \<and> pinv s'"
  using assms
proof (induction n arbitrary: s)
  case 0
  then show ?case by simp
next
  case (Suc n)
  have "used_ids s \<noteq> all_ids s" using Suc.prems(2) by auto
  from alloc_fresh [OF Suc.prems(1) this] obtain r s1 where
    r: "alloc s = Inr (r, s1)" "r \<in> all_ids s - used_ids s" "used_ids s1 = insert r (used_ids s)"
      "all_ids s1 = all_ids s" "pinv s1" by auto
  have "all_ids s1 - used_ids s1 = (all_ids s - used_ids s) - {r}" using r by auto
  then have "n \<le> card (all_ids s1 - used_ids s1)" using Suc.prems r(2) by simp
  from Suc.IH [OF r(5) this] obtain rs s2 where
    "alloc_many alloc n s1 = Inr (rs, s2)" "length rs = n" "distinct rs"
    "set rs \<subseteq> all_ids s1 - used_ids s1" "used_ids s2 = used_ids s1 \<union> set rs" "all_ids s2 = all_ids s1" "pinv s2"
    by auto
  with r show ?case by (intro exI [of _ "r # rs"] exI [of _ s2]) auto
qed

lemma alloc_many_exhausts:
  assumes "pinv s" "card (all_ids s - used_ids s) < n"
  shows "\<exists>e. alloc_many alloc n s = Inl e"
  using assms
proof (induction n arbitrary: s)
  case 0
  then show ?case by simp
next
  case (Suc n)
  show ?case
  proof (cases "used_ids s = all_ids s")
    case True
    with alloc_full [OF Suc.prems(1)] show ?thesis by auto
  next
    case False
    from alloc_fresh [OF Suc.prems(1) this] obtain r s1 where
      r: "alloc s = Inr (r, s1)" "r \<in> all_ids s - used_ids s" "used_ids s1 = insert r (used_ids s)"
        "all_ids s1 = all_ids s" "pinv s1" by auto
    have "all_ids s1 - used_ids s1 = (all_ids s - used_ids s) - {r}" using r by auto
    moreover have "finite (all_ids s - used_ids s)" using finite_ids [OF Suc.prems(1)] by simp
    ultimately have "card (all_ids s1 - used_ids s1) < n" using Suc.prems(2) r(2)
      by (metis Suc_less_eq card.remove)
    from Suc.IH [OF r(5) this] r(1) show ?thesis by auto
  qed
qed

end

end
