(* ===== verification/Memory.thy ===== *)
theory Memory
  imports Sync Slot_Pool
begin

text \<open>
  The page level of \<^verbatim>\<open>kernel/memory.c\<close>: the two pools of physical frames, the bitmaps
  of virtual pages, and the functions that allocate, map, unmap and free whole pages.

  The kernel state is extended by the globals of the file.  The bitmaps of the pools lie
  one behind the other in memory; each model bitmap carries the bytes from its own start
  on.  Page counts and bit indices are naturals; addresses and sizes are 32-bit words.
  A pool's lock is the lock of \<^verbatim>\<open>sync.c\<close>: code that would wait for it ends as
  \<^const>\<open>Sleeps\<close>.
\<close>

section \<open>Data\<close>

datatype pool_flags = PF_KERNEL | PF_USER

record pool =
  pool_bitmap :: bitmap
  phy_addr_start :: u32
  pool_size :: u32
  pool_lock :: lock

record kmem = sched +
  kernel_pool :: pool
  user_pool :: pool
  kernel_vaddr :: virtual_addr

definition K_HEAP_START :: u32 where "K_HEAP_START = 0xC0200000"

definition get_pool :: "pool_flags \<Rightarrow> 'a kmem_scheme \<Rightarrow> pool" where
  "get_pool pf s = (case pf of PF_KERNEL \<Rightarrow> kernel_pool s | PF_USER \<Rightarrow> user_pool s)"

definition put_pool :: "pool_flags \<Rightarrow> pool \<Rightarrow> 'a kmem_scheme \<Rightarrow> 'a kmem_scheme" where
  "put_pool pf p s = (case pf of PF_KERNEL \<Rightarrow> s\<lparr>kernel_pool := p\<rparr> | PF_USER \<Rightarrow> s\<lparr>user_pool := p\<rparr>)"

definition acquire_pool :: "pool_flags \<Rightarrow> 'a kmem_scheme \<Rightarrow> 'a kmem_scheme kres" where
  "acquire_pool pf s =
     kbind (lock_acquire (pool_lock (get_pool pf s)) s) (\<lambda>(l, s).
     Inr (put_pool pf ((get_pool pf s)\<lparr>pool_lock := l\<rparr>) s))"

definition release_pool :: "pool_flags \<Rightarrow> 'a kmem_scheme \<Rightarrow> 'a kmem_scheme kres" where
  "release_pool pf s =
     kbind (lock_release (pool_lock (get_pool pf s)) s) (\<lambda>(l, s).
     Inr (put_pool pf ((get_pool pf s)\<lparr>pool_lock := l\<rparr>) s))"

section \<open>Virtual pages\<close>

text \<open>The loops that set or clear \<open>n\<close> bits from \<open>start\<close> on.\<close>

fun set_run :: "bitmap \<Rightarrow> nat \<Rightarrow> nat \<Rightarrow> int \<Rightarrow> bitmap kres" where
  "set_run b start 0 v = Inr b"
| "set_run b start (Suc n) v = kbind (bitmap_set b start v) (\<lambda>b. set_run b (Suc start) n v)"

definition vaddr_get :: "pool_flags \<Rightarrow> nat \<Rightarrow> 'a kmem_scheme \<Rightarrow> (u32 \<times> 'a kmem_scheme) kres" where
  "vaddr_get pf pg_cnt s =
     (case pf of
        PF_KERNEL \<Rightarrow>
          kbind (bitmap_scan (vaddr_bitmap (kernel_vaddr s)) pg_cnt) (\<lambda>bit_idx_start.
          if bit_idx_start = - 1 then Inr (0, s)
          else kbind (set_run (vaddr_bitmap (kernel_vaddr s)) (nat bit_idx_start) pg_cnt 1) (\<lambda>b.
            Inr (vaddr_start (kernel_vaddr s) + of_int bit_idx_start * PG_SIZE,
                 s\<lparr>kernel_vaddr := (kernel_vaddr s)\<lparr>vaddr_bitmap := b\<rparr>\<rparr>)))
      | PF_USER \<Rightarrow>
          kbind (get_task (running s) s) (\<lambda>cur.
          kbind (bitmap_scan (vaddr_bitmap (userprog_vaddr cur)) pg_cnt) (\<lambda>bit_idx_start.
          if bit_idx_start = - 1 then Inr (0, s)
          else kbind (set_run (vaddr_bitmap (userprog_vaddr cur)) (nat bit_idx_start) pg_cnt 1) (\<lambda>b.
            let va = vaddr_start (userprog_vaddr cur) + of_int bit_idx_start * PG_SIZE
            in kbind (kassert ''vaddr_get'' (va < 0xC0000000 - PG_SIZE)) (\<lambda>_.
               Inr (va, upd_task (running s) (\<lambda>t. t\<lparr>userprog_vaddr := (userprog_vaddr t)\<lparr>vaddr_bitmap := b\<rparr>\<rparr>) s))))))"

definition vaddr_remove :: "pool_flags \<Rightarrow> u32 \<Rightarrow> nat \<Rightarrow> 'a kmem_scheme \<Rightarrow> 'a kmem_scheme kres" where
  "vaddr_remove pf va pg_cnt s =
     (case pf of
        PF_KERNEL \<Rightarrow>
          kbind (set_run (vaddr_bitmap (kernel_vaddr s)) (unat ((va - vaddr_start (kernel_vaddr s)) div PG_SIZE)) pg_cnt 0) (\<lambda>b.
          Inr (s\<lparr>kernel_vaddr := (kernel_vaddr s)\<lparr>vaddr_bitmap := b\<rparr>\<rparr>))
      | PF_USER \<Rightarrow>
          kbind (get_task (running s) s) (\<lambda>cur.
          kbind (set_run (vaddr_bitmap (userprog_vaddr cur)) (unat ((va - vaddr_start (userprog_vaddr cur)) div PG_SIZE)) pg_cnt 0) (\<lambda>b.
          Inr (upd_task (running s) (\<lambda>t. t\<lparr>userprog_vaddr := (userprog_vaddr t)\<lparr>vaddr_bitmap := b\<rparr>\<rparr>) s))))"

section \<open>Physical frames\<close>

definition palloc :: "pool_flags \<Rightarrow> 'a kmem_scheme \<Rightarrow> (u32 \<times> 'a kmem_scheme) kres" where
  "palloc pf s =
     (let m_pool = get_pool pf s
      in kbind (bitmap_scan (pool_bitmap m_pool) 1) (\<lambda>bit_idx.
         if bit_idx = - 1 then Inr (0, s)
         else kbind (bitmap_set (pool_bitmap m_pool) (nat bit_idx) 1) (\<lambda>b.
           Inr (of_int bit_idx * PG_SIZE + phy_addr_start m_pool, put_pool pf (m_pool\<lparr>pool_bitmap := b\<rparr>) s))))"

definition pfree :: "u32 \<Rightarrow> 'a kmem_scheme \<Rightarrow> 'a kmem_scheme kres" where
  "pfree pg_phy_addr s =
     (let pf = (if pg_phy_addr \<ge> phy_addr_start (user_pool s) then PF_USER else PF_KERNEL);
          mem_pool = get_pool pf s;
          bit_idx = (pg_phy_addr - phy_addr_start mem_pool) div PG_SIZE
      in kbind (bitmap_set (pool_bitmap mem_pool) (unat bit_idx) 0) (\<lambda>b.
         Inr (put_pool pf (mem_pool\<lparr>pool_bitmap := b\<rparr>) s)))"

text \<open>\<^verbatim>\<open>free_a_phy_page\<close> has the body of \<^verbatim>\<open>pfree\<close>.\<close>

definition free_a_phy_page :: "u32 \<Rightarrow> 'a kmem_scheme \<Rightarrow> 'a kmem_scheme kres" where
  "free_a_phy_page pg_phy_addr s =
     (let pf = (if pg_phy_addr \<ge> phy_addr_start (user_pool s) then PF_USER else PF_KERNEL);
          mem_pool = get_pool pf s;
          bit_idx = (pg_phy_addr - phy_addr_start mem_pool) div PG_SIZE
      in kbind (bitmap_set (pool_bitmap mem_pool) (unat bit_idx) 0) (\<lambda>b.
         Inr (put_pool pf (mem_pool\<lparr>pool_bitmap := b\<rparr>) s)))"

section \<open>Mapping\<close>

definition page_table_add :: "u32 \<Rightarrow> u32 \<Rightarrow> 'a kmem_scheme \<Rightarrow> 'a kmem_scheme kres" where
  "page_table_add vaddr page_phyaddr s =
     (let pde = pde_ptr vaddr; pte = pte_ptr vaddr
      in kbind (vread pde s) (\<lambda>pde_v.
         if pde_v AND 0x00000001 \<noteq> 0 then
           kbind (vread pte s) (\<lambda>pte_v.
           kbind (kassert ''page_table_add'' (pte_v AND 0x00000001 = 0)) (\<lambda>_.
           vwrite pte (page_phyaddr OR PG_US_U OR PG_RW_W OR PG_P_1) s))
         else
           kbind (palloc PF_KERNEL s) (\<lambda>(pde_phyaddr, s).
           kbind (vwrite pde (pde_phyaddr OR PG_US_U OR PG_RW_W OR PG_P_1) s) (\<lambda>s.
           kbind (memset_cells (pte AND 0xFFFFF000) 1024 s) (\<lambda>s.
           kbind (vread pte s) (\<lambda>pte_v.
           kbind (kassert ''page_table_add'' (pte_v AND 0x00000001 = 0)) (\<lambda>_.
           vwrite pte (page_phyaddr OR PG_US_U OR PG_RW_W OR PG_P_1) s)))))))"

text \<open>The loop of \<^verbatim>\<open>malloc_page\<close>; \<open>False\<close> is its early \<^verbatim>\<open>return NULL\<close>.\<close>

fun map_pages :: "pool_flags \<Rightarrow> u32 \<Rightarrow> nat \<Rightarrow> 'a kmem_scheme \<Rightarrow> (bool \<times> 'a kmem_scheme) kres" where
  "map_pages pf va 0 s = Inr (True, s)"
| "map_pages pf va (Suc cnt) s =
     kbind (palloc pf s) (\<lambda>(page_phyaddr, s).
       if page_phyaddr = 0 then Inr (False, s)
       else kbind (page_table_add va page_phyaddr s) (\<lambda>s. map_pages pf (va + PG_SIZE) cnt s))"

definition malloc_page :: "pool_flags \<Rightarrow> nat \<Rightarrow> 'a kmem_scheme \<Rightarrow> (u32 \<times> 'a kmem_scheme) kres" where
  "malloc_page pf pg_cnt s =
     kbind (kassert ''malloc_page'' (pg_cnt > 0 \<and> pg_cnt < 3840)) (\<lambda>_.
     kbind (vaddr_get pf pg_cnt s) (\<lambda>(va_start, s).
       if va_start = 0 then Inr (0, s)
       else kbind (map_pages pf va_start pg_cnt s) (\<lambda>(ok, s).
         Inr (if ok then va_start else 0, s))))"

definition get_kernel_pages :: "nat \<Rightarrow> 'a kmem_scheme \<Rightarrow> (u32 \<times> 'a kmem_scheme) kres" where
  "get_kernel_pages pg_cnt s =
     kbind (acquire_pool PF_KERNEL s) (\<lambda>s.
     kbind (malloc_page PF_KERNEL pg_cnt s) (\<lambda>(va, s).
     kbind (if va \<noteq> 0 then memset_cells va (pg_cnt * 1024) s else Inr s) (\<lambda>s.
     kbind (release_pool PF_KERNEL s) (\<lambda>s. Inr (va, s)))))"

definition get_user_pages :: "nat \<Rightarrow> 'a kmem_scheme \<Rightarrow> (u32 \<times> 'a kmem_scheme) kres" where
  "get_user_pages pg_cnt s =
     kbind (acquire_pool PF_USER s) (\<lambda>s.
     kbind (malloc_page PF_USER pg_cnt s) (\<lambda>(va, s).
     kbind (kassert ''memset'' (va \<noteq> 0)) (\<lambda>_.
     kbind (memset_cells va (pg_cnt * 1024) s) (\<lambda>s.
     kbind (release_pool PF_USER s) (\<lambda>s. Inr (va, s))))))"

definition get_a_page :: "pool_flags \<Rightarrow> u32 \<Rightarrow> 'a kmem_scheme \<Rightarrow> (u32 \<times> 'a kmem_scheme) kres" where
  "get_a_page pf vaddr s =
     kbind (acquire_pool pf s) (\<lambda>s.
     kbind (get_task (running s) s) (\<lambda>cur.
     kbind (if pgdir cur \<noteq> 0 \<and> pf = PF_USER then
              kbind (bitmap_set (vaddr_bitmap (userprog_vaddr cur)) (unat ((vaddr - vaddr_start (userprog_vaddr cur)) div PG_SIZE)) 1) (\<lambda>b.
              Inr (upd_task (running s) (\<lambda>t. t\<lparr>userprog_vaddr := (userprog_vaddr t)\<lparr>vaddr_bitmap := b\<rparr>\<rparr>) s))
            else if pgdir cur = 0 \<and> pf = PF_KERNEL then
              kbind (bitmap_set (vaddr_bitmap (kernel_vaddr s)) (unat ((vaddr - vaddr_start (kernel_vaddr s)) div PG_SIZE)) 1) (\<lambda>b.
              Inr (s\<lparr>kernel_vaddr := (kernel_vaddr s)\<lparr>vaddr_bitmap := b\<rparr>\<rparr>))
            else Inl (Panic ''get_a_page'')) (\<lambda>s.
     kbind (palloc pf s) (\<lambda>(page_phyaddr, s).
       if page_phyaddr = 0 then Inr (0, s)
       else kbind (page_table_add vaddr page_phyaddr s) (\<lambda>s.
            kbind (release_pool pf s) (\<lambda>s. Inr (vaddr, s)))))))"

definition get_a_page_without_opvaddrbitmap :: "pool_flags \<Rightarrow> u32 \<Rightarrow> 'a kmem_scheme \<Rightarrow> (u32 \<times> 'a kmem_scheme) kres" where
  "get_a_page_without_opvaddrbitmap pf vaddr s =
     kbind (acquire_pool pf s) (\<lambda>s.
     kbind (palloc pf s) (\<lambda>(page_phyaddr, s).
       if page_phyaddr = 0 then kbind (release_pool pf s) (\<lambda>s. Inr (0, s))
       else kbind (page_table_add vaddr page_phyaddr s) (\<lambda>s.
            kbind (release_pool pf s) (\<lambda>s. Inr (vaddr, s)))))"

section \<open>Unmapping\<close>

text \<open>The two loops of \<^verbatim>\<open>mfree_page\<close> differ in the range check of the frame only.\<close>

fun unmap_pages :: "(u32 \<Rightarrow> bool) \<Rightarrow> u32 \<Rightarrow> nat \<Rightarrow> 'a kmem_scheme \<Rightarrow> 'a kmem_scheme kres" where
  "unmap_pages in_range va 0 s = Inr s"
| "unmap_pages in_range va (Suc cnt) s =
     kbind (addr_v2p va s) (\<lambda>pg_phy_addr.
     kbind (kassert ''mfree_page'' (pg_phy_addr mod PG_SIZE = 0 \<and> in_range pg_phy_addr)) (\<lambda>_.
     kbind (pfree pg_phy_addr s) (\<lambda>s.
     kbind (page_table_pte_remove va s) (\<lambda>s.
     unmap_pages in_range (va + PG_SIZE) cnt s))))"

definition mfree_page :: "pool_flags \<Rightarrow> u32 \<Rightarrow> nat \<Rightarrow> 'a kmem_scheme \<Rightarrow> 'a kmem_scheme kres" where
  "mfree_page pf va pg_cnt s =
     kbind (kassert ''mfree_page'' (pg_cnt \<ge> 1 \<and> va mod PG_SIZE = 0)) (\<lambda>_.
     kbind (addr_v2p va s) (\<lambda>pg_phy_addr.
     kbind (kassert ''mfree_page'' (pg_phy_addr mod PG_SIZE = 0 \<and> pg_phy_addr \<ge> 0x102000)) (\<lambda>_.
     kbind (if pg_phy_addr \<ge> phy_addr_start (user_pool s)
            then unmap_pages (\<lambda>p. p \<ge> phy_addr_start (user_pool s)) va pg_cnt s
            else unmap_pages (\<lambda>p. p \<ge> phy_addr_start (kernel_pool s) \<and> p < phy_addr_start (user_pool s)) va pg_cnt s) (\<lambda>s.
     vaddr_remove pf va pg_cnt s))))"

section \<open>Initialisation\<close>

text \<open>
  \<open>bmem\<close> are the bytes of memory from \<^verbatim>\<open>MEM_BITMAP_BASE\<close> on, in which the three bitmaps
  lie one behind the other.
\<close>

definition mem_pool_init :: "u32 \<Rightarrow> u8 list \<Rightarrow> 'a kmem_scheme \<Rightarrow> 'a kmem_scheme kres" where
  "mem_pool_init all_mem bmem s =
     (let page_table_size = PG_SIZE * 256;
          used_mem = page_table_size + 0x100000;
          free_mem = all_mem - used_mem;
          all_free_pages = (ucast (free_mem div PG_SIZE) :: u16);
          kernel_free_pages = all_free_pages div 2;
          user_free_pages = all_free_pages - kernel_free_pages;
          kbm_length = unat (kernel_free_pages div 8);
          ubm_length = unat (user_free_pages div 8);
          kp_start = used_mem;
          up_start = kp_start + ucast kernel_free_pages * PG_SIZE
      in kbind (bitmap_init \<lparr>btmp_bytes_len = kbm_length, bits = bmem\<rparr>) (\<lambda>kb.
           let bmem = bits kb
           in kbind (bitmap_init \<lparr>btmp_bytes_len = ubm_length, bits = drop kbm_length bmem\<rparr>) (\<lambda>ub.
             let bmem = take kbm_length bmem @ bits ub
             in kbind (bitmap_init \<lparr>btmp_bytes_len = kbm_length, bits = drop (kbm_length + ubm_length) bmem\<rparr>) (\<lambda>vb.
               let bmem = take (kbm_length + ubm_length) bmem @ bits vb
               in Inr (s\<lparr>kernel_pool := \<lparr>pool_bitmap = \<lparr>btmp_bytes_len = kbm_length, bits = bmem\<rparr>, phy_addr_start = kp_start,
                            pool_size = ucast kernel_free_pages * PG_SIZE, pool_lock = lock_init\<rparr>,
                         user_pool := \<lparr>pool_bitmap = \<lparr>btmp_bytes_len = ubm_length, bits = drop kbm_length bmem\<rparr>, phy_addr_start = up_start,
                            pool_size = ucast user_free_pages * PG_SIZE, pool_lock = lock_init\<rparr>,
                         kernel_vaddr := \<lparr>vaddr_bitmap = \<lparr>btmp_bytes_len = kbm_length, bits = drop (kbm_length + ubm_length) bmem\<rparr>,
                            vaddr_start = K_HEAP_START\<rparr>\<rparr>)))))"

section \<open>Frames of a pool\<close>

definition pool_frame :: "pool \<Rightarrow> nat \<Rightarrow> u32" where
  "pool_frame p i = of_nat i * PG_SIZE + phy_addr_start p"

definition pool_frames :: "pool \<Rightarrow> u32 set" where
  "pool_frames p = pool_frame p ` {..<bcap (pool_bitmap p)}"

definition used_frames :: "pool \<Rightarrow> u32 set" where
  "used_frames p = pool_frame p ` bset (pool_bitmap p)"

definition free_frames :: "pool \<Rightarrow> u32 set" where
  "free_frames p = pool_frames p - used_frames p"

definition pool_wf :: "pool \<Rightarrow> bool" where
  "pool_wf p \<longleftrightarrow> bitmap_wf (pool_bitmap p) \<and> frame (phy_addr_start p) = phy_addr_start p \<and> phy_addr_start p \<noteq> 0
     \<and> unat (phy_addr_start p) + bcap (pool_bitmap p) * 4096 \<le> 2 ^ 32"

definition pools_ok :: "'a kmem_scheme \<Rightarrow> bool" where
  "pools_ok s \<longleftrightarrow> pool_wf (kernel_pool s) \<and> pool_wf (user_pool s)
     \<and> unat (phy_addr_start (kernel_pool s)) + bcap (pool_bitmap (kernel_pool s)) * 4096 \<le> unat (phy_addr_start (user_pool s))"

lemma pool_frame_unat:
  assumes "pool_wf p" "i < bcap (pool_bitmap p)"
  shows "unat (pool_frame p i) = unat (phy_addr_start p) + i * 4096"
proof -
  have b: "unat (phy_addr_start p) + i * 4096 < 2 ^ 32" using assms by (simp add: pool_wf_def)
  have "pool_frame p i = of_nat (unat (phy_addr_start p) + i * 4096)" by (simp add: pool_frame_def)
  then show ?thesis using b by (simp only: unat_of_nat_u32)
qed

lemma pool_frame_inj: "pool_wf p \<Longrightarrow> inj_on (pool_frame p) {..<bcap (pool_bitmap p)}"
  by (rule inj_onI) (metis add_left_cancel lessThan_iff mult_cancel2 pool_frame_unat zero_neq_numeral)

lemma pool_frame_ge: "pool_wf p \<Longrightarrow> f \<in> pool_frames p \<Longrightarrow> phy_addr_start p \<le> f \<and> f \<noteq> 0"
  by (auto simp: pool_frames_def word_le_nat_alt pool_frame_unat pool_wf_def simp flip: unat_eq_zero)

lemma pool_frame_less:
  "pool_wf p \<Longrightarrow> f \<in> pool_frames p \<Longrightarrow> unat f < unat (phy_addr_start p) + bcap (pool_bitmap p) * 4096"
  by (auto simp: pool_frames_def pool_frame_unat)

lemma frame_mult_add: "frame x = x \<Longrightarrow> frame (of_nat i * PG_SIZE + x) = of_nat i * PG_SIZE + x"
proof -
  assume x: "frame x = x"
  have f: "frame x = push_bit 12 (drop_bit 12 x)" for x :: u32
    by (rule bit_word_eqI) (auto simp: bit_frame bit_simps)
  have "of_nat i * PG_SIZE = push_bit 12 (of_nat i :: u32)" by (simp add: push_bit_eq_mult)
  then have "of_nat i * PG_SIZE + x = push_bit 12 (of_nat i + drop_bit 12 x)"
    using x f [of x] by (simp add: push_bit_add)
  then show ?thesis by (simp only:) (auto intro!: bit_word_eqI simp: bit_frame bit_simps)
qed

lemma pool_frame_aligned: "pool_wf p \<Longrightarrow> frame (pool_frame p i) = pool_frame p i"
  by (simp add: pool_wf_def pool_frame_def frame_mult_add)

lemma used_frames_subset: "used_frames p \<subseteq> pool_frames p"
  using bset_subset by (auto simp: used_frames_def pool_frames_def)

lemma get_put_pool [simp]:
  "get_pool pf (put_pool pf' p s) = (if pf = pf' then p else get_pool pf s)"
  by (cases pf; cases pf') (simp_all add: get_pool_def put_pool_def)

lemma put_pool_sel [simp]:
  "pmem (put_pool pf p s) = pmem s" "cr3 (put_pool pf p s) = cr3 s" "running (put_pool pf p s) = running s"
  "tasks (put_pool pf p s) = tasks s" "kernel_vaddr (put_pool pf p s) = kernel_vaddr s"
  "flags (put_pool pf p s) = flags s" "thread_ready_list (put_pool pf p s) = thread_ready_list s"
  "thread_all_list (put_pool pf p s) = thread_all_list s"
  by (cases pf; simp add: put_pool_def)+

lemma pools_ok_get: "pools_ok s \<Longrightarrow> pool_wf (get_pool pf s)"
  by (cases pf) (simp_all add: pools_ok_def get_pool_def)

lemma pools_ok_put:
  assumes "pools_ok s" "phy_addr_start p = phy_addr_start (get_pool pf s)" "bitmap_wf (pool_bitmap p)"
    "btmp_bytes_len (pool_bitmap p) = btmp_bytes_len (pool_bitmap (get_pool pf s))"
  shows "pools_ok (put_pool pf p s)"
  using assms by (cases pf) (simp_all add: pools_ok_def put_pool_def get_pool_def pool_wf_def)

text \<open>One allocation from a pool that is not empty, and from an empty one.\<close>

lemma palloc_spec:
  assumes ok: "pools_ok s" and free: "free_frames (get_pool pf s) \<noteq> {}"
  obtains f p' where "palloc pf s = Inr (f, put_pool pf p' s)" "f \<in> free_frames (get_pool pf s)"
    "used_frames p' = insert f (used_frames (get_pool pf s))" "pool_frames p' = pool_frames (get_pool pf s)"
    "phy_addr_start p' = phy_addr_start (get_pool pf s)" "pool_lock p' = pool_lock (get_pool pf s)"
    "pool_size p' = pool_size (get_pool pf s)" "pools_ok (put_pool pf p' s)"
proof -
  let ?p = "get_pool pf s" let ?b = "pool_bitmap ?p"
  have wf: "pool_wf ?p" by (rule pools_ok_get [OF ok])
  then have bwf: "bitmap_wf ?b" by (simp add: pool_wf_def)
  have "bset ?b \<noteq> {..<bcap ?b}" using free by (auto simp: free_frames_def used_frames_def pool_frames_def)
  then obtain i where i: "i < bcap ?b" "\<not> bused ?b i" "\<forall>j<i. bused ?b j" by (rule exists_first_free)
  have scan: "bitmap_scan ?b 1 = Inr (int i)" by (rule bitmap_scan_one [OF bwf i])
  obtain b' where b': "bitmap_set ?b i 1 = Inr b'" "bitmap_wf b'" "btmp_bytes_len b' = btmp_bytes_len ?b"
    "bset b' = insert i (bset ?b)"
    by (rule bitmap_set_bset [OF bwf i(1), of 1]) auto
  let ?p' = "?p\<lparr>pool_bitmap := b'\<rparr>"
  have pf: "pool_frame ?p' = pool_frame ?p" by (simp add: pool_frame_def fun_eq_iff)
  have ni: "i \<notin> bset ?b" using i(2) by (simp add: bset_def)
  have "pool_frame ?p i \<notin> used_frames ?p"
    using ni i(1) inj_on_image_mem_iff [OF pool_frame_inj [OF wf], of i "bset ?b"] bset_subset [of ?b]
    by (simp add: used_frames_def)
  then have "pool_frame ?p i \<in> free_frames ?p" using i(1) by (simp add: free_frames_def pool_frames_def)
  moreover have "palloc pf s = Inr (pool_frame ?p i, put_pool pf ?p' s)"
    using scan b'(1) by (simp add: palloc_def Let_def pool_frame_def)
  ultimately show thesis
    using that [of "pool_frame ?p i" ?p'] b' pf pools_ok_put [OF ok, of ?p' pf]
    by (simp add: used_frames_def pool_frames_def)
qed

lemma palloc_full:
  assumes "pools_ok s" "free_frames (get_pool pf s) = {}"
  shows "palloc pf s = Inl (Assert_fail ''bitmap_scan'')"
proof -
  let ?p = "get_pool pf s" let ?b = "pool_bitmap ?p"
  have wf: "pool_wf ?p" by (rule pools_ok_get [OF assms(1)])
  have "used_frames ?p = pool_frames ?p" using assms(2) used_frames_subset [of ?p] by (auto simp: free_frames_def)
  then have "bset ?b = {..<bcap ?b}"
    using inj_on_image_eq_iff [OF pool_frame_inj [OF wf] bset_subset subset_refl]
    by (simp add: used_frames_def pool_frames_def)
  then show ?thesis using bitmap_scan_full [of ?b 1] wf by (simp add: palloc_def Let_def pool_wf_def)
qed

text \<open>The frame of a pool is recognised by its address.\<close>

lemma pool_of_frame:
  assumes "pools_ok s" "f \<in> pool_frames (get_pool pf s)"
  shows "(if phy_addr_start (user_pool s) \<le> f then PF_USER else PF_KERNEL) = pf"
proof (cases pf)
  case PF_USER
  then show ?thesis using pool_frame_ge [of "user_pool s" f] assms by (simp add: pools_ok_def get_pool_def)
next
  case PF_KERNEL
  then have "unat f < unat (phy_addr_start (user_pool s))"
    using pool_frame_less [of "kernel_pool s" f] assms by (simp add: pools_ok_def get_pool_def)
  then show ?thesis using PF_KERNEL by (simp add: word_le_nat_alt)
qed

lemma pool_frame_idx:
  assumes "pool_wf p" "i < bcap (pool_bitmap p)"
  shows "unat ((pool_frame p i - phy_addr_start p) div PG_SIZE) = i"
proof -
  have "i * 4096 < 2 ^ 32" using assms by (simp add: pool_wf_def)
  then have "unat (of_nat i * PG_SIZE :: u32) = i * 4096"
    using unat_of_nat_u32 [of "i * 4096"] by simp
  then show ?thesis by (simp add: pool_frame_def unat_div)
qed

lemma pfree_spec:
  assumes ok: "pools_ok s" and f: "f \<in> used_frames (get_pool pf s)"
  obtains p' where "pfree f s = Inr (put_pool pf p' s)"
    "used_frames p' = used_frames (get_pool pf s) - {f}" "pool_frames p' = pool_frames (get_pool pf s)"
    "phy_addr_start p' = phy_addr_start (get_pool pf s)" "pool_lock p' = pool_lock (get_pool pf s)"
    "pool_size p' = pool_size (get_pool pf s)" "pools_ok (put_pool pf p' s)"
proof -
  let ?p = "get_pool pf s" let ?b = "pool_bitmap ?p"
  have wf: "pool_wf ?p" by (rule pools_ok_get [OF ok])
  then have bwf: "bitmap_wf ?b" by (simp add: pool_wf_def)
  obtain i where i: "i \<in> bset ?b" "f = pool_frame ?p i" using f by (auto simp: used_frames_def)
  then have ib: "i < bcap ?b" using bset_subset by blast
  obtain b' where b': "bitmap_set ?b i 0 = Inr b'" "bitmap_wf b'" "btmp_bytes_len b' = btmp_bytes_len ?b"
    "bset b' = bset ?b - {i}"
    by (rule bitmap_set_bset [OF bwf ib, of 0]) auto
  let ?p' = "?p\<lparr>pool_bitmap := b'\<rparr>"
  have pf: "pool_frame ?p' = pool_frame ?p" by (simp add: pool_frame_def fun_eq_iff)
  have "(if phy_addr_start (user_pool s) \<le> f then PF_USER else PF_KERNEL) = pf"
    using pool_of_frame [OF ok] f used_frames_subset by blast
  then have "pfree f s = Inr (put_pool pf ?p' s)"
    using b'(1) pool_frame_idx [OF wf ib] by (simp add: pfree_def Let_def i(2))
  moreover have "used_frames ?p' = used_frames ?p - {f}"
    using inj_on_image_set_diff [OF pool_frame_inj [OF wf], of "bset ?b" "{i}"] bset_subset [of ?b] ib
    by (auto simp: used_frames_def pf b'(4) i(2))
  ultimately show thesis
    using that [of ?p'] b' pf pools_ok_put [OF ok, of ?p' pf] by (simp add: pool_frames_def)
qed

text \<open>Both pools are slot pools: \<^verbatim>\<open>palloc\<close> hands out a free frame, \<^verbatim>\<open>pfree\<close> takes it back.\<close>

lemma finite_pool_frames [simp]: "finite (pool_frames p)"
  by (simp add: pool_frames_def)

interpretation kframes: slot_pool pools_ok "\<lambda>s. pool_frames (kernel_pool s)" "\<lambda>s. used_frames (kernel_pool s)"
  "palloc PF_KERNEL" pfree
proof unfold_locales
  fix s :: "'a kmem_scheme" and r
  show "pools_ok s \<Longrightarrow> used_frames (kernel_pool s) \<noteq> pool_frames (kernel_pool s) \<Longrightarrow>
      \<exists>r s'. palloc PF_KERNEL s = Inr (r, s') \<and> r \<in> pool_frames (kernel_pool s) - used_frames (kernel_pool s)
        \<and> used_frames (kernel_pool s') = insert r (used_frames (kernel_pool s))
        \<and> pool_frames (kernel_pool s') = pool_frames (kernel_pool s) \<and> pools_ok s'"
    using palloc_spec [of s PF_KERNEL] used_frames_subset [of "kernel_pool s"]
    by (simp add: get_pool_def put_pool_def free_frames_def) (metis (no_types, lifting) kmem.select_convs(1) kmem.surjective kmem.update_convs(1))
  show "pools_ok s \<Longrightarrow> used_frames (kernel_pool s) = pool_frames (kernel_pool s) \<Longrightarrow> \<exists>e. palloc PF_KERNEL s = Inl e"
    using palloc_full [of s PF_KERNEL] by (auto simp: get_pool_def free_frames_def)
  show "pools_ok s \<Longrightarrow> r \<in> used_frames (kernel_pool s) \<Longrightarrow> \<exists>s'. pfree r s = Inr s'
        \<and> used_frames (kernel_pool s') = used_frames (kernel_pool s) - {r}
        \<and> pool_frames (kernel_pool s') = pool_frames (kernel_pool s) \<and> pools_ok s'"
    using pfree_spec [of s r PF_KERNEL] by (simp add: get_pool_def put_pool_def) (metis (no_types, lifting) kmem.select_convs(1) kmem.surjective kmem.update_convs(1))
qed (auto simp: used_frames_subset)

interpretation uframes: slot_pool pools_ok "\<lambda>s. pool_frames (user_pool s)" "\<lambda>s. used_frames (user_pool s)"
  "palloc PF_USER" pfree
proof unfold_locales
  fix s :: "'a kmem_scheme" and r
  show "pools_ok s \<Longrightarrow> used_frames (user_pool s) \<noteq> pool_frames (user_pool s) \<Longrightarrow>
      \<exists>r s'. palloc PF_USER s = Inr (r, s') \<and> r \<in> pool_frames (user_pool s) - used_frames (user_pool s)
        \<and> used_frames (user_pool s') = insert r (used_frames (user_pool s))
        \<and> pool_frames (user_pool s') = pool_frames (user_pool s) \<and> pools_ok s'"
    using palloc_spec [of s PF_USER] used_frames_subset [of "user_pool s"]
    by (simp add: get_pool_def put_pool_def free_frames_def) (metis (no_types, lifting) kmem.select_convs(2) kmem.surjective kmem.update_convs(2))
  show "pools_ok s \<Longrightarrow> used_frames (user_pool s) = pool_frames (user_pool s) \<Longrightarrow> \<exists>e. palloc PF_USER s = Inl e"
    using palloc_full [of s PF_USER] by (auto simp: get_pool_def free_frames_def)
  show "pools_ok s \<Longrightarrow> r \<in> used_frames (user_pool s) \<Longrightarrow> \<exists>s'. pfree r s = Inr s'
        \<and> used_frames (user_pool s') = used_frames (user_pool s) - {r}
        \<and> pool_frames (user_pool s') = pool_frames (user_pool s) \<and> pools_ok s'"
    using pfree_spec [of s r PF_USER] by (simp add: get_pool_def put_pool_def) (metis (no_types, lifting) kmem.select_convs(2) kmem.surjective kmem.update_convs(2))
qed (auto simp: used_frames_subset)

section \<open>Mapping one page\<close>

text \<open>No page table is in a free frame.\<close>

definition vm_ok :: "'a kmem_scheme \<Rightarrow> bool" where
  "vm_ok s \<longleftrightarrow> paging_ok s \<and> pools_ok s
     \<and> table_frames s \<inter> (free_frames (kernel_pool s) \<union> free_frames (user_pool s)) = {}"

lemma present_and_1: "v AND 1 = 0 \<longleftrightarrow> \<not> present v"
  by (simp add: present_def and_1_eq_0_iff)

text \<open>The directory entry exists: one cell is written.\<close>

lemma page_table_add_present:
  fixes s :: "'a kmem_scheme"
  assumes ok: "paging_ok s" and i: "PDE_IDX va \<noteq> 1023" and p: "present (pmem s (dir_cell s va))"
    and un: "translate s va = None" and phy: "frame phy = phy"
  defines "s' \<equiv> s\<lparr>pmem := (pmem s)(tab_cell s va := entry phy)\<rparr>"
  shows "page_table_add va phy s = Inr s'" "paging_ok s'" "table_frames s' = table_frames s"
    "translate s' va' = (if same_cell s va va' then Some (phy + page_off va') else translate s va')"
    "same_cell s' = same_cell s" "frame a \<notin> table_frames s' \<Longrightarrow> pmem s' a = pmem s a"
proof -
  note sm = paging_okD(1) [OF ok]
  have tc: "frame (tab_cell s va) \<noteq> cr3 s" by (rule paging_ok_tab [OF ok i p])
  have dc: "dir_cell s' v = dir_cell s v" "dir_cell s v \<noteq> tab_cell s va" for v
    using tc frame_dir_cell [of s v] paging_okD(2) [OF ok] by (auto simp: s'_def dir_cell_def)
  then show "same_cell s' = same_cell s" by (intro same_cell_cong) (simp add: s'_def)
  have np: "\<not> present (pmem s (tab_cell s va))" using un p by (auto simp: translate_def split: if_splits)
  show "page_table_add va phy s = Inr s'"
    using p np by (simp add: page_table_add_def Let_def vread_def vwrite_def sm present_and_1 entry_def s'_def)
  show "paging_ok s'" unfolding s'_def by (rule set_pte_paging_ok [OF ok tc])
  show tf: "table_frames s' = table_frames s" unfolding s'_def by (rule translate_set_pte(2) [OF sm tc])
  have "frame (tab_cell s va) \<in> table_frames s" using p by (auto simp: table_frames_def)
  then show "frame a \<notin> table_frames s' \<Longrightarrow> pmem s' a = pmem s a" unfolding tf by (auto simp: s'_def)
  have sc: "same_cell s va va' \<longleftrightarrow> present (pmem s (dir_cell s va')) \<and> tab_cell s va' = tab_cell s va"
    using p translate_same_page [of va va' s] by (auto simp: same_cell_def)
  show "translate s' va' = (if same_cell s va va' then Some (phy + page_off va') else translate s va')"
    unfolding s'_def translate_set_pte(3) [OF sm tc] sc by (simp add: phy)
qed

text \<open>The directory entry does not exist: a frame of the kernel pool becomes a cleared table.\<close>

lemma page_table_add_absent:
  fixes s :: "'a kmem_scheme"
  assumes ok: "vm_ok s" and i: "PDE_IDX va \<noteq> 1023" and p: "\<not> present (pmem s (dir_cell s va))"
    and phy: "frame phy = phy" and free: "free_frames (kernel_pool s) \<noteq> {}"
  obtains f p' pm where
    "page_table_add va phy s = Inr ((put_pool PF_KERNEL p' s)\<lparr>pmem := pm\<rparr>)"
    "f \<in> free_frames (kernel_pool s)" "used_frames p' = insert f (used_frames (kernel_pool s))"
    "pool_frames p' = pool_frames (kernel_pool s)" "phy_addr_start p' = phy_addr_start (kernel_pool s)"
    "pool_lock p' = pool_lock (kernel_pool s)" "pools_ok (put_pool PF_KERNEL p' s)"
    "paging_ok ((put_pool PF_KERNEL p' s)\<lparr>pmem := pm\<rparr>)"
    "table_frames ((put_pool PF_KERNEL p' s)\<lparr>pmem := pm\<rparr>) = insert f (table_frames s)"
    "\<forall>va'. PDE_IDX va' \<noteq> 1023 \<longrightarrow> translate ((put_pool PF_KERNEL p' s)\<lparr>pmem := pm\<rparr>) va'
       = (if same_cell s va va' then Some (phy + page_off va') else translate s va')"
    "same_cell ((put_pool PF_KERNEL p' s)\<lparr>pmem := pm\<rparr>) = same_cell s"
    "\<forall>v. present (pmem s (dir_cell s v)) \<longrightarrow> present (pm (dir_cell s v))"
    "\<forall>a. frame a \<notin> insert f (table_frames s) \<longrightarrow> pm a = pmem s a"
proof -
  have po: "paging_ok s" and pools: "pools_ok s" using ok by (simp_all add: vm_ok_def)
  have gk: "get_pool PF_KERNEL s = kernel_pool s" by (simp add: get_pool_def)
  obtain f p' where f: "palloc PF_KERNEL s = Inr (f, put_pool PF_KERNEL p' s)" "f \<in> free_frames (kernel_pool s)"
    "used_frames p' = insert f (used_frames (kernel_pool s))" "pool_frames p' = pool_frames (kernel_pool s)"
    "phy_addr_start p' = phy_addr_start (kernel_pool s)" "pool_lock p' = pool_lock (kernel_pool s)"
    "pools_ok (put_pool PF_KERNEL p' s)"
    by (rule palloc_spec [OF pools, of PF_KERNEL, unfolded gk, OF free])
  define z where "z = put_pool PF_KERNEL p' s"
  have eq: "cr3 z = cr3 s" "pmem z = pmem s" by (simp_all add: z_def)
  note pc = paging_cong [OF eq]
  have zdir: "dir_cell z = dir_cell s" by (simp add: dir_cell_def fun_eq_iff eq)
  have pz: "paging_ok z" using po pc(6) by simp
  have fa: "frame f = f" using f(2) pools pool_frame_aligned by (auto simp: free_frames_def pool_frames_def pools_ok_def)
  have ft: "f \<notin> table_frames z" using ok f(2) pc(5) by (auto simp: vm_ok_def)
  then have fc: "f \<noteq> cr3 z" using paging_okD(2) [OF pz] by (auto simp: table_frames_def)
  let ?s1 = "z\<lparr>pmem := (pmem z)(dir_cell z va := entry f)\<rparr>"
  define s2 where "s2 = z\<lparr>pmem := \<lambda>a. if a \<in> page_cells f then 0 else ((pmem z)(dir_cell z va := entry f)) a\<rparr>"
  have m: "memset_cells (frame (pte_ptr va)) 1024 ?s1 = Inr s2"
    unfolding s2_def by (rule new_table_memset [OF pz i fa fc])
  have np: "\<not> present (pmem z (dir_cell z va))" using p zdir eq by simp
  note N = new_table_translate [OF pz i np fa ft s2_def]
  have un: "translate s2 va = None" using N(3) [OF i] np by (simp add: translate_def)
  note P = page_table_add_present [OF N(1) i N(4) un phy]
  let ?s3 = "s2\<lparr>pmem := (pmem s2)(tab_cell s2 va := entry phy)\<rparr>"
  have sm: "self_mapped s" "self_mapped z" "self_mapped s2" using paging_okD(1) po pz N(1) by blast+
  have run: "page_table_add va phy s = Inr ?s3"
  proof -
    have "page_table_add va phy s = kbind (vwrite (pde_ptr va) (entry f) z) (\<lambda>s.
        kbind (memset_cells (frame (pte_ptr va)) 1024 s) (\<lambda>s. kbind (vread (pte_ptr va) s) (\<lambda>v.
        kbind (kassert ''page_table_add'' (v AND 1 = 0)) (\<lambda>_. vwrite (pte_ptr va) (entry phy) s))))"
      using p sm(1) f(1) by (simp add: z_def page_table_add_def Let_def vread_def [of "pde_ptr va"] present_and_1 entry_def frame_def)
    also have "vwrite (pde_ptr va) (entry f) z = Inr ?s1" using sm(2) by (simp add: vwrite_def)
    finally show ?thesis using N(4,5) sm(3) by (simp add: m vread_def vwrite_def)
  qed
  have sc2: "same_cell s2 = same_cell s"
  proof (intro ext)
    fix a b
    have "dir_cell s2 v = dir_cell z v" for v by (simp add: dir_cell_def s2_def)
    then show "same_cell s2 a b = same_cell s a b"
      using N(7) ft fa p pc(5) eq zdir by (intro same_cell_new_table [of s2 va f s]) simp_all
  qed
  have tr: "translate ?s3 va' = (if same_cell s va va' then Some (phy + page_off va') else translate s va')"
    if "PDE_IDX va' \<noteq> 1023" for va'
  proof -
    have "translate s2 va' = translate s va'" using N(3) [OF that] pc(1) by simp
    then show ?thesis using P(4) [of va'] sc2 by simp
  qed
  have tf: "table_frames ?s3 = insert f (table_frames s)" using P(3) N(2) pc(5) by simp
  have shape: "?s3 = (put_pool PF_KERNEL p' s)\<lparr>pmem := pmem ?s3\<rparr>" by (simp add: s2_def z_def)
  show thesis
  proof (rule that [of "pmem ?s3" p' f])
    show "page_table_add va phy s = Inr ((put_pool PF_KERNEL p' s)\<lparr>pmem := pmem ?s3\<rparr>)" using run shape by metis
    show "paging_ok ((put_pool PF_KERNEL p' s)\<lparr>pmem := pmem ?s3\<rparr>)" using P(2) shape by metis
    show "table_frames ((put_pool PF_KERNEL p' s)\<lparr>pmem := pmem ?s3\<rparr>) = insert f (table_frames s)" using tf shape by metis
    show "\<forall>va'. PDE_IDX va' \<noteq> 1023 \<longrightarrow> translate ((put_pool PF_KERNEL p' s)\<lparr>pmem := pmem ?s3\<rparr>) va'
       = (if same_cell s va va' then Some (phy + page_off va') else translate s va')"
      using tr unfolding shape [symmetric] by blast
    show "same_cell ((put_pool PF_KERNEL p' s)\<lparr>pmem := pmem ?s3\<rparr>) = same_cell s"
      using P(5) sc2 unfolding shape [symmetric] by simp
    show "\<forall>v. present (pmem s (dir_cell s v)) \<longrightarrow> present (pmem ?s3 (dir_cell s v))"
    proof (intro allI impI)
      fix v assume v: "present (pmem s (dir_cell s v))"
      have "frame (dir_cell s v) = cr3 s" using frame_dir_cell [of s v] paging_okD(2) [OF po] by metis
      then have "dir_cell s v \<noteq> tab_cell s2 va" using N(6) fc eq(1) by metis
      then have "pmem ?s3 (dir_cell s v) = pmem s2 (dir_cell z v)" by (simp add: zdir)
      then show "present (pmem ?s3 (dir_cell s v))" using N(7) [of v] v eq zdir by simp
    qed
    show "\<forall>a. frame a \<notin> insert f (table_frames s) \<longrightarrow> pmem ?s3 a = pmem s a"
    proof (intro allI impI)
      fix a assume a: "frame a \<notin> insert f (table_frames s)"
      have "a \<notin> page_cells f" using frame_page_cells [OF fa] a by auto
      moreover have "a \<noteq> dir_cell z va" using a frame_dir_cell [of z va] eq by (auto simp: table_frames_def)
      moreover have "a \<noteq> tab_cell s2 va" using a N(6) by auto
      ultimately show "pmem ?s3 a = pmem s a" by (simp add: s2_def eq)
    qed
  qed (use f in auto)
qed

text \<open>Two states that differ in the contents of memory and in the bitmaps of the pools only.\<close>

definition same_but_pages :: "'a kmem_scheme \<Rightarrow> 'a kmem_scheme \<Rightarrow> bool" where
  "same_but_pages s s' \<longleftrightarrow> (\<exists>pm kp up. s' = s\<lparr>pmem := pm, kernel_pool := kp, user_pool := up\<rparr>)
     \<and> (\<forall>pf. pool_frames (get_pool pf s') = pool_frames (get_pool pf s)
          \<and> phy_addr_start (get_pool pf s') = phy_addr_start (get_pool pf s)
          \<and> pool_lock (get_pool pf s') = pool_lock (get_pool pf s))"

lemma same_but_pages_refl [simp]: "same_but_pages s s"
proof -
  have "s = s\<lparr>pmem := pmem s, kernel_pool := kernel_pool s, user_pool := user_pool s\<rparr>" by simp
  then show ?thesis unfolding same_but_pages_def by blast
qed

lemma same_but_pages_trans: "same_but_pages s s' \<Longrightarrow> same_but_pages s' s'' \<Longrightarrow> same_but_pages s s''"
proof -
  assume a: "same_but_pages s s'" "same_but_pages s' s''"
  then obtain pm kp up pm' kp' up' where "s' = s\<lparr>pmem := pm, kernel_pool := kp, user_pool := up\<rparr>"
    "s'' = s'\<lparr>pmem := pm', kernel_pool := kp', user_pool := up'\<rparr>" unfolding same_but_pages_def by blast
  then have "s'' = s\<lparr>pmem := pm', kernel_pool := kp', user_pool := up'\<rparr>" by simp
  with a show ?thesis unfolding same_but_pages_def by auto
qed

lemma same_but_pages_sel:
  assumes "same_but_pages s s'"
  shows "cr3 s' = cr3 s" "tasks s' = tasks s" "running s' = running s" "kernel_vaddr s' = kernel_vaddr s"
    "thread_ready_list s' = thread_ready_list s" "idle_thread s' = idle_thread s" "flags s' = flags s"
    "thread_all_list s' = thread_all_list s"
  using assms by (auto simp: same_but_pages_def)

lemma same_but_pages_pool:
  assumes "phy_addr_start p = phy_addr_start (get_pool pf s)" "pool_frames p = pool_frames (get_pool pf s)"
    "pool_lock p = pool_lock (get_pool pf s)"
  shows "same_but_pages s ((put_pool pf p s)\<lparr>pmem := pm\<rparr>)" "same_but_pages s (put_pool pf p s)"
proof -
  have e: "\<exists>kp up. (put_pool pf p s)\<lparr>pmem := m\<rparr> = s\<lparr>pmem := m, kernel_pool := kp, user_pool := up\<rparr>" for m
  proof (cases pf)
    case PF_KERNEL
    then have "(put_pool pf p s)\<lparr>pmem := m\<rparr> = s\<lparr>pmem := m, kernel_pool := p, user_pool := user_pool s\<rparr>"
      by (simp add: put_pool_def)
    then show ?thesis by blast
  next
    case PF_USER
    then have "(put_pool pf p s)\<lparr>pmem := m\<rparr> = s\<lparr>pmem := m, kernel_pool := kernel_pool s, user_pool := p\<rparr>"
      by (simp add: put_pool_def)
    then show ?thesis by blast
  qed
  have g: "get_pool pf' ((put_pool pf p s)\<lparr>pmem := m\<rparr>) = get_pool pf' (put_pool pf p s)" for m pf'
    by (cases pf') (simp_all add: get_pool_def)
  have sb: "same_but_pages s ((put_pool pf p s)\<lparr>pmem := m\<rparr>)" for m
    using e [of m] assms unfolding same_but_pages_def g by auto
  then show "same_but_pages s ((put_pool pf p s)\<lparr>pmem := pm\<rparr>)" .
  have "(put_pool pf p s)\<lparr>pmem := pmem s\<rparr> = put_pool pf p s" by (cases pf) (simp_all add: put_pool_def)
  with sb [of "pmem s"] show "same_but_pages s (put_pool pf p s)" by simp
qed

lemma used_free: "free_frames p = pool_frames p - used_frames p"
  by (simp add: free_frames_def)

lemma pools_disjoint: "pools_ok s \<Longrightarrow> pool_frames (kernel_pool s) \<inter> pool_frames (user_pool s) = {}"
  using pool_of_frame [of s _ PF_KERNEL] pool_of_frame [of s _ PF_USER] by (fastforce simp: get_pool_def)

text \<open>Mapping one page: both branches of \<^verbatim>\<open>page_table_add\<close> together.  \<open>T\<close> is the frame of the
  new table, if one is needed.\<close>

lemma page_table_add_spec:
  fixes s :: "'a kmem_scheme"
  assumes ok: "vm_ok s" and i: "PDE_IDX va \<noteq> 1023" and un: "translate s va = None" and phy: "frame phy = phy"
    and space: "present (pmem s (dir_cell s va)) \<or> free_frames (kernel_pool s) \<noteq> {}"
  obtains s' T where "page_table_add va phy s = Inr s'" "vm_ok s'" "same_but_pages s s'"
    "T \<subseteq> free_frames (kernel_pool s)" "present (pmem s (dir_cell s va)) \<longrightarrow> T = {}"
    "used_frames (kernel_pool s') = used_frames (kernel_pool s) \<union> T"
    "used_frames (user_pool s') = used_frames (user_pool s)" "table_frames s' = table_frames s \<union> T"
    "\<forall>va'. PDE_IDX va' \<noteq> 1023 \<longrightarrow> translate s' va' = (if same_cell s va va' then Some (phy + page_off va') else translate s va')"
    "same_cell s' = same_cell s" "\<forall>v. present (pmem s (dir_cell s v)) \<longrightarrow> present (pmem s' (dir_cell s' v))"
    "\<forall>a. frame a \<notin> table_frames s' \<longrightarrow> pmem s' a = pmem s a"
proof (cases "present (pmem s (dir_cell s va))")
  case True
  have po: "paging_ok s" using ok by (simp add: vm_ok_def)
  note P = page_table_add_present [OF po i True un phy]
  let ?s' = "s\<lparr>pmem := (pmem s)(tab_cell s va := entry phy)\<rparr>"
  have vm: "vm_ok ?s'" using ok P(2,3) by (simp add: vm_ok_def pools_ok_def)
  have g: "get_pool pf ?s' = get_pool pf s" for pf by (cases pf) (simp_all add: get_pool_def)
  have "?s' = s\<lparr>pmem := (pmem s)(tab_cell s va := entry phy), kernel_pool := kernel_pool s, user_pool := user_pool s\<rparr>" by simp
  then have sb: "same_but_pages s ?s'" unfolding same_but_pages_def g by blast
  have dp: "present (pmem s (dir_cell s v)) \<longrightarrow> present (pmem ?s' (dir_cell ?s' v))" for v
  proof -
    have "dir_cell s v \<noteq> tab_cell s va"
      using paging_ok_tab [OF po i True] frame_dir_cell [of s v] paging_okD(2) [OF po] by metis
    then show ?thesis by (simp add: dir_cell_def)
  qed
  show thesis by (rule that [OF P(1) vm sb]) (use P True dp in auto)
next
  case False
  then have free: "free_frames (kernel_pool s) \<noteq> {}" using space by simp
  obtain f p' pm where A:
    "page_table_add va phy s = Inr ((put_pool PF_KERNEL p' s)\<lparr>pmem := pm\<rparr>)"
    "f \<in> free_frames (kernel_pool s)" "used_frames p' = insert f (used_frames (kernel_pool s))"
    "pool_frames p' = pool_frames (kernel_pool s)" "phy_addr_start p' = phy_addr_start (kernel_pool s)"
    "pool_lock p' = pool_lock (kernel_pool s)" "pools_ok (put_pool PF_KERNEL p' s)"
    "paging_ok ((put_pool PF_KERNEL p' s)\<lparr>pmem := pm\<rparr>)"
    "table_frames ((put_pool PF_KERNEL p' s)\<lparr>pmem := pm\<rparr>) = insert f (table_frames s)"
    "\<forall>va'. PDE_IDX va' \<noteq> 1023 \<longrightarrow> translate ((put_pool PF_KERNEL p' s)\<lparr>pmem := pm\<rparr>) va'
       = (if same_cell s va va' then Some (phy + page_off va') else translate s va')"
    "same_cell ((put_pool PF_KERNEL p' s)\<lparr>pmem := pm\<rparr>) = same_cell s"
    "\<forall>v. present (pmem s (dir_cell s v)) \<longrightarrow> present (pm (dir_cell s v))"
    "\<forall>a. frame a \<notin> insert f (table_frames s) \<longrightarrow> pm a = pmem s a"
    by (rule page_table_add_absent [OF ok i False phy free])
  let ?s' = "(put_pool PF_KERNEL p' s)\<lparr>pmem := pm\<rparr>"
  have k: "kernel_pool ?s' = p'" "user_pool ?s' = user_pool s" by (simp_all add: put_pool_def)
  have disj: "pool_frames (kernel_pool s) \<inter> pool_frames (user_pool s) = {}"
    using pools_disjoint ok by (auto simp: vm_ok_def)
  have "pools_ok ?s'" using A(7) by (simp add: pools_ok_def)
  moreover have "f \<notin> free_frames (user_pool s)" using A(2) disj by (auto simp: free_frames_def)
  ultimately have vm: "vm_ok ?s'"
    using ok A(3,4,8,9) by (auto simp: vm_ok_def k free_frames_def)
  have sb: "same_but_pages s ?s'" using A(4-6) by (intro same_but_pages_pool) (simp_all add: get_pool_def)
  show thesis by (rule that [OF A(1) vm sb, of "{f}"]) (use A False k in \<open>auto simp: dir_cell_def\<close>)
qed

section \<open>Mapping a run of pages\<close>

definition pg :: "u32 \<Rightarrow> nat \<Rightarrow> u32" where
  "pg va i = va + of_nat i * PG_SIZE"

lemma pg_0 [simp]: "pg va 0 = va"
  by (simp add: pg_def)

lemma pg_pg [simp]: "pg (pg va i) k = pg va (i + k)"
  by (simp add: pg_def algebra_simps)

lemma frame_pg: "frame va = va \<Longrightarrow> frame (pg va i) = pg va i"
  using frame_mult_add [of va i] by (simp add: pg_def add.commute)

lemma pg_step [simp]: "pg (va + PG_SIZE) i = pg va (Suc i)"
  by (simp add: pg_def algebra_simps)

text \<open>
  What \<open>map_pages\<close> has done when it succeeds: page \<open>i\<close> of the run is mapped to \<open>fs ! i\<close>, a frame
  that was free; the frames are distinct; every address that shares no table cell with the
  run is translated as before; \<open>T\<close> are the frames of the kernel pool that have become tables.
\<close>

definition mapped :: "pool_flags \<Rightarrow> u32 \<Rightarrow> nat \<Rightarrow> 'a kmem_scheme \<Rightarrow> 'a kmem_scheme \<Rightarrow> u32 list \<Rightarrow> u32 set \<Rightarrow> bool" where
  "mapped pf va n s s' fs T \<longleftrightarrow> length fs = n \<and> distinct fs \<and> set fs \<subseteq> free_frames (get_pool pf s)
     \<and> T \<subseteq> free_frames (kernel_pool s) \<and> T \<inter> set fs = {}
     \<and> used_frames (kernel_pool s') = used_frames (kernel_pool s) \<union> T \<union> (if pf = PF_KERNEL then set fs else {})
     \<and> used_frames (user_pool s') = used_frames (user_pool s) \<union> (if pf = PF_USER then set fs else {})
     \<and> table_frames s' = table_frames s \<union> T
     \<and> (\<forall>va'. PDE_IDX va' \<noteq> 1023 \<longrightarrow>
          (\<forall>i<n. same_cell s (pg va i) va' \<longrightarrow> translate s' va' = Some (fs ! i + page_off va'))
          \<and> ((\<forall>i<n. \<not> same_cell s (pg va i) va') \<longrightarrow> translate s' va' = translate s va'))
     \<and> same_cell s' = same_cell s \<and> vm_ok s' \<and> same_but_pages s s'
     \<and> ((\<forall>i<n. present (pmem s (dir_cell s (pg va i)))) \<longrightarrow> T = {})
     \<and> (\<forall>v. present (pmem s (dir_cell s v)) \<longrightarrow> present (pmem s' (dir_cell s' v)))
     \<and> (\<forall>a. frame a \<notin> table_frames s' \<longrightarrow> pmem s' a = pmem s a)"

lemma page_table_add_no_frame:
  assumes "vm_ok s" "\<not> present (pmem s (dir_cell s va))" "free_frames (kernel_pool s) = {}"
  shows "page_table_add va phy s = Inl (Assert_fail ''bitmap_scan'')"
proof -
  have "pools_ok s" "self_mapped s" using assms(1) paging_okD(1) by (auto simp: vm_ok_def)
  then show ?thesis using assms(2,3) palloc_full [of s PF_KERNEL]
    by (simp add: page_table_add_def Let_def vread_def present_and_1 get_pool_def)
qed

lemma mapped_0: "vm_ok s \<Longrightarrow> mapped pf va 0 s s [] {}"
  by (simp add: mapped_def)

text \<open>Taking a frame out of a pool.\<close>

lemma vm_ok_palloc:
  assumes "vm_ok s" "pools_ok (put_pool pf p' s)" "used_frames p' = insert f (used_frames (get_pool pf s))"
    "pool_frames p' = pool_frames (get_pool pf s)"
  shows "vm_ok (put_pool pf p' s)" "translate (put_pool pf p' s) = translate s" "same_cell (put_pool pf p' s) = same_cell s"
    "table_frames (put_pool pf p' s) = table_frames s" "dir_cell (put_pool pf p' s) = dir_cell s"
proof -
  have eq: "cr3 (put_pool pf p' s) = cr3 s" "pmem (put_pool pf p' s) = pmem s" by simp_all
  note pc = paging_cong [OF eq]
  show "translate (put_pool pf p' s) = translate s" by (rule pc(1))
  show tf: "table_frames (put_pool pf p' s) = table_frames s" by (rule pc(5))
  show d: "dir_cell (put_pool pf p' s) = dir_cell s" by (simp add: dir_cell_def fun_eq_iff)
  show "same_cell (put_pool pf p' s) = same_cell s" by (rule same_cell_cong) (simp add: d)
  have "free_frames p' \<subseteq> free_frames (get_pool pf s)" using assms(3,4) by (auto simp: free_frames_def)
  then show "vm_ok (put_pool pf p' s)"
    using assms(1,2) pc(6) tf unfolding vm_ok_def by (cases pf) (auto simp: get_pool_def put_pool_def)
qed

lemma mapped_step:
  assumes ok: "pools_ok s" and p: "palloc pf s = Inr (f, put_pool pf p' s)" "f \<in> free_frames (get_pool pf s)"
    "used_frames p' = insert f (used_frames (get_pool pf s))" "pool_frames p' = pool_frames (get_pool pf s)"
    "same_but_pages s (put_pool pf p' s)"
    and z: "z = put_pool pf p' s" "same_cell z = same_cell s" "translate z = translate s" "table_frames z = table_frames s"
    and a: "same_but_pages z s1" "T \<subseteq> free_frames (kernel_pool z)"
    "used_frames (kernel_pool s1) = used_frames (kernel_pool z) \<union> T"
    "used_frames (user_pool s1) = used_frames (user_pool z)" "table_frames s1 = table_frames z \<union> T"
    "\<forall>va'. PDE_IDX va' \<noteq> 1023 \<longrightarrow> translate s1 va' = (if same_cell z va va' then Some (f + page_off va') else translate z va')"
    "same_cell s1 = same_cell z"
    "\<forall>v. present (pmem z (dir_cell z v)) \<longrightarrow> present (pmem s1 (dir_cell s1 v))"
    "present (pmem z (dir_cell z va)) \<longrightarrow> T = {}" "\<forall>a. frame a \<notin> table_frames s1 \<longrightarrow> pmem s1 a = pmem z a"
    and zd: "pmem z = pmem s" "dir_cell z = dir_cell s"
    and m: "mapped pf (va + PG_SIZE) n s1 s' fs T'"
    and d: "\<forall>i<Suc n. \<forall>j<Suc n. i \<noteq> j \<longrightarrow> \<not> same_cell s (pg va i) (pg va j)"
  shows "mapped pf va (Suc n) s s' (f # fs) (T \<union> T')"
proof -
  have pgS: "pg (va + PG_SIZE) i = pg va (Suc i)" for i by (rule pg_step)
  have frames: "pool_frames (get_pool q s1) = pool_frames (get_pool q s)" for q
    using a(1) p(5) z(1) by (simp add: same_but_pages_def)
  have kz: "used_frames (kernel_pool z) = used_frames (kernel_pool s) \<union> (if pf = PF_KERNEL then {f} else {})"
    "used_frames (user_pool z) = used_frames (user_pool s) \<union> (if pf = PF_USER then {f} else {})"
    using p(3) z(1) by (cases pf; simp add: put_pool_def get_pool_def)+
  have us1: "used_frames (get_pool pf s1) = insert f (used_frames (get_pool pf s)) \<union> (if pf = PF_KERNEL then T else {})"
    using kz a(3,4) by (cases pf) (auto simp: get_pool_def)
  have free1: "free_frames (get_pool pf s1) \<subseteq> free_frames (get_pool pf s) - {f}" using us1 frames [of pf] by (auto simp: free_frames_def)
  have kfz: "free_frames (kernel_pool z) \<subseteq> free_frames (kernel_pool s)"
    "pf = PF_KERNEL \<Longrightarrow> f \<notin> free_frames (kernel_pool z)"
    using kz(1) p(4) z(1) by (cases pf; auto simp: free_frames_def put_pool_def get_pool_def)+
  have kf1: "free_frames (kernel_pool s1) \<subseteq> free_frames (kernel_pool s)" "free_frames (kernel_pool s1) \<inter> T = {}"
    "pf = PF_KERNEL \<Longrightarrow> f \<notin> free_frames (kernel_pool s1)"
    using a(3) kz(1) frames [of PF_KERNEL] by (auto simp: free_frames_def get_pool_def split: if_splits)
  have fsf: "set fs \<subseteq> free_frames (get_pool pf s1)" and T': "T' \<subseteq> free_frames (kernel_pool s1)"
    using m by (simp_all add: mapped_def)
  have disj: "free_frames (kernel_pool s) \<inter> free_frames (user_pool s) = {}"
    using pools_disjoint [OF ok] by (auto simp: free_frames_def)
  have T: "f \<notin> T" "f \<notin> T'" "T \<inter> set fs = {}"
  proof -
    show "f \<notin> T" "f \<notin> T'" "T \<inter> set fs = {}"
      using p(2) a(2) kfz kf1 T' fsf free1 disj by (cases pf; force simp: get_pool_def)+
  qed
  have sc: "same_cell s1 = same_cell s" using a(7) z(2) by simp
  have tr: "(\<forall>i<Suc n. same_cell s (pg va i) va' \<longrightarrow> translate s' va' = Some ((f # fs) ! i + page_off va'))
      \<and> ((\<forall>i<Suc n. \<not> same_cell s (pg va i) va') \<longrightarrow> translate s' va' = translate s va')"
    if va': "PDE_IDX va' \<noteq> 1023" for va'
  proof -
    have M: "\<forall>i<n. same_cell s (pg va (Suc i)) va' \<longrightarrow> translate s' va' = Some (fs ! i + page_off va')"
      "(\<forall>i<n. \<not> same_cell s (pg va (Suc i)) va') \<longrightarrow> translate s' va' = translate s1 va'"
      using m va' unfolding mapped_def sc pgS by blast+
    have t1: "translate s1 va' = (if same_cell s va va' then Some (f + page_off va') else translate s va')"
      using a(6) va' z(2,3) by simp
    have "\<not> same_cell s (pg va (Suc i)) va'" if "same_cell s va va'" "i < n" for i
    proof
      assume "same_cell s (pg va (Suc i)) va'"
      then have "same_cell s va (pg va (Suc i))" using same_cell_trans same_cell_sym that(1) by metis
      moreover have "\<not> same_cell s (pg va 0) (pg va (Suc i))" using d that(2) by blast
      ultimately show False by simp
    qed
    with M t1 show ?thesis by (auto simp: All_less_Suc2 less_Suc_eq_0_disj)
  qed
  have used: "used_frames (kernel_pool s') = used_frames (kernel_pool s) \<union> (T \<union> T') \<union> (if pf = PF_KERNEL then set (f # fs) else {})"
    "used_frames (user_pool s') = used_frames (user_pool s) \<union> (if pf = PF_USER then set (f # fs) else {})"
    "table_frames s' = table_frames s \<union> (T \<union> T')"
    using m kz a(3-5) z(4) by (auto simp: mapped_def)
  have "same_but_pages s1 s'" using m by (simp add: mapped_def)
  then have sb: "same_but_pages s s'" using p(5) a(1) z(1) by (metis same_but_pages_trans)
  have rest: "length fs = n" "distinct fs" "T' \<inter> set fs = {}" "same_cell s' = same_cell s" "vm_ok s'"
    using m sc by (simp_all add: mapped_def)
  have sub: "set (f # fs) \<subseteq> free_frames (get_pool pf s)" "T \<union> T' \<subseteq> free_frames (kernel_pool s)" "f \<notin> set fs"
    using p(2) fsf free1 a(2) kfz(1) T' kf1(1) by auto
  have noT: "T \<union> T' = {}" if "\<forall>i<Suc n. present (pmem s (dir_cell s (pg va i)))"
  proof -
    have "T = {}" using a(9) that zd by force
    moreover have "\<forall>i<n. present (pmem s1 (dir_cell s1 (pg va (Suc i))))" using that a(8) zd by simp
    then have "T' = {}" using m by (simp add: mapped_def)
    ultimately show ?thesis by simp
  qed
  have same: "pmem s' a = pmem s a" if "frame a \<notin> table_frames s'" for a
    using that a(10) m zd(1) by (simp add: mapped_def)
  have pres: "present (pmem s' (dir_cell s' v))" if "present (pmem s (dir_cell s v))" for v
    using that a(8) m zd by (simp add: mapped_def)
  show ?thesis
    unfolding mapped_def using rest sub T used sb tr noT same pres by auto
qed

text \<open>
  The run is mapped, or the kernel stops in \<^verbatim>\<open>bitmap_scan\<close> because a pool is exhausted; if
  the tables exist and the pool has enough free frames, it is mapped.
\<close>

lemma map_pages_spec:
  fixes s :: "'a kmem_scheme"
  assumes "vm_ok s" "\<forall>i<n. PDE_IDX (pg va i) \<noteq> 1023 \<and> translate s (pg va i) = None"
    and "\<forall>i<n. \<forall>j<n. i \<noteq> j \<longrightarrow> \<not> same_cell s (pg va i) (pg va j)"
  shows "map_pages pf va n s = Inl (Assert_fail ''bitmap_scan'')
      \<and> \<not> ((\<forall>i<n. present (pmem s (dir_cell s (pg va i)))) \<and> n \<le> card (free_frames (get_pool pf s)))
    \<or> (\<exists>s' fs T. map_pages pf va n s = Inr (True, s') \<and> mapped pf va n s s' fs T)"
  using assms
proof (induction n arbitrary: va s)
  case 0
  then show ?case using mapped_0 by fastforce
next
  case (Suc n)
  have pools: "pools_ok s" using Suc.prems(1) by (simp add: vm_ok_def)
  have pgS: "pg (va + PG_SIZE) i = pg va (Suc i)" for i by (rule pg_step)
  have va: "PDE_IDX va \<noteq> 1023" "translate s va = None" using Suc.prems(2) by force+
  show ?case
  proof (cases "free_frames (get_pool pf s) = {}")
    case True
    then show ?thesis using palloc_full [OF pools True] by simp
  next
    case False
    obtain f p' where p: "palloc pf s = Inr (f, put_pool pf p' s)" "f \<in> free_frames (get_pool pf s)"
      "used_frames p' = insert f (used_frames (get_pool pf s))" "pool_frames p' = pool_frames (get_pool pf s)"
      "phy_addr_start p' = phy_addr_start (get_pool pf s)" "pool_lock p' = pool_lock (get_pool pf s)"
      "pools_ok (put_pool pf p' s)"
      by (rule palloc_spec [OF pools False])
    define z where "z = put_pool pf p' s"
    note vz = vm_ok_palloc [OF Suc.prems(1) p(7,3,4), folded z_def]
    have sbz: "same_but_pages s z" unfolding z_def by (rule same_but_pages_pool) (use p in auto)
    have zp: "pmem z = pmem s" by (simp add: z_def)
    have fa: "frame f = f" using p(2) pool_frame_aligned [OF pools_ok_get [OF pools]] by (auto simp: free_frames_def pool_frames_def)
    have fnz: "f \<noteq> 0" using pool_frame_ge [OF pools_ok_get [OF pools]] p(2) by (auto simp: free_frames_def)
    show ?thesis
    proof (cases "present (pmem z (dir_cell z va)) \<or> free_frames (kernel_pool z) \<noteq> {}")
      case False
      then have "page_table_add va f z = Inl (Assert_fail ''bitmap_scan'')" by (intro page_table_add_no_frame [OF vz(1)]) auto
      moreover have "\<not> present (pmem s (dir_cell s (pg va 0)))" using False zp vz(5) by simp
      ultimately show ?thesis using p(1) fnz unfolding z_def by fastforce
    next
      case True
      have un: "translate z va = None" using va(2) vz(2) by simp
      obtain s1 T where a: "page_table_add va f z = Inr s1" "vm_ok s1" "same_but_pages z s1"
        "T \<subseteq> free_frames (kernel_pool z)" "present (pmem z (dir_cell z va)) \<longrightarrow> T = {}"
        "used_frames (kernel_pool s1) = used_frames (kernel_pool z) \<union> T"
        "used_frames (user_pool s1) = used_frames (user_pool z)" "table_frames s1 = table_frames z \<union> T"
        "\<forall>va'. PDE_IDX va' \<noteq> 1023 \<longrightarrow> translate s1 va' = (if same_cell z va va' then Some (f + page_off va') else translate z va')"
        "same_cell s1 = same_cell z" "\<forall>v. present (pmem z (dir_cell z v)) \<longrightarrow> present (pmem s1 (dir_cell s1 v))"
        "\<forall>a. frame a \<notin> table_frames s1 \<longrightarrow> pmem s1 a = pmem z a"
        by (rule page_table_add_spec [OF vz(1) va(1) un fa True])
      have sc: "same_cell s1 = same_cell s" using a(10) vz(3) by simp
      have run: "map_pages pf va (Suc n) s = map_pages pf (va + PG_SIZE) n s1"
        using p(1) fnz a(1) by (simp add: z_def)
      have A: "\<forall>i<n. PDE_IDX (pg (va + PG_SIZE) i) \<noteq> 1023 \<and> translate s1 (pg (va + PG_SIZE) i) = None"
      proof (intro allI impI)
        fix i assume "i < n"
        then have "PDE_IDX (pg va (Suc i)) \<noteq> 1023" "translate s (pg va (Suc i)) = None"
          "\<not> same_cell s (pg va 0) (pg va (Suc i))" using Suc.prems(2,3) by blast+
        then show "PDE_IDX (pg (va + PG_SIZE) i) \<noteq> 1023 \<and> translate s1 (pg (va + PG_SIZE) i) = None"
          unfolding pgS using a(9) vz(2,3) by simp
      qed
      have B: "\<forall>i<n. \<forall>j<n. i \<noteq> j \<longrightarrow> \<not> same_cell s1 (pg (va + PG_SIZE) i) (pg (va + PG_SIZE) j)"
        using Suc.prems(3) unfolding pgS sc by blast
      from Suc.IH [OF a(2) A B] show ?thesis
      proof (elim disjE conjE exE)
        fix s' fs T' assume m: "map_pages pf (va + PG_SIZE) n s1 = Inr (True, s')" "mapped pf (va + PG_SIZE) n s1 s' fs T'"
        have "mapped pf va (Suc n) s s' (f # fs) (T \<union> T')"
          by (rule mapped_step [OF pools p(1-4) sbz [unfolded z_def] z_def vz(3,2,4) a(3,4,6-11,5,12) zp vz(5) m(2) Suc.prems(3)])
        moreover have "map_pages pf va (Suc n) s = Inr (True, s')" using run m(1) by simp
        ultimately show ?thesis by blast
      next
        assume e: "map_pages pf (va + PG_SIZE) n s1 = Inl (Assert_fail ''bitmap_scan'')"
          and nn: "\<not> ((\<forall>i<n. present (pmem s1 (dir_cell s1 (pg (va + PG_SIZE) i)))) \<and> n \<le> card (free_frames (get_pool pf s1)))"
        have "\<not> ((\<forall>i<Suc n. present (pmem s (dir_cell s (pg va i)))) \<and> Suc n \<le> card (free_frames (get_pool pf s)))"
        proof
          assume y: "(\<forall>i<Suc n. present (pmem s (dir_cell s (pg va i)))) \<and> Suc n \<le> card (free_frames (get_pool pf s))"
          then have pr: "present (pmem z (dir_cell z va))" using zp vz(5) by force
          have "\<forall>i<n. present (pmem s1 (dir_cell s1 (pg va (Suc i))))" using y a(11) zp vz(5) by auto
          moreover have "free_frames (get_pool pf s1) = free_frames (get_pool pf s) - {f}"
          proof -
            have T: "T = {}" using a(5) pr by simp
            have "pool_frames (get_pool pf s1) = pool_frames (get_pool pf s)"
              using a(3) sbz by (simp add: same_but_pages_def)
            moreover have "used_frames (get_pool pf s1) = used_frames (get_pool pf z)"
              using a(6,7) T by (cases pf) (simp_all add: get_pool_def)
            moreover have "used_frames (get_pool pf z) = insert f (used_frames (get_pool pf s))" using p(3) by (simp add: z_def)
            ultimately show ?thesis by (auto simp: free_frames_def)
          qed
          then have "n \<le> card (free_frames (get_pool pf s1))" using conjunct2 [OF y] p(2) by (simp add: free_frames_def)
          ultimately show False using nn unfolding pgS by blast
        qed
        with e run show ?thesis by simp
      qed
    qed
  qed
qed

section \<open>Virtual pages\<close>

lemma set_run_spec:
  assumes "start + n \<le> 8 * length (bits b)" "v = 0 \<or> v = 1"
  shows "\<exists>b'. set_run b start n v = Inr b' \<and> (\<forall>j. bused b' j = (if start \<le> j \<and> j < start + n then v = 1 else bused b j))
    \<and> btmp_bytes_len b' = btmp_bytes_len b \<and> length (bits b') = length (bits b)"
  using assms(1)
proof (induction n arbitrary: b start)
  case 0
  then show ?case by auto
next
  case (Suc n)
  obtain b1 where b1: "bitmap_set b start v = Inr b1" "\<And>j. bused b1 j = (if j = start then v = 1 else bused b j)"
    "btmp_bytes_len b1 = btmp_bytes_len b" "length (bits b1) = length (bits b)"
    using bitmap_set_spec [of start b v] Suc.prems assms(2) by auto
  from Suc.IH [of "Suc start" b1] Suc.prems b1(4) obtain b' where
    "set_run b1 (Suc start) n v = Inr b'" "\<forall>j. bused b' j = (if Suc start \<le> j \<and> j < Suc start + n then v = 1 else bused b1 j)"
    "btmp_bytes_len b' = btmp_bytes_len b1" "length (bits b') = length (bits b1)" by auto
  with b1 show ?case by auto
qed

text \<open>
  A space of virtual pages: its bitmap is well formed, its pages lie below the self map, a
  page whose bit is clear is not mapped, and no two pages share a table cell.  The page of
  the bit behind the bitmap, which the scan may take, is included.
\<close>

definition vspace_ok :: "'a mmu_scheme \<Rightarrow> virtual_addr \<Rightarrow> bool" where
  "vspace_ok s v \<longleftrightarrow> bitmap_wf (vaddr_bitmap v) \<and> frame (vaddr_start v) = vaddr_start v \<and> vaddr_start v \<noteq> 0
     \<and> unat (vaddr_start v) + Suc (bcap (vaddr_bitmap v)) * 4096 \<le> 0xFFC00000
     \<and> (\<forall>i \<le> bcap (vaddr_bitmap v). \<not> bused (vaddr_bitmap v) i \<longrightarrow> translate s (pg (vaddr_start v) i) = None)
     \<and> (\<forall>i \<le> bcap (vaddr_bitmap v). \<forall>j \<le> bcap (vaddr_bitmap v). i \<noteq> j \<longrightarrow>
          \<not> same_cell s (pg (vaddr_start v) i) (pg (vaddr_start v) j))"

lemma pg_unat:
  assumes "unat va + i * 4096 < 2 ^ 32"
  shows "unat (pg va i) = unat va + i * 4096"
proof -
  have "pg va i = of_nat (unat va + i * 4096)" by (simp add: pg_def)
  then show ?thesis using assms by (simp only: unat_of_nat_u32)
qed

lemma PDE_IDX_below: "unat va < 0xFFC00000 \<Longrightarrow> PDE_IDX va \<noteq> 1023"
proof
  assume va: "unat va < 0xFFC00000" and "PDE_IDX va = 1023"
  then have "PDE_IDX va = mask 10" by (simp add: mask_eq_exp_minus_1)
  then have b: "bit va (22 + n)" if "n < 10" for n using that bit_PDE_IDX [of va n] by (simp add: bit_simps)
  have "va = push_bit 22 (mask 10) OR take_bit 22 va"
  proof (rule bit_word_eqI)
    fix n assume "n < LENGTH(32)"
    then show "bit va n = bit (push_bit 22 (mask 10) OR take_bit 22 va) n"
      using b [of "n - 22"] by (cases "n < 22") (auto simp: bit_simps)
  qed
  also have "\<dots> = push_bit 22 (mask 10) + take_bit 22 va"
    by (rule disjoint_add_or [symmetric]) (auto simp: bit_simps)
  finally have "va = 0xFFC00000 + take_bit 22 va" by (simp add: mask_eq_exp_minus_1 push_bit_eq_mult)
  moreover have "unat (take_bit 22 va) < 2 ^ 22"
    using take_bit_nat_less_exp [of 22 "unat va"] by (simp add: unsigned_take_bit_eq)
  ultimately have "unat va = 0xFFC00000 + unat (take_bit 22 va)"
    using unat_of_nat_u32 [of "0xFFC00000 + unat (take_bit 22 va)"] by simp
  with va show False by simp
qed

lemma vspace_page:
  assumes "vspace_ok s v" "i \<le> bcap (vaddr_bitmap v)"
  shows "PDE_IDX (pg (vaddr_start v) i) \<noteq> 1023" "unat (pg (vaddr_start v) i) = unat (vaddr_start v) + i * 4096"
    "pg (vaddr_start v) i \<noteq> 0"
proof -
  have b: "unat (vaddr_start v) + i * 4096 < 0xFFC00000" using assms by (simp add: vspace_ok_def)
  show u: "unat (pg (vaddr_start v) i) = unat (vaddr_start v) + i * 4096" by (rule pg_unat) (use b in simp)
  show "PDE_IDX (pg (vaddr_start v) i) \<noteq> 1023" by (rule PDE_IDX_below) (use u b in simp)
  have "unat (vaddr_start v) \<noteq> 0" using assms(1) by (simp add: vspace_ok_def unat_eq_zero)
  then have "unat (pg (vaddr_start v) i) \<noteq> 0" using u by linarith
  then show "pg (vaddr_start v) i \<noteq> 0" by (metis unat_eq_zero)
qed

text \<open>The virtual half of an allocation for the kernel.\<close>

lemma vaddr_get_kernel:
  assumes ok: "vspace_ok s (kernel_vaddr s)" and n: "0 < n"
    and space: "bset (vaddr_bitmap (kernel_vaddr s)) \<noteq> {..<bcap (vaddr_bitmap (kernel_vaddr s))}"
  defines "b \<equiv> vaddr_bitmap (kernel_vaddr s)"
  shows "vaddr_get PF_KERNEL n s = Inr (0, s) \<and> (\<forall>i. i + n \<le> Suc (bcap b) \<longrightarrow> \<not> free_run b i n)
    \<or> (\<exists>i b'. vaddr_get PF_KERNEL n s = Inr (pg (vaddr_start (kernel_vaddr s)) i, s\<lparr>kernel_vaddr := (kernel_vaddr s)\<lparr>vaddr_bitmap := b'\<rparr>\<rparr>)
        \<and> i < bcap b \<and> i + n \<le> Suc (bcap b) \<and> free_run b i n \<and> bitmap_wf b' \<and> btmp_bytes_len b' = btmp_bytes_len b
        \<and> (\<forall>j. bused b' j = (i \<le> j \<and> j < i + n \<or> bused b j)))"
proof -
  have wf: "bitmap_wf b" using ok by (simp add: vspace_ok_def b_def)
  from bitmap_scan_run_spec [OF wf n space [folded b_def]] show ?thesis
  proof (elim disjE conjE exE)
    assume "bitmap_scan b n = Inr (- 1)" "\<forall>s. s + n \<le> Suc (bcap b) \<longrightarrow> \<not> free_run b s n"
    then show ?thesis by (simp add: vaddr_get_def b_def)
  next
    fix i assume i: "bitmap_scan b n = Inr (int i)" "i + n \<le> Suc (bcap b)" "i < bcap b" "free_run b i n"
    have "i + n \<le> 8 * length (bits b)" using i(2) wf by (auto simp: bitmap_wf_def)
    then obtain b' where b': "set_run b i n 1 = Inr b'" "btmp_bytes_len b' = btmp_bytes_len b" "length (bits b') = length (bits b)"
      "\<forall>j. bused b' j = (if i \<le> j \<and> j < i + n then (1::int) = 1 else bused b j)"
      using set_run_spec [of i n b 1] by auto
    have "vaddr_get PF_KERNEL n s = Inr (pg (vaddr_start (kernel_vaddr s)) i, s\<lparr>kernel_vaddr := (kernel_vaddr s)\<lparr>vaddr_bitmap := b'\<rparr>\<rparr>)"
      using i(1) b'(1) by (simp add: vaddr_get_def b_def pg_def)
    moreover have "bitmap_wf b'" using wf b'(2,3) by (simp add: bitmap_wf_def)
    moreover have "\<forall>j. bused b' j = (i \<le> j \<and> j < i + n \<or> bused b j)" using b'(4) by auto
    ultimately show ?thesis using i(2-4) b'(2) by (intro disjI2 exI [of _ i] exI [of _ b'] conjI)
  qed
qed

text \<open>A complete allocation for the kernel.\<close>

lemma free_run_pages:
  assumes ok: "vspace_ok s v" and i: "i < bcap (vaddr_bitmap v)" "i + n \<le> Suc (bcap (vaddr_bitmap v))"
    "free_run (vaddr_bitmap v) i n"
  shows "\<forall>k<n. PDE_IDX (pg (pg (vaddr_start v) i) k) \<noteq> 1023 \<and> translate s (pg (pg (vaddr_start v) i) k) = None"
    "\<forall>k<n. \<forall>l<n. k \<noteq> l \<longrightarrow> \<not> same_cell s (pg (pg (vaddr_start v) i) k) (pg (pg (vaddr_start v) i) l)"
proof -
  have le: "i + k \<le> bcap (vaddr_bitmap v)" if "k < n" for k using i(2) that by simp
  have un: "\<not> bused (vaddr_bitmap v) (i + k)" if "k < n" for k using free_runD [OF i(3)] that by simp
  show "\<forall>k<n. PDE_IDX (pg (pg (vaddr_start v) i) k) \<noteq> 1023 \<and> translate s (pg (pg (vaddr_start v) i) k) = None"
    unfolding pg_pg using vspace_page(1) [OF ok le] le un ok by (auto simp: vspace_ok_def)
  show "\<forall>k<n. \<forall>l<n. k \<noteq> l \<longrightarrow> \<not> same_cell s (pg (pg (vaddr_start v) i) k) (pg (pg (vaddr_start v) i) l)"
    unfolding pg_pg using le ok by (auto simp: vspace_ok_def)
qed

lemma malloc_page_kernel:
  fixes s :: "'a kmem_scheme"
  assumes vm: "vm_ok s" and ok: "vspace_ok s (kernel_vaddr s)" and n: "0 < n" "n < 3840"
    and space: "bset (vaddr_bitmap (kernel_vaddr s)) \<noteq> {..<bcap (vaddr_bitmap (kernel_vaddr s))}"
  defines "b \<equiv> vaddr_bitmap (kernel_vaddr s)" and "v0 \<equiv> vaddr_start (kernel_vaddr s)"
  shows "malloc_page PF_KERNEL n s = Inr (0, s) \<and> (\<forall>i. i + n \<le> Suc (bcap b) \<longrightarrow> \<not> free_run b i n)
    \<or> malloc_page PF_KERNEL n s = Inl (Assert_fail ''bitmap_scan'')
        \<and> \<not> ((\<forall>i\<le>bcap b. present (pmem s (dir_cell s (pg v0 i)))) \<and> n \<le> card (free_frames (kernel_pool s)))
    \<or> (\<exists>i b' s1 s' fs T. malloc_page PF_KERNEL n s = Inr (pg v0 i, s')
        \<and> i < bcap b \<and> i + n \<le> Suc (bcap b) \<and> free_run b i n
        \<and> s1 = s\<lparr>kernel_vaddr := (kernel_vaddr s)\<lparr>vaddr_bitmap := b'\<rparr>\<rparr>
        \<and> bitmap_wf b' \<and> btmp_bytes_len b' = btmp_bytes_len b \<and> (\<forall>j. bused b' j = (i \<le> j \<and> j < i + n \<or> bused b j))
        \<and> mapped PF_KERNEL (pg v0 i) n s1 s' fs T)"
proof -
  from vaddr_get_kernel [OF ok n(1) space] show ?thesis
    unfolding b_def [symmetric] v0_def [symmetric]
  proof (elim disjE conjE exE)
    assume "vaddr_get PF_KERNEL n s = Inr (0, s)" "\<forall>i. i + n \<le> Suc (bcap b) \<longrightarrow> \<not> free_run b i n"
    then show ?thesis using n by (simp add: malloc_page_def)
  next
    fix i b'
    assume va: "vaddr_get PF_KERNEL n s = Inr (pg v0 i, s\<lparr>kernel_vaddr := (kernel_vaddr s)\<lparr>vaddr_bitmap := b'\<rparr>\<rparr>)"
      and i: "i < bcap b" "i + n \<le> Suc (bcap b)" "free_run b i n" and b': "bitmap_wf b'" "btmp_bytes_len b' = btmp_bytes_len b"
      "\<forall>j. bused b' j = (i \<le> j \<and> j < i + n \<or> bused b j)"
    define s1 where "s1 = s\<lparr>kernel_vaddr := (kernel_vaddr s)\<lparr>vaddr_bitmap := b'\<rparr>\<rparr>"
    have eq: "cr3 s1 = cr3 s" "pmem s1 = pmem s" by (simp_all add: s1_def)
    note pc = paging_cong [OF eq]
    have d: "dir_cell s1 = dir_cell s" by (simp add: dir_cell_def fun_eq_iff eq)
    have sc: "same_cell s1 = same_cell s" by (rule same_cell_cong) (simp add: d eq)
    have vm1: "vm_ok s1" using vm pc(5,6) by (simp add: vm_ok_def pools_ok_def s1_def)
    have nz: "pg v0 i \<noteq> 0" unfolding v0_def using vspace_page(3) [OF ok, of i] i(1) by (simp add: b_def)
    note fr = free_run_pages [OF ok, folded b_def v0_def, OF i]
    have run: "malloc_page PF_KERNEL n s = kbind (map_pages PF_KERNEL (pg v0 i) n s1) (\<lambda>(ok, s). Inr (if ok then pg v0 i else 0, s))"
      using n va nz by (simp add: malloc_page_def s1_def)
    have k1: "get_pool PF_KERNEL s1 = kernel_pool s" by (simp add: get_pool_def s1_def)
    have le: "k < n \<Longrightarrow> i + k \<le> bcap b" for k using i(2) by simp
    from map_pages_spec [OF vm1 fr [folded sc pc(1)], of PF_KERNEL] show ?thesis
    proof (elim disjE conjE exE)
      assume e: "map_pages PF_KERNEL (pg v0 i) n s1 = Inl (Assert_fail ''bitmap_scan'')"
        "\<not> ((\<forall>k<n. present (pmem s1 (dir_cell s1 (pg (pg v0 i) k)))) \<and> n \<le> card (free_frames (get_pool PF_KERNEL s1)))"
      then have "\<not> ((\<forall>i\<le>bcap b. present (pmem s (dir_cell s (pg v0 i)))) \<and> n \<le> card (free_frames (kernel_pool s)))"
        unfolding k1 pg_pg d eq(2) using le by blast
      with e(1) run show ?thesis by simp
    next
      fix s' fs T assume m: "map_pages PF_KERNEL (pg v0 i) n s1 = Inr (True, s')" "mapped PF_KERNEL (pg v0 i) n s1 s' fs T"
      then have "malloc_page PF_KERNEL n s = Inr (pg v0 i, s')" using run by simp
      with m(2) i b' s1_def show ?thesis by blast
    qed
  qed
qed

section \<open>Cleared pages\<close>

lemma memset_cells_append:
  "memset_cells va (m + n) s = kbind (memset_cells va m s) (memset_cells (va + of_nat m * 4) n)"
proof (induction m arbitrary: va s)
  case (Suc m)
  have "memset_cells va (Suc m + n) s
      = kbind (vwrite va 0 s) (\<lambda>s. kbind (memset_cells (va + 4) m s) (memset_cells (va + 4 + of_nat m * 4) n))"
    unfolding add_Suc memset_cells.simps by (rule kbind_cong) (simp_all only: Suc)
  then show ?case by (simp add: kbind_assoc algebra_simps)
qed simp

lemma memset_page:
  fixes s :: "'a mmu_scheme"
  assumes "frame va = va" "translate s va = Some f" "frame f = f" "f \<notin> table_frames s"
  shows "memset_cells va 1024 s = Inr (s\<lparr>pmem := \<lambda>a. if a \<in> page_cells f then 0 else pmem s a\<rparr>)"
proof -
  have T: "translate s1 (va + of_nat k * 4) = Some (f + of_nat k * 4)"
    if k: "k < 1024" and s1: "cr3 s1 = cr3 s" "\<forall>a. a \<notin> page_cells f \<longrightarrow> pmem s1 a = pmem s a" for s1 :: "'a mmu_scheme" and k
  proof -
    have "translate s1 = translate s"
      using s1 assms(4) frame_page_cells [OF assms(3)] by (intro translate_cong) auto
    moreover have fr: "frame (va + of_nat k * 4) = frame va" "page_off (va + of_nat k * 4) = of_nat k * 4"
      using frame_add_idx [OF cell_idx [OF k], of va] assms(1) by simp_all
    moreover have "page_off va = 0" using page_off_frame [of va] assms(1) by simp
    ultimately show ?thesis using translate_same_page(3) [OF fr(1), of s] assms(2)
      by (auto simp: translate_def split: if_splits)
  qed
  have "memset_cells va 1024 s = Inr (s\<lparr>pmem := \<lambda>a. if \<exists>k<1024. a = f + of_nat k * 4 then 0 else pmem s a\<rparr>)"
  proof (rule memset_cells_spec [where C = "page_cells f"])
    show "\<forall>k<1024. f + of_nat k * 4 \<in> page_cells f" by (simp add: page_cells_def)
  qed (rule T)
  moreover have "(\<exists>k<1024. a = f + of_nat k * 4) = (a \<in> page_cells f)" for a by (auto simp: page_cells_def)
  ultimately show ?thesis by simp
qed

lemma memset_pages:
  fixes s :: "'a mmu_scheme"
  assumes "\<forall>i<length fs. frame (pg va i) = pg va i \<and> translate s (pg va i) = Some (fs ! i) \<and> frame (fs ! i) = fs ! i"
    and "set fs \<inter> table_frames s = {}"
  shows "memset_cells va (length fs * 1024) s = Inr (s\<lparr>pmem := \<lambda>a. if \<exists>f\<in>set fs. a \<in> page_cells f then 0 else pmem s a\<rparr>)"
  using assms
proof (induction fs arbitrary: va s)
  case Nil
  then show ?case by simp
next
  case (Cons f fs)
  let ?s1 = "s\<lparr>pmem := \<lambda>a. if a \<in> page_cells f then 0 else pmem s a\<rparr>"
  have f: "frame va = va" "translate s va = Some f" "frame f = f" "f \<notin> table_frames s" using Cons.prems by force+
  have one: "memset_cells va 1024 s = Inr ?s1" by (rule memset_page [OF f])
  have c: "cr3 ?s1 = cr3 s" "\<And>a. frame a \<in> table_frames s \<Longrightarrow> pmem ?s1 a = pmem s a"
    using f(4) frame_page_cells [OF f(3)] by auto
  have "memset_cells (va + PG_SIZE) (length fs * 1024) ?s1
      = Inr (?s1\<lparr>pmem := \<lambda>a. if \<exists>f\<in>set fs. a \<in> page_cells f then 0 else pmem ?s1 a\<rparr>)"
  proof (rule Cons.IH)
    show "set fs \<inter> table_frames ?s1 = {}" using Cons.prems(2) translate_cong(3) [OF c] by simp
    have tr: "translate ?s1 = translate s" by (rule translate_cong [OF c])
    show "\<forall>i<length fs. frame (pg (va + PG_SIZE) i) = pg (va + PG_SIZE) i \<and> translate ?s1 (pg (va + PG_SIZE) i) = Some (fs ! i) \<and> frame (fs ! i) = fs ! i"
    proof (intro allI impI)
      fix i assume "i < length fs"
      then have "Suc i < length (f # fs)" by simp
      with Cons.prems(1) have "frame (pg va (Suc i)) = pg va (Suc i) \<and> translate s (pg va (Suc i)) = Some ((f # fs) ! Suc i)
          \<and> frame ((f # fs) ! Suc i) = (f # fs) ! Suc i" by blast
      then show "frame (pg (va + PG_SIZE) i) = pg (va + PG_SIZE) i \<and> translate ?s1 (pg (va + PG_SIZE) i) = Some (fs ! i) \<and> frame (fs ! i) = fs ! i"
        unfolding tr pg_step by simp
    qed
  qed
  moreover have "length (f # fs) * 1024 = 1024 + length fs * 1024" by simp
  moreover have "(\<lambda>a. if \<exists>g\<in>set fs. a \<in> page_cells g then 0 else pmem ?s1 a) = (\<lambda>a. if \<exists>g\<in>set (f # fs). a \<in> page_cells g then 0 else pmem s a)"
    by (rule ext) auto
  ultimately show ?case using one by (simp only: memset_cells_append) simp
qed

section \<open>Pages for the kernel\<close>

lemma acquire_pool_free:
  assumes "lock_free (pool_lock (get_pool pf s))" "running s \<noteq> 0"
  obtains l where "acquire_pool pf s = Inr (put_pool pf ((get_pool pf s)\<lparr>pool_lock := l\<rparr>) s)" "lock_held (running s) 1 l"
proof -
  obtain l where "lock_acquire (pool_lock (get_pool pf s)) s = Inr (l, s)" "lock_held (running s) 1 l"
    by (rule lock_acquire_free [OF assms])
  with that show thesis by (simp add: acquire_pool_def)
qed

lemma release_pool_held:
  assumes "lock_held (running s) 1 (pool_lock (get_pool pf s))"
  obtains l where "release_pool pf s = Inr (put_pool pf ((get_pool pf s)\<lparr>pool_lock := l\<rparr>) s)" "lock_free l"
proof -
  obtain l where "lock_release (pool_lock (get_pool pf s)) s = Inr (l, s)" "lock_free l"
    by (rule lock_release_held [OF assms])
  with that show thesis by (simp add: release_pool_def)
qed

text \<open>A change of a pool's lock is seen by nothing but the lock.\<close>

lemma pool_lock_irrelevant:
  fixes s :: "'a kmem_scheme" and pf :: pool_flags
  defines "z l \<equiv> put_pool pf ((get_pool pf s)\<lparr>pool_lock := l\<rparr>) s"
  shows "pool_bitmap (get_pool pf' (z l)) = pool_bitmap (get_pool pf' s)" "phy_addr_start (get_pool pf' (z l)) = phy_addr_start (get_pool pf' s)"
    "used_frames (get_pool pf' (z l)) = used_frames (get_pool pf' s)" "pool_frames (get_pool pf' (z l)) = pool_frames (get_pool pf' s)"
    "free_frames (get_pool pf' (z l)) = free_frames (get_pool pf' s)"
    "vm_ok (z l) = vm_ok s" "translate (z l) = translate s" "same_cell (z l) = same_cell s" "dir_cell (z l) = dir_cell s"
    "table_frames (z l) = table_frames s" "vspace_ok (z l) v = vspace_ok s v"
proof -
  have g: "get_pool pf' (z l) = (if pf' = pf then (get_pool pf s)\<lparr>pool_lock := l\<rparr> else get_pool pf' s)" for pf'
    by (simp add: z_def)
  have fr: "pool_frame (p\<lparr>pool_lock := l\<rparr>) = pool_frame p" for p by (simp add: pool_frame_def fun_eq_iff)
  show b: "pool_bitmap (get_pool pf' (z l)) = pool_bitmap (get_pool pf' s)" "phy_addr_start (get_pool pf' (z l)) = phy_addr_start (get_pool pf' s)"
    for pf' by (simp_all add: g)
  show u: "used_frames (get_pool pf' (z l)) = used_frames (get_pool pf' s)" "pool_frames (get_pool pf' (z l)) = pool_frames (get_pool pf' s)"
    for pf' by (simp_all add: g used_frames_def pool_frames_def fr)
  show f: "free_frames (get_pool pf' (z l)) = free_frames (get_pool pf' s)" for pf' by (simp add: free_frames_def u)
  have eq: "cr3 (z l) = cr3 s" "pmem (z l) = pmem s" by (simp_all add: z_def)
  note pc = paging_cong [OF eq]
  show t: "translate (z l) = translate s" "table_frames (z l) = table_frames s" using pc by simp_all
  show d: "dir_cell (z l) = dir_cell s" by (simp add: dir_cell_def fun_eq_iff eq)
  show sc: "same_cell (z l) = same_cell s" by (rule same_cell_cong) (simp add: d eq)
  show "vspace_ok (z l) v = vspace_ok s v" by (simp add: vspace_ok_def t sc)
  show "vm_ok (z l) = vm_ok s"
    using b [of PF_KERNEL] b [of PF_USER] f [of PF_KERNEL] f [of PF_USER] pc(6) t
    by (simp add: vm_ok_def pools_ok_def pool_wf_def get_pool_def)
qed

text \<open>
  The state in which the kernel asks for pages: the tables and pools are in order, the space
  of virtual pages matches the tables, the tables of the whole space exist (the loader makes
  them), and nobody holds the lock.
\<close>

definition kspace_ok :: "'a kmem_scheme \<Rightarrow> bool" where
  "kspace_ok s \<longleftrightarrow> vm_ok s \<and> vspace_ok s (kernel_vaddr s) \<and> running s \<noteq> 0
     \<and> (\<forall>i\<le>bcap (vaddr_bitmap (kernel_vaddr s)). present (pmem s (dir_cell s (pg (vaddr_start (kernel_vaddr s)) i))))"

definition kpages_ok :: "'a kmem_scheme \<Rightarrow> bool" where
  "kpages_ok s \<longleftrightarrow> kspace_ok s \<and> lock_free (pool_lock (kernel_pool s))"

text \<open>A mapped run of fresh frames keeps the description of the space right.\<close>

lemma vspace_ok_mapped:
  assumes ok: "vspace_ok s v" and i: "i + n \<le> Suc (bcap (vaddr_bitmap v))"
    and b': "bitmap_wf b'" "btmp_bytes_len b' = btmp_bytes_len (vaddr_bitmap v)"
      "\<forall>j. bused b' j = (i \<le> j \<and> j < i + n \<or> bused (vaddr_bitmap v) j)"
    and tr: "\<forall>va'. PDE_IDX va' \<noteq> 1023 \<longrightarrow> (\<forall>k<n. \<not> same_cell s (pg (pg (vaddr_start v) i) k) va') \<longrightarrow> translate s' va' = translate s va'"
    and sc: "same_cell s' = same_cell s"
  shows "vspace_ok s' (v\<lparr>vaddr_bitmap := b'\<rparr>)"
proof -
  let ?b = "vaddr_bitmap v" and ?v0 = "vaddr_start v"
  have "translate s' (pg ?v0 j) = None" if j: "j \<le> bcap ?b" "\<not> bused b' j" for j
  proof -
    have nb: "\<not> (i \<le> j \<and> j < i + n)" "\<not> bused ?b j" using b'(3) j(2) by auto
    have "\<not> same_cell s (pg (pg ?v0 i) k) (pg ?v0 j)" if "k < n" for k
    proof -
      have "i + k \<le> bcap ?b" "i + k \<noteq> j" using i that nb(1) by auto
      then show ?thesis unfolding pg_pg using ok j(1) by (simp add: vspace_ok_def)
    qed
    then have "translate s' (pg ?v0 j) = translate s (pg ?v0 j)" using tr vspace_page(1) [OF ok j(1)] by blast
    then show ?thesis using ok j(1) nb(2) by (simp add: vspace_ok_def)
  qed
  then show ?thesis using ok b'(1,2) by (simp add: vspace_ok_def sc)
qed

definition run_taken :: "nat \<Rightarrow> nat \<Rightarrow> virtual_addr \<Rightarrow> virtual_addr \<Rightarrow> bool" where
  "run_taken i n v v' \<longleftrightarrow> i + n \<le> Suc (bcap (vaddr_bitmap v)) \<and> free_run (vaddr_bitmap v) i n \<and> vaddr_start v' = vaddr_start v
     \<and> bcap (vaddr_bitmap v') = bcap (vaddr_bitmap v)
     \<and> (\<forall>j. bused (vaddr_bitmap v') j = (i \<le> j \<and> j < i + n \<or> bused (vaddr_bitmap v) j))"

text \<open>The pages a successful call returns.\<close>

definition fresh_pages :: "u32 \<Rightarrow> nat \<Rightarrow> u32 list \<Rightarrow> 'a kmem_scheme \<Rightarrow> 'a kmem_scheme \<Rightarrow> bool" where
  "fresh_pages va n fs s s' \<longleftrightarrow> va \<noteq> 0 \<and> frame va = va \<and> length fs = n \<and> distinct fs
     \<and> set fs \<subseteq> free_frames (kernel_pool s)
     \<and> used_frames (kernel_pool s') = used_frames (kernel_pool s) \<union> set fs
     \<and> used_frames (user_pool s') = used_frames (user_pool s)
     \<and> (\<forall>i<n. translate s (pg va i) = None \<and> translate s' (pg va i) = Some (fs ! i))
     \<and> (\<forall>va'. PDE_IDX va' \<noteq> 1023 \<longrightarrow> (\<forall>i<n. \<not> same_cell s (pg va i) va') \<longrightarrow> translate s' va' = translate s va')
     \<and> (\<exists>i. va = pg (vaddr_start (kernel_vaddr s)) i \<and> run_taken i n (kernel_vaddr s) (kernel_vaddr s'))
     \<and> table_frames s' = table_frames s \<and> phy_addr_start (kernel_pool s') = phy_addr_start (kernel_pool s)"

text \<open>The pages are cleared, and no other memory outside of the tables changes.\<close>

definition cleared_pages :: "u32 list \<Rightarrow> 'a kmem_scheme \<Rightarrow> 'a kmem_scheme \<Rightarrow> bool" where
  "cleared_pages fs s s' \<longleftrightarrow> (\<forall>f\<in>set fs. \<forall>a\<in>page_cells f. pmem s' a = 0)
     \<and> (\<forall>a. frame a \<notin> table_frames s \<longrightarrow> frame a \<notin> set fs \<longrightarrow> pmem s' a = pmem s a)"

lemma get_pool_pmem [simp]: "get_pool pf (s\<lparr>pmem := pm\<rparr>) = get_pool pf s"
  by (cases pf) (simp_all add: get_pool_def)

lemma malloc_page_success:
  fixes s :: "'a kmem_scheme"
  assumes vm: "vm_ok s" and vs: "vspace_ok s (kernel_vaddr s)" and n: "0 < n" "n < 3840"
    and run: "j + n \<le> bcap (vaddr_bitmap (kernel_vaddr s))" "free_run (vaddr_bitmap (kernel_vaddr s)) j n"
    and frames: "n \<le> card (free_frames (kernel_pool s))"
    and pres: "\<forall>i\<le>bcap (vaddr_bitmap (kernel_vaddr s)). present (pmem s (dir_cell s (pg (vaddr_start (kernel_vaddr s)) i)))"
  obtains va s' fs where "malloc_page PF_KERNEL n s = Inr (va, s')" "fresh_pages va n fs s s'" "vm_ok s'"
    "vspace_ok s' (kernel_vaddr s')" "table_frames s' = table_frames s" "pool_lock (kernel_pool s') = pool_lock (kernel_pool s)"
    "running s' = running s" "\<forall>v. present (pmem s (dir_cell s v)) \<longrightarrow> present (pmem s' (dir_cell s' v))"
    "\<forall>a. frame a \<notin> table_frames s \<longrightarrow> pmem s' a = pmem s a"
    "btmp_bytes_len (vaddr_bitmap (kernel_vaddr s')) = btmp_bytes_len (vaddr_bitmap (kernel_vaddr s))"
    "vaddr_start (kernel_vaddr s') = vaddr_start (kernel_vaddr s)"
proof -
  define b where "b = vaddr_bitmap (kernel_vaddr s)"
  define v0 where "v0 = vaddr_start (kernel_vaddr s)"
  have space: "bset b \<noteq> {..<bcap b}"
  proof
    assume "bset b = {..<bcap b}"
    moreover have "j < bcap b" "\<not> bused b j" using run n free_runD [of b j n j] by (auto simp: b_def)
    ultimately show False by (auto simp: bset_def)
  qed
  have "\<not> (\<forall>i. i + n \<le> Suc (bcap b) \<longrightarrow> \<not> free_run b i n)" using run b_def le_SucI by blast
  moreover have "(\<forall>i\<le>bcap b. present (pmem s (dir_cell s (pg v0 i)))) \<and> n \<le> card (free_frames (kernel_pool s))"
    using pres frames by (simp add: b_def v0_def)
  ultimately obtain i b' s1 s' fs T where m: "malloc_page PF_KERNEL n s = Inr (pg v0 i, s')"
    "i < bcap b" "i + n \<le> Suc (bcap b)" "free_run b i n" "s1 = s\<lparr>kernel_vaddr := (kernel_vaddr s)\<lparr>vaddr_bitmap := b'\<rparr>\<rparr>"
    "bitmap_wf b'" "btmp_bytes_len b' = btmp_bytes_len b" "\<forall>j. bused b' j = (i \<le> j \<and> j < i + n \<or> bused b j)"
    "mapped PF_KERNEL (pg v0 i) n s1 s' fs T"
    using malloc_page_kernel [OF vm vs n space [unfolded b_def]] unfolding b_def [symmetric] v0_def [symmetric] by blast
  have eq: "cr3 s1 = cr3 s" "pmem s1 = pmem s" by (simp_all add: m(5))
  note pc = paging_cong [OF eq]
  have d: "dir_cell s1 = dir_cell s" by (simp add: dir_cell_def fun_eq_iff eq)
  have sc: "same_cell s1 = same_cell s" by (rule same_cell_cong) (simp add: d eq)
  have pools: "kernel_pool s1 = kernel_pool s" "user_pool s1 = user_pool s" "running s1 = running s" by (simp_all add: m(5))
  have T: "T = {}" using m(9) pres m(3) unfolding mapped_def pg_pg d eq b_def [symmetric] v0_def [symmetric] by simp
  have sb: "same_but_pages s1 s'" using m(9) by (simp add: mapped_def)
  have kv: "kernel_vaddr s' = (kernel_vaddr s)\<lparr>vaddr_bitmap := b'\<rparr>" using same_but_pages_sel(4) [OF sb] by (simp add: m(5))
  have av: "frame (pg v0 i) = pg v0 i" using vs by (simp add: frame_pg vspace_ok_def v0_def)
  have po: "page_off (pg (pg v0 i) k) = 0" for k by (metis page_off_frame frame_pg [OF av])
  note fr = free_run_pages [OF vs, folded b_def v0_def, OF m(2-4)]
  have "fresh_pages (pg v0 i) n fs s s'"
  proof -
    have "run_taken i n (kernel_vaddr s) (kernel_vaddr s')" using m(3,4,7,8) by (simp add: run_taken_def kv b_def)
    moreover have "table_frames s' = table_frames s" using m(9) T pc(5) by (simp add: mapped_def)
    moreover have "phy_addr_start (kernel_pool s') = phy_addr_start (kernel_pool s)"
      using sb pools by (auto simp: same_but_pages_def get_pool_def dest!: spec [of _ PF_KERNEL])
    ultimately show ?thesis
      using m(9) T vspace_page(3) [OF vs, of i] m(2) av fr po unfolding fresh_pages_def mapped_def sc pools pc(1)
      by (auto simp: b_def v0_def get_pool_def pools)
  qed
  moreover have "vspace_ok s' (kernel_vaddr s')"
    unfolding kv using m(9) m(3,6-8) unfolding mapped_def sc pc(1)
    by (intro vspace_ok_mapped [OF vs, of i n]) (simp_all add: b_def v0_def)
  moreover have "pool_lock (kernel_pool s') = pool_lock (kernel_pool s)" "running s' = running s"
    using sb same_but_pages_sel(3) [OF sb] pools by (auto simp: same_but_pages_def get_pool_def dest!: spec [of _ PF_KERNEL])
  moreover have "table_frames s' = table_frames s" using m(9) T pc(5) by (simp add: mapped_def)
  moreover have "vm_ok s'" "\<forall>v. present (pmem s (dir_cell s v)) \<longrightarrow> present (pmem s' (dir_cell s' v))"
    "\<forall>a. frame a \<notin> table_frames s' \<longrightarrow> pmem s' a = pmem s a" using m(9) d eq by (simp_all add: mapped_def)
  ultimately show thesis using that [OF m(1), of fs] kv m(7) by (simp add: b_def)
qed

lemma get_kernel_pages_spec:
  fixes s :: "'a kmem_scheme"
  assumes ok: "kpages_ok s" and n: "0 < n" "n < 3840"
    and run: "j + n \<le> bcap (vaddr_bitmap (kernel_vaddr s))" "free_run (vaddr_bitmap (kernel_vaddr s)) j n"
    and frames: "n \<le> card (free_frames (kernel_pool s))"
  shows "\<exists>va s' fs. get_kernel_pages n s = Inr (va, s') \<and> fresh_pages va n fs s s' \<and> cleared_pages fs s s' \<and> kpages_ok s'"
proof -
  have lf: "lock_free (pool_lock (get_pool PF_KERNEL s))" "running s \<noteq> 0" using ok by (simp_all add: kpages_ok_def kspace_ok_def get_pool_def)
  obtain l where l: "acquire_pool PF_KERNEL s = Inr (put_pool PF_KERNEL ((get_pool PF_KERNEL s)\<lparr>pool_lock := l\<rparr>) s)"
    "lock_held (running s) 1 l" by (rule acquire_pool_free [OF lf])
  define z where "z = put_pool PF_KERNEL ((get_pool PF_KERNEL s)\<lparr>pool_lock := l\<rparr>) s"
  note Z = pool_lock_irrelevant [where pf = PF_KERNEL and s = s and l = l, folded z_def]
  have zk: "kernel_vaddr z = kernel_vaddr s" "pmem z = pmem s" "running z = running s" by (simp_all add: z_def)
  have zpool: "free_frames (kernel_pool z) = free_frames (kernel_pool s)" "used_frames (kernel_pool z) = used_frames (kernel_pool s)"
    "used_frames (user_pool z) = used_frames (user_pool s)" "pool_lock (kernel_pool z) = l"
    using Z(3,5) [of PF_KERNEL] Z(3) [of PF_USER] by (simp_all add: get_pool_def z_def put_pool_def)
  have vm: "vm_ok z" and vs: "vspace_ok z (kernel_vaddr z)" using ok Z zk by (simp_all add: kpages_ok_def kspace_ok_def)
  have pz: "\<forall>i\<le>bcap (vaddr_bitmap (kernel_vaddr z)). present (pmem z (dir_cell z (pg (vaddr_start (kernel_vaddr z)) i)))"
    using ok by (simp add: kpages_ok_def kspace_ok_def zk Z(9))
  obtain va s' fs where m: "malloc_page PF_KERNEL n z = Inr (va, s')" "fresh_pages va n fs z s'" "vm_ok s'"
    "vspace_ok s' (kernel_vaddr s')" "table_frames s' = table_frames z" "pool_lock (kernel_pool s') = pool_lock (kernel_pool z)"
    "running s' = running z" "\<forall>v. present (pmem z (dir_cell z v)) \<longrightarrow> present (pmem s' (dir_cell s' v))"
    "\<forall>a. frame a \<notin> table_frames z \<longrightarrow> pmem s' a = pmem z a"
    "btmp_bytes_len (vaddr_bitmap (kernel_vaddr s')) = btmp_bytes_len (vaddr_bitmap (kernel_vaddr z))"
    "vaddr_start (kernel_vaddr s') = vaddr_start (kernel_vaddr z)"
    by (rule malloc_page_success [OF vm vs n _ _ _ pz, of j]) (use run frames zpool zk in simp_all)
  have fresh: "va \<noteq> 0" "frame va = va" "length fs = n" "set fs \<subseteq> free_frames (kernel_pool s)"
    "\<forall>i<n. translate s' (pg va i) = Some (fs ! i)" using m(2) zpool(1) by (simp_all add: fresh_pages_def)
  have tab: "set fs \<inter> table_frames s' = {}" using fresh(4) vm m(5) zpool(1) by (auto simp: vm_ok_def)
  have pools: "pool_wf (kernel_pool s)" using ok by (simp add: kpages_ok_def kspace_ok_def vm_ok_def pools_ok_def)
  have fsa: "frame f = f" if "f \<in> set fs" for f
    using that fresh(4) pool_frame_aligned [OF pools] by (auto simp: free_frames_def pool_frames_def)
  let ?pm = "\<lambda>a. if \<exists>f\<in>set fs. a \<in> page_cells f then 0 else pmem s' a"
  have ms: "memset_cells va (n * 1024) s' = Inr (s'\<lparr>pmem := ?pm\<rparr>)"
    unfolding fresh(3) [symmetric]
  proof (rule memset_pages [OF _ tab], intro allI impI conjI)
    fix i assume i: "i < length fs"
    show "frame (pg va i) = pg va i" by (rule frame_pg [OF fresh(2)])
    show "translate s' (pg va i) = Some (fs ! i)" using fresh(3,5) i by blast
    show "frame (fs ! i) = fs ! i" by (rule fsa) (rule nth_mem [OF i])
  qed
  define s2 where "s2 = s'\<lparr>pmem := ?pm\<rparr>"
  have pcf: "frame a = f" if "f \<in> set fs" "a \<in> page_cells f" for f a by (rule frame_page_cells [OF fsa [OF that(1)] that(2)])
  have c1: "cr3 s2 = cr3 s'" by (simp add: s2_def)
  have c2: "pmem s2 a = pmem s' a" if "frame a \<in> table_frames s'" for a
  proof -
    have "a \<notin> page_cells f" if "f \<in> set fs" for f using pcf [OF that, of a] tab that \<open>frame a \<in> _\<close> by blast
    then show ?thesis by (simp add: s2_def)
  qed
  note c = c1 c2
  note tc = translate_cong [OF c]
  have s2k: "kernel_vaddr s2 = kernel_vaddr s'" "get_pool pf s2 = get_pool pf s'" "running s2 = running s'" for pf by (simp_all add: s2_def)
  have dc: "dir_cell s2 = dir_cell s'" by (simp add: dir_cell_def fun_eq_iff s2_def)
  have dv: "pmem s2 (dir_cell s2 v) = pmem s' (dir_cell s' v)" for v
    unfolding dc by (rule c) (simp add: table_frames_def)
  have sc2: "same_cell s2 = same_cell s'" by (rule same_cell_cong) (rule dv)
  have po2: "paging_ok s2" using m(3) tc(2) dv c(1) by (simp add: vm_ok_def paging_ok_def)
  have vm2: "vm_ok s2" using m(3) po2 tc(3) s2k(2) [of PF_KERNEL] s2k(2) [of PF_USER] by (simp add: vm_ok_def pools_ok_def get_pool_def)
  have vs2: "vspace_ok s2 (kernel_vaddr s2)" using m(4) by (simp add: vspace_ok_def s2k tc(1) sc2)
  have "lock_held (running s2) 1 (pool_lock (get_pool PF_KERNEL s2))"
    using l(2) m(6,7) zk(3) zpool(4) s2k(2) [of PF_KERNEL] by (simp add: s2k(3) get_pool_def)
  then obtain l' where l': "release_pool PF_KERNEL s2 = Inr (put_pool PF_KERNEL ((get_pool PF_KERNEL s2)\<lparr>pool_lock := l'\<rparr>) s2)" "lock_free l'"
    by (rule release_pool_held)
  define s3 where "s3 = put_pool PF_KERNEL ((get_pool PF_KERNEL s2)\<lparr>pool_lock := l'\<rparr>) s2"
  note Z3 = pool_lock_irrelevant [where pf = PF_KERNEL and s = s2 and l = l', folded s3_def]
  have s3k: "kernel_vaddr s3 = kernel_vaddr s'" "pmem s3 = ?pm" "running s3 = running s" "pool_lock (kernel_pool s3) = l'"
    using m(7) zk(3) by (simp_all add: s3_def s2_def put_pool_def)
  have s3p: "used_frames (kernel_pool s3) = used_frames (kernel_pool s')" "used_frames (user_pool s3) = used_frames (user_pool s')"
    using Z3(3) [of PF_KERNEL] Z3(3) [of PF_USER] s2k(2) [of PF_KERNEL] s2k(2) [of PF_USER] by (simp_all add: get_pool_def)
  have "get_kernel_pages n s = Inr (va, s3)"
    using l(1) m(1) fresh(1) ms l'(1) by (simp add: get_kernel_pages_def z_def [symmetric] s2_def [symmetric] s3_def [symmetric])
  moreover have "phy_addr_start (kernel_pool s3) = phy_addr_start (kernel_pool s')" "phy_addr_start (kernel_pool z) = phy_addr_start (kernel_pool s)"
    using Z3(2) [of PF_KERNEL] Z(2) [of PF_KERNEL] s2k(2) [of PF_KERNEL] by (simp_all add: get_pool_def)
  then have "fresh_pages va n fs s s3"
    using m(2) zpool tc(1,3) unfolding fresh_pages_def s3p Z3(7,10) Z(7,8,10) by (simp add: zk(1) s3k(1) s2k(1))
  moreover have "cleared_pages fs s s3"
    using m(9) pcf by (auto simp: cleared_pages_def s3k(2) Z(10) zk(2))
  moreover have "kpages_ok s3"
  proof -
    have "vm_ok s3" "vspace_ok s3 (kernel_vaddr s3)" using vm2 vs2 Z3(6,11) s3k(1) s2k(1) by simp_all
    moreover have "pmem s3 = pmem s2" by (simp add: s3_def)
    then have "\<forall>i\<le>bcap (vaddr_bitmap (kernel_vaddr s')). present (pmem s3 (dir_cell s3 (pg (vaddr_start (kernel_vaddr s')) i)))"
      using m(8,10,11) pz dv Z3(9) by simp
    ultimately show ?thesis using l'(2) s3k lf(2) by (simp add: kpages_ok_def kspace_ok_def)
  qed
  ultimately show ?thesis by blast
qed

section \<open>Freeing pages\<close>

lemma frame_mod: "frame f = f \<Longrightarrow> f mod PG_SIZE = 0"
proof -
  assume f: "frame f = f"
  have "f mod PG_SIZE = take_bit 12 f" by (simp add: take_bit_eq_mod)
  also have "\<dots> = 0"
    by (subst f [symmetric]) (auto intro!: bit_word_eqI simp: bit_simps bit_frame)
  finally show ?thesis .
qed

lemma not_present_removed: "\<not> present (v AND NOT PG_P_1)"
  by (simp add: present_def PG_P_1_def bit_simps)

text \<open>One page is unmapped: its frame goes back to the pool, its table entry loses the present bit.\<close>

lemma unmap_one:
  fixes s :: "'a kmem_scheme"
  assumes vm: "vm_ok s" and i: "PDE_IDX va \<noteq> 1023" and tr: "translate s va = Some f"
    and f: "f \<in> used_frames (get_pool pf s)" "f \<notin> table_frames s"
  obtains p' s' where "addr_v2p va s = Inr f" "pfree f s = Inr (put_pool pf p' s)"
    "page_table_pte_remove va (put_pool pf p' s) = Inr s'" "vm_ok s'" "same_but_pages s s'" "same_cell s' = same_cell s"
    "table_frames s' = table_frames s"
    "used_frames (get_pool pf s') = used_frames (get_pool pf s) - {f}"
    "\<forall>q. q \<noteq> pf \<longrightarrow> used_frames (get_pool q s') = used_frames (get_pool q s)"
    "\<forall>va'. PDE_IDX va' \<noteq> 1023 \<longrightarrow> translate s' va' = (if same_cell s va va' then None else translate s va')"
    "\<forall>a. frame a \<notin> table_frames s \<longrightarrow> pmem s' a = pmem s a"
    "\<forall>v. pmem s' (dir_cell s' v) = pmem s (dir_cell s v)"
proof -
  have po: "paging_ok s" and pools: "pools_ok s" using vm by (simp_all add: vm_ok_def)
  obtain p' where p': "pfree f s = Inr (put_pool pf p' s)" "used_frames p' = used_frames (get_pool pf s) - {f}"
    "pool_frames p' = pool_frames (get_pool pf s)" "phy_addr_start p' = phy_addr_start (get_pool pf s)"
    "pool_lock p' = pool_lock (get_pool pf s)" "pools_ok (put_pool pf p' s)"
    by (rule pfree_spec [OF pools f(1)])
  define z where "z = put_pool pf p' s"
  have eq: "cr3 z = cr3 s" "pmem z = pmem s" by (simp_all add: z_def)
  note pc = paging_cong [OF eq]
  have d: "dir_cell z = dir_cell s" by (simp add: dir_cell_def fun_eq_iff eq)
  have scz: "same_cell z = same_cell s" by (rule same_cell_cong) (simp add: d eq)
  have pz: "paging_ok z" "self_mapped z" using po pc paging_okD(1) by auto
  have pr: "present (pmem z (dir_cell z va))" using tr pc(1) by (auto simp: translate_def d eq split: if_splits)
  have tc: "frame (tab_cell z va) \<noteq> cr3 z" by (rule paging_ok_tab [OF pz(1) i pr])
  let ?c = "tab_cell z va"
  let ?v = "pmem z ?c AND NOT PG_P_1"
  let ?s' = "z\<lparr>pmem := (pmem z)(?c := ?v)\<rparr>"
  have rem: "page_table_pte_remove va z = Inr ?s'"
    using pr by (simp add: page_table_pte_remove_def Let_def vread_def vwrite_def pz(2))
  note S = translate_set_pte [OF pz(2) tc, of ?v]
  have dcv: "pmem ?s' (dir_cell ?s' v) = pmem z (dir_cell z v)" for v
  proof -
    have "dir_cell z v \<noteq> ?c" using tc frame_dir_cell [of z v] paging_okD(2) [OF pz(1)] by metis
    then show ?thesis by (simp add: dir_cell_def)
  qed
  have sc': "same_cell ?s' = same_cell s" using same_cell_cong [of ?s' z] dcv scz by simp
  have tf: "table_frames ?s' = table_frames s" using S(2) pc(5) by simp
  have sb: "same_but_pages s ?s'"
    unfolding z_def by (rule same_but_pages_pool) (use p' in simp_all)
  have gp: "get_pool q z = (if q = pf then p' else get_pool q s)" for q by (simp add: z_def)
  have "free_frames (get_pool q ?s') \<subseteq> insert f (free_frames (get_pool q s))" for q
    using p'(2,3) by (auto simp: gp free_frames_def)
  from this [of PF_KERNEL] this [of PF_USER] have "table_frames ?s' \<inter> (free_frames (kernel_pool ?s') \<union> free_frames (user_pool ?s')) = {}"
    using vm f(2) tf by (auto simp: vm_ok_def get_pool_def)
  moreover have "pools_ok ?s'" using p'(6) by (simp add: pools_ok_def z_def)
  ultimately have vm': "vm_ok ?s'" using set_pte_paging_ok [OF pz(1) tc] by (simp add: vm_ok_def)
  have tr': "translate ?s' va' = (if same_cell s va va' then None else translate s va')" for va'
  proof -
    have "same_cell s va va' \<longleftrightarrow> present (pmem z (dir_cell z va')) \<and> tab_cell z va' = ?c"
      using pr translate_same_page [of va va' z] unfolding scz [symmetric] by (auto simp: same_cell_def)
    then show ?thesis using S(3) [of va'] not_present_removed pc(1) by simp
  qed
  have "frame ?c \<in> table_frames s" using pr pc(5) unfolding frame_tab_cell by (auto simp: table_frames_def)
  then have same: "\<forall>a. frame a \<notin> table_frames s \<longrightarrow> pmem ?s' a = pmem s a" by (auto simp: eq)
  have va: "addr_v2p va s = Inr f" by (rule addr_v2p_translate [OF paging_okD(1) [OF po] tr])
  show thesis
    by (rule that [OF va p'(1) rem [unfolded z_def] vm' [unfolded z_def] sb [unfolded z_def] sc' [unfolded z_def] tf [unfolded z_def]])
      (use gp tr' same p'(2) dcv [unfolded d eq] z_def in auto)
qed

definition unmapped :: "pool_flags \<Rightarrow> u32 \<Rightarrow> u32 list \<Rightarrow> 'a kmem_scheme \<Rightarrow> 'a kmem_scheme \<Rightarrow> bool" where
  "unmapped pf va fs s s' \<longleftrightarrow> vm_ok s' \<and> same_but_pages s s' \<and> same_cell s' = same_cell s \<and> table_frames s' = table_frames s
     \<and> used_frames (get_pool pf s') = used_frames (get_pool pf s) - set fs
     \<and> (\<forall>q. q \<noteq> pf \<longrightarrow> used_frames (get_pool q s') = used_frames (get_pool q s))
     \<and> (\<forall>va'. PDE_IDX va' \<noteq> 1023 \<longrightarrow>
          translate s' va' = (if \<exists>i<length fs. same_cell s (pg va i) va' then None else translate s va'))
     \<and> (\<forall>a. frame a \<notin> table_frames s \<longrightarrow> pmem s' a = pmem s a)
     \<and> (\<forall>v. pmem s' (dir_cell s' v) = pmem s (dir_cell s v))"

lemma unmap_pages_spec:
  fixes s :: "'a kmem_scheme"
  assumes "vm_ok s" "\<forall>i<length fs. PDE_IDX (pg va i) \<noteq> 1023 \<and> translate s (pg va i) = Some (fs ! i)" "distinct fs"
    "set fs \<subseteq> used_frames (get_pool pf s)" "set fs \<inter> table_frames s = {}" "\<forall>f\<in>set fs. in_range f"
    "\<forall>i<length fs. \<forall>j<length fs. i \<noteq> j \<longrightarrow> \<not> same_cell s (pg va i) (pg va j)"
  shows "\<exists>s'. unmap_pages in_range va (length fs) s = Inr s' \<and> unmapped pf va fs s s'"
  using assms
proof (induction fs arbitrary: va s)
  case Nil
  then show ?case by (simp add: unmapped_def)
next
  case (Cons f fs)
  have h: "PDE_IDX va \<noteq> 1023" "translate s va = Some f" using Cons.prems(2) by auto
  have f: "f \<in> used_frames (get_pool pf s)" "f \<notin> table_frames s" "in_range f" using Cons.prems(4-6) by auto
  have al: "f mod PG_SIZE = 0"
    using f(1) pools_ok_get [of s pf] Cons.prems(1) pool_frame_aligned frame_mod by (auto simp: used_frames_def vm_ok_def)
  obtain p' s1 where u: "addr_v2p va s = Inr f" "pfree f s = Inr (put_pool pf p' s)"
    "page_table_pte_remove va (put_pool pf p' s) = Inr s1" "vm_ok s1" "same_but_pages s s1" "same_cell s1 = same_cell s"
    "table_frames s1 = table_frames s"
    "used_frames (get_pool pf s1) = used_frames (get_pool pf s) - {f}"
    "\<forall>q. q \<noteq> pf \<longrightarrow> used_frames (get_pool q s1) = used_frames (get_pool q s)"
    "\<forall>va'. PDE_IDX va' \<noteq> 1023 \<longrightarrow> translate s1 va' = (if same_cell s va va' then None else translate s va')"
    "\<forall>a. frame a \<notin> table_frames s \<longrightarrow> pmem s1 a = pmem s a"
    "\<forall>v. pmem s1 (dir_cell s1 v) = pmem s (dir_cell s v)"
    by (rule unmap_one [OF Cons.prems(1) h f(1,2)])
  have nc: "\<not> same_cell s va (pg va (Suc i))" if "i < length fs" for i
    using Cons.prems(7) that by (metis Suc_less_eq length_Cons nat.distinct(1) pg_0 zero_less_Suc)
  have "\<exists>s'. unmap_pages in_range (va + PG_SIZE) (length fs) s1 = Inr s' \<and> unmapped pf (va + PG_SIZE) fs s1 s'"
  proof (rule Cons.IH [OF u(4)])
    show "\<forall>i<length fs. PDE_IDX (pg (va + PG_SIZE) i) \<noteq> 1023 \<and> translate s1 (pg (va + PG_SIZE) i) = Some (fs ! i)"
      using Cons.prems(2) u(10) nc by fastforce
    show "\<forall>i<length fs. \<forall>j<length fs. i \<noteq> j \<longrightarrow> \<not> same_cell s1 (pg (va + PG_SIZE) i) (pg (va + PG_SIZE) j)"
      using Cons.prems(7) by (auto simp: u(6))
  qed (use Cons.prems u(7,8) in auto)
  then obtain s' where s': "unmap_pages in_range (va + PG_SIZE) (length fs) s1 = Inr s'" "unmapped pf (va + PG_SIZE) fs s1 s'"
    by blast
  have "unmapped pf va (f # fs) s s'"
    using s'(2) u(5-12) same_but_pages_trans [OF u(5)]
    by (auto simp: unmapped_def less_Suc_eq_0_disj)
  then show ?case using u(1-3) s'(1) al f(3) by (simp add: kassert_def)
qed

text \<open>
  \<open>freed_pages\<close>: the frames are back in the kernel's pool, the pages are not mapped any more,
  nothing else changes outside of the tables.
\<close>

definition freed_pages :: "u32 \<Rightarrow> u32 list \<Rightarrow> 'a kmem_scheme \<Rightarrow> 'a kmem_scheme \<Rightarrow> bool" where
  "freed_pages va fs s s' \<longleftrightarrow>
     used_frames (kernel_pool s') = used_frames (kernel_pool s) - set fs
     \<and> used_frames (user_pool s') = used_frames (user_pool s)
     \<and> (\<forall>i<length fs. translate s' (pg va i) = None)
     \<and> (\<forall>va'. PDE_IDX va' \<noteq> 1023 \<longrightarrow> (\<forall>i<length fs. \<not> same_cell s (pg va i) va') \<longrightarrow> translate s' va' = translate s va')
     \<and> (\<forall>a. frame a \<notin> table_frames s \<longrightarrow> pmem s' a = pmem s a) \<and> table_frames s' = table_frames s"

lemma pg_index:
  assumes "i * 4096 < 2 ^ 32"
  shows "unat ((pg v0 i - v0) div PG_SIZE) = i"
proof -
  have "pg v0 i - v0 = of_nat (i * 4096)" by (simp add: pg_def)
  then have "unat (pg v0 i - v0) = i * 4096" using unat_of_nat_u32 [OF assms] by simp
  then show ?thesis by (simp add: unat_div_distrib)
qed

lemma mfree_page_space:
  fixes s :: "'a kmem_scheme"
  assumes ok: "kspace_ok s" and i: "i + length fs \<le> Suc (bcap (vaddr_bitmap (kernel_vaddr s)))" and n: "fs \<noteq> []"
    and va: "va = pg (vaddr_start (kernel_vaddr s)) i" and tr: "\<forall>k<length fs. translate s (pg va k) = Some (fs ! k)"
    and fs: "distinct fs" "set fs \<subseteq> used_frames (kernel_pool s)" "set fs \<inter> table_frames s = {}"
    and lo: "0x102000 \<le> phy_addr_start (kernel_pool s)"
  shows "\<exists>s'. mfree_page PF_KERNEL va (length fs) s = Inr s' \<and> freed_pages va fs s s' \<and> kspace_ok s'
    \<and> pool_lock (kernel_pool s') = pool_lock (kernel_pool s) \<and> phy_addr_start (kernel_pool s') = phy_addr_start (kernel_pool s)
    \<and> vaddr_start (kernel_vaddr s') = vaddr_start (kernel_vaddr s) \<and> bcap (vaddr_bitmap (kernel_vaddr s')) = bcap (vaddr_bitmap (kernel_vaddr s))
    \<and> (\<forall>j. bused (vaddr_bitmap (kernel_vaddr s')) j = (bused (vaddr_bitmap (kernel_vaddr s)) j \<and> \<not> (i \<le> j \<and> j < i + length fs)))"
proof -
  define v where "v = kernel_vaddr s"
  define b where "b = vaddr_bitmap v"
  have vm: "vm_ok s" and vs: "vspace_ok s v" using ok by (simp_all add: kspace_ok_def v_def)
  have pools: "pools_ok s" and po: "paging_ok s" using vm by (simp_all add: vm_ok_def)
  have va: "va = pg (vaddr_start v) i" by (simp add: va v_def)
  have le: "i + k \<le> bcap b" if "k < length fs" for k using i that by (simp add: b_def v_def)
  have rng: "phy_addr_start (kernel_pool s) \<le> f" "f < phy_addr_start (user_pool s)" "f mod PG_SIZE = 0" if "f \<in> set fs" for f
  proof -
    have f: "f \<in> pool_frames (kernel_pool s)" and wf: "pool_wf (kernel_pool s)"
      using that fs(2) used_frames_subset pools by (auto simp: pools_ok_def)
    show "phy_addr_start (kernel_pool s) \<le> f" using pool_frame_ge [OF wf f] by simp
    show "f < phy_addr_start (user_pool s)" using pool_frame_less [OF wf f] pools by (simp add: pools_ok_def word_less_nat_alt)
    show "f mod PG_SIZE = 0" using f pool_frame_aligned [OF wf] frame_mod by (auto simp: pool_frames_def)
  qed
  let ?rng = "\<lambda>p. phy_addr_start (kernel_pool s) \<le> p \<and> p < phy_addr_start (user_pool s)"
  have nc: "\<forall>k<length fs. \<forall>l<length fs. k \<noteq> l \<longrightarrow> \<not> same_cell s (pg va k) (pg va l)"
    using vs le by (auto simp: va vspace_ok_def b_def)
  have pd: "\<forall>k<length fs. PDE_IDX (pg va k) \<noteq> 1023 \<and> translate s (pg va k) = Some (fs ! k)"
    using vspace_page(1) [OF vs] le tr by (auto simp: va b_def)
  obtain s1 where s1: "unmap_pages ?rng va (length fs) s = Inr s1" "unmapped PF_KERNEL va fs s s1"
    using unmap_pages_spec [OF vm pd fs(1) _ fs(3) _ nc, of PF_KERNEL ?rng] fs(2) rng by (auto simp: get_pool_def)
  have sb: "same_but_pages s s1" and sc: "same_cell s1 = same_cell s" using s1(2) by (simp_all add: unmapped_def)
  have k1: "kernel_vaddr s1 = v" using same_but_pages_sel(4) [OF sb] by (simp add: v_def)
  obtain f fs' where f: "fs = f # fs'" using n by (cases fs) auto
  have hd: "addr_v2p va s = Inr f" by (rule addr_v2p_translate [OF paging_okD(1) [OF po]]) (use tr f in force)
  have "frame va = va" using vs by (simp add: va frame_pg vspace_ok_def)
  then have al: "va mod PG_SIZE = 0" by (rule frame_mod)
  have wf: "bitmap_wf b" using vs by (simp add: vspace_ok_def b_def)
  have "i + length fs \<le> 8 * length (bits b)" using i wf by (auto simp: bitmap_wf_def b_def v_def)
  then obtain b' where b': "set_run b i (length fs) 0 = Inr b'" "btmp_bytes_len b' = btmp_bytes_len b" "length (bits b') = length (bits b)"
    "\<forall>j. bused b' j = (if i \<le> j \<and> j < i + length fs then (0::int) = 1 else bused b j)"
    using set_run_spec [of i "length fs" b 0] by auto
  have "i * 4096 < 2 ^ 32" using le [of 0] vs f by (auto simp: vspace_ok_def b_def)
  then have vr: "vaddr_remove PF_KERNEL va (length fs) s1 = Inr (s1\<lparr>kernel_vaddr := v\<lparr>vaddr_bitmap := b'\<rparr>\<rparr>)"
    using b'(1) by (simp add: vaddr_remove_def k1 va pg_index b_def)
  define s' where "s' = s1\<lparr>kernel_vaddr := v\<lparr>vaddr_bitmap := b'\<rparr>\<rparr>"
  have mf: "mfree_page PF_KERNEL va (length fs) s = Inr s'"
    using hd al rng [of f] lo s1(1) vr n by (auto simp: mfree_page_def f s'_def kassert_def Suc_le_eq)
  have eq: "cr3 s' = cr3 s1" "pmem s' = pmem s1" "kernel_pool s' = kernel_pool s1" "user_pool s' = user_pool s1"
    "running s' = running s1" by (simp_all add: s'_def)
  note pc = paging_cong [OF eq(1,2)]
  have d: "dir_cell s' = dir_cell s1" by (simp add: dir_cell_def fun_eq_iff eq)
  have sc': "same_cell s' = same_cell s" using same_cell_cong [of s' s1] sc by (simp add: d eq)
  have fp: "freed_pages va fs s s'"
    using s1(2) pd unfolding unmapped_def freed_pages_def eq pc(1) pc(5) by (auto simp: get_pool_def split: if_splits)
  have "vspace_ok s' (v\<lparr>vaddr_bitmap := b'\<rparr>)"
  proof -
    have "translate s' (pg (vaddr_start v) j) = None" if j: "j \<le> bcap b" "\<not> bused b' j" for j
    proof (cases "i \<le> j \<and> j < i + length fs")
      case True
      then have "pg (vaddr_start v) j = pg va (j - i)" "j - i < length fs" by (auto simp: va)
      then show ?thesis using fp by (simp add: freed_pages_def)
    next
      case False
      then have "\<not> bused b j" using b'(4) j(2) by (auto split: if_splits)
      then have "translate s (pg (vaddr_start v) j) = None" using vs j(1) by (simp add: vspace_ok_def b_def)
      then show ?thesis using s1(2) vspace_page(1) [OF vs] j(1) unfolding pc(1) by (auto simp: unmapped_def b_def)
    qed
    then show ?thesis using vs wf b'(2,3) unfolding vspace_ok_def sc' by (simp add: b_def bitmap_wf_def)
  qed
  moreover have "vm_ok s1" using s1(2) by (simp add: unmapped_def)
  then have "vm_ok s'" using pc(5,6) unfolding vm_ok_def pools_ok_def eq by simp
  moreover have lk: "pool_lock (kernel_pool s') = pool_lock (kernel_pool s)" "running s' = running s"
      "phy_addr_start (kernel_pool s') = phy_addr_start (kernel_pool s)"
    using sb same_but_pages_sel(3) [OF sb] eq by (auto simp: same_but_pages_def get_pool_def dest!: spec [of _ PF_KERNEL])
  ultimately have "kspace_ok s'"
    using ok s1(2) b'(2) unfolding kspace_ok_def d eq unmapped_def by (simp add: s'_def v_def b_def)
  then show ?thesis using mf fp b'(2,4) lk by (intro exI [of _ s']) (auto simp: s'_def b_def v_def)
qed

lemma mfree_page_spec:
  fixes s :: "'a kmem_scheme"
  assumes ok: "kpages_ok s" and "i + length fs \<le> Suc (bcap (vaddr_bitmap (kernel_vaddr s)))" "fs \<noteq> []"
    "va = pg (vaddr_start (kernel_vaddr s)) i" "\<forall>k<length fs. translate s (pg va k) = Some (fs ! k)"
    "distinct fs" "set fs \<subseteq> used_frames (kernel_pool s)" "set fs \<inter> table_frames s = {}" "0x102000 \<le> phy_addr_start (kernel_pool s)"
  shows "\<exists>s'. mfree_page PF_KERNEL va (length fs) s = Inr s' \<and> freed_pages va fs s s' \<and> kpages_ok s'
    \<and> (\<forall>j. bused (vaddr_bitmap (kernel_vaddr s')) j = (bused (vaddr_bitmap (kernel_vaddr s)) j \<and> \<not> (i \<le> j \<and> j < i + length fs)))"
proof -
  have "kspace_ok s" using ok by (simp add: kpages_ok_def)
  from mfree_page_space [OF this assms(2-)] show ?thesis using ok by (auto simp: kpages_ok_def)
qed

section \<open>The pools after the start\<close>

lemma three_bitmaps:
  assumes "2 * k + u < length bmem"
  defines "z \<equiv> replicate (2 * k + u) 0 @ drop (2 * k + u) bmem"
  shows "kbind (bitmap_init \<lparr>btmp_bytes_len = k, bits = bmem\<rparr>) (\<lambda>kb. let bmem = bits kb in
      kbind (bitmap_init \<lparr>btmp_bytes_len = u, bits = drop k bmem\<rparr>) (\<lambda>ub. let bmem = take k bmem @ bits ub in
      kbind (bitmap_init \<lparr>btmp_bytes_len = k, bits = drop (k + u) bmem\<rparr>) (\<lambda>vb.
        let bmem = take (k + u) bmem @ bits vb in F bmem))) = F z"
proof -
  have "2 * k + u = k + (u + k)" by simp
  then have "z = replicate k 0 @ replicate u 0 @ replicate k 0 @ drop (k + (u + k)) bmem"
    unfolding z_def by (simp only: replicate_add append_assoc)
  moreover have "k \<le> length bmem" "u \<le> length bmem - k" "k \<le> length bmem - (k + u)" using assms(1) by auto
  ultimately show ?thesis by (simp add: bitmap_init_def Let_def add.assoc add.commute add.left_commute)
qed

lemma zero_bytes_unused:
  assumes "take n bs = replicate n 0"
  shows "bset \<lparr>btmp_bytes_len = n, bits = bs\<rparr> = {}"
proof -
  have "bs ! i = 0" if "i < n" for i using assms that by (metis nth_replicate nth_take)
  then show ?thesis by (auto simp: bset_def bused_def div_less_iff_less_mult)
qed

definition free_page_count :: "u32 \<Rightarrow> nat" where
  "free_page_count all_mem = (unat all_mem - 0x200000) div 4096 mod 65536"

lemma mem_pool_init_spec:
  fixes s :: "'a kmem_scheme"
  assumes mem: "0x200000 \<le> all_mem" and m: "m = free_page_count all_mem"
    and bm: "2 * (m div 2 div 8) + (m - m div 2) div 8 < length bmem"
  obtains kp up kv where "mem_pool_init all_mem bmem s = Inr (s\<lparr>kernel_pool := kp, user_pool := up, kernel_vaddr := kv\<rparr>)"
    "pools_ok (s\<lparr>kernel_pool := kp, user_pool := up, kernel_vaddr := kv\<rparr>)"
    "used_frames kp = {}" "used_frames up = {}" "bset (vaddr_bitmap kv) = {}" "bitmap_wf (vaddr_bitmap kv)"
    "bcap (pool_bitmap kp) = m div 2 div 8 * 8" "bcap (pool_bitmap up) = (m - m div 2) div 8 * 8"
    "bcap (vaddr_bitmap kv) = m div 2 div 8 * 8" "vaddr_start kv = K_HEAP_START"
    "unat (phy_addr_start kp) = 0x200000" "unat (phy_addr_start up) = 0x200000 + m div 2 * 4096"
    "lock_free (pool_lock kp)" "lock_free (pool_lock up)"
proof -
  let ?k = "m div 2 div 8" and ?u = "(m - m div 2) div 8"
  let ?all = "ucast ((all_mem - 0x200000) div PG_SIZE) :: u16"
  have d: "unat (all_mem - 0x200000) = unat all_mem - 0x200000" using mem by (simp add: unat_sub)
  have a: "unat ?all = m"
    using d by (simp add: m free_page_count_def unsigned_ucast_eq unsigned_take_bit_eq take_bit_eq_mod unat_div_distrib)
  have kf: "unat (?all div 2) = m div 2" by (simp add: unat_div_distrib a)
  then have "?all div 2 \<le> ?all" using a by (simp add: word_le_nat_alt)
  then have uf: "unat (?all - ?all div 2) = m - m div 2" by (simp add: unat_sub a kf)
  have len: "unat (?all div 2 div 8) = ?k" "unat ((?all - ?all div 2) div 8) = ?u" by (simp_all add: unat_div_distrib a uf)
  have lt: "m < 65536" by (simp add: m free_page_count_def)
  have uc: "(ucast (?all div 2) :: u32) = of_nat (m div 2)" by (metis kf of_nat_unat)
  define z where "z = replicate (2 * ?k + ?u) 0 @ drop (2 * ?k + ?u) bmem"
  define kp where "kp = \<lparr>pool_bitmap = \<lparr>btmp_bytes_len = ?k, bits = z\<rparr>, phy_addr_start = 0x200000,
    pool_size = of_nat (m div 2) * PG_SIZE, pool_lock = lock_init\<rparr>"
  define up where "up = \<lparr>pool_bitmap = \<lparr>btmp_bytes_len = ?u, bits = drop ?k z\<rparr>, phy_addr_start = 0x200000 + of_nat (m div 2) * PG_SIZE,
    pool_size = ucast (?all - ?all div 2) * PG_SIZE, pool_lock = lock_init\<rparr>"
  define kv where "kv = \<lparr>vaddr_bitmap = \<lparr>btmp_bytes_len = ?k, bits = drop (?k + ?u) z\<rparr>, vaddr_start = K_HEAP_START\<rparr>"
  have "mem_pool_init all_mem bmem s = Inr (s\<lparr>kernel_pool := kp, user_pool := up, kernel_vaddr := kv\<rparr>)"
    using three_bitmaps [OF bm, where F = "\<lambda>z. Inr (s\<lparr>kernel_pool := \<lparr>pool_bitmap = \<lparr>btmp_bytes_len = ?k, bits = z\<rparr>, phy_addr_start = 0x200000,
        pool_size = of_nat (m div 2) * PG_SIZE, pool_lock = lock_init\<rparr>, user_pool := \<lparr>pool_bitmap = \<lparr>btmp_bytes_len = ?u, bits = drop ?k z\<rparr>,
        phy_addr_start = 0x200000 + of_nat (m div 2) * PG_SIZE, pool_size = ucast (?all - ?all div 2) * PG_SIZE, pool_lock = lock_init\<rparr>,
        kernel_vaddr := \<lparr>vaddr_bitmap = \<lparr>btmp_bytes_len = ?k, bits = drop (?k + ?u) z\<rparr>, vaddr_start = K_HEAP_START\<rparr>\<rparr>)"]
    by (simp add: mem_pool_init_def Let_def len uc kp_def up_def kv_def z_def)
  moreover have lz: "length z = length bmem" using bm by (simp add: z_def)
  have wf: "bitmap_wf (pool_bitmap kp)" "bitmap_wf (pool_bitmap up)" "bitmap_wf (vaddr_bitmap kv)"
    using bm by (simp_all add: kp_def up_def kv_def bitmap_wf_def lz) linarith+
  have t: "take ?k z = replicate ?k 0" "take ?u (drop ?k z) = replicate ?u 0" "take ?k (drop (?k + ?u) z) = replicate ?k 0"
    by (simp_all add: z_def)
  then have "used_frames kp = {}" "used_frames up = {}" "bset (vaddr_bitmap kv) = {}"
    by (simp_all add: used_frames_def kp_def up_def kv_def zero_bytes_unused)
  moreover have us: "unat (phy_addr_start up) = 0x200000 + m div 2 * 4096"
  proof -
    have "phy_addr_start up = of_nat (0x200000 + m div 2 * 4096)" by (simp add: up_def)
    then show ?thesis using lt unat_of_nat_u32 [of "0x200000 + m div 2 * 4096"] by simp
  qed
  moreover have "frame (phy_addr_start up) = phy_addr_start up"
    using frame_mult_add [where x = "0x200000" and i = "m div 2"] by (simp add: up_def frame_def add.commute)
  moreover have "phy_addr_start up \<noteq> 0" using us by (metis add_is_0 unat_0 zero_neq_numeral)
  moreover have "m div 2 div 8 \<le> 131008" "m div 2 * 4096 + 32768 * ((m - m div 2) div 8) \<le> 4292870144"
    using lt by auto
  ultimately show thesis using that [where kp = kp and up = up and kv = kv] wf
    by (simp add: pools_ok_def pool_wf_def kp_def up_def kv_def frame_def lock_init_def sema_init_def lock_free_def)
qed

section \<open>Properties\<close>

text \<open>
  A small machine for the examples: a directory at 1 MB with the kernel's table behind it,
  two pools of eight frames, and a kernel heap of eight pages.
\<close>

definition small_kmem :: kmem where
  "small_kmem = \<lparr>cr3 = 0x100000, pmem = (\<lambda>_. 0)(0x100C00 := 0x101007, 0x100FFC := 0x100007), tss_esp0 = 0, flags = 2, timer_ticks = 0,
     running = 0xC009E000, tasks = [0xC009E000 \<mapsto> kthread 1 TASK_RUNNING 8], thread_ready_list = [], thread_all_list = [0xC009E000],
     main_thread = 0xC009E000, idle_thread = 0,
     kernel_pool = \<lparr>pool_bitmap = \<lparr>btmp_bytes_len = 1, bits = [0, 0]\<rparr>, phy_addr_start = 0x200000, pool_size = 0x8000, pool_lock = lock_init\<rparr>,
     user_pool = \<lparr>pool_bitmap = \<lparr>btmp_bytes_len = 1, bits = [0, 0]\<rparr>, phy_addr_start = 0x208000, pool_size = 0x8000, pool_lock = lock_init\<rparr>,
     kernel_vaddr = \<lparr>vaddr_bitmap = \<lparr>btmp_bytes_len = 1, bits = [0, 0]\<rparr>, vaddr_start = K_HEAP_START\<rparr>\<rparr>"

lemma small_kmem_sel [simp]:
  "cr3 small_kmem = 0x100000"
  "running small_kmem = 0xC009E000"
  "kernel_vaddr small_kmem = \<lparr>vaddr_bitmap = \<lparr>btmp_bytes_len = 1, bits = [0, 0]\<rparr>, vaddr_start = K_HEAP_START\<rparr>"
  "kernel_pool small_kmem = \<lparr>pool_bitmap = \<lparr>btmp_bytes_len = 1, bits = [0, 0]\<rparr>, phy_addr_start = 0x200000, pool_size = 0x8000, pool_lock = lock_init\<rparr>"
  "user_pool small_kmem = \<lparr>pool_bitmap = \<lparr>btmp_bytes_len = 1, bits = [0, 0]\<rparr>, phy_addr_start = 0x208000, pool_size = 0x8000, pool_lock = lock_init\<rparr>"
  by (simp_all add: small_kmem_def)

lemma small_kmem_pmem: "pmem small_kmem = (\<lambda>_. 0)(0x100C00 := 0x101007, 0x100FFC := 0x100007)"
  by (simp add: small_kmem_def)

lemma small_dir:
  "pmem small_kmem (dir_cell small_kmem va) = (if PDE_IDX va = 768 then 0x101007 else if PDE_IDX va = 1023 then 0x100007 else 0)"
proof -
  have d: "dir_cell small_kmem va = 0x100000 + PDE_IDX va * 4" for va by (simp add: dir_cell_def frame_def)
  have "dir_cell small_kmem 0xC0000000 = 0x100C00" "PDE_IDX 0xC0000000 = 768"
    "dir_cell small_kmem 0xFFC00000 = 0x100FFC" "PDE_IDX 0xFFC00000 = 1023"
    by (simp_all add: d PDE_IDX_def)
  then have "dir_cell small_kmem va = 0x100C00 \<longleftrightarrow> PDE_IDX va = 768" "dir_cell small_kmem va = 0x100FFC \<longleftrightarrow> PDE_IDX va = 1023"
    using dir_cell_inj [of small_kmem va "0xC0000000"] dir_cell_inj [of small_kmem va "0xFFC00000"] by simp_all
  then show ?thesis by (simp add: small_kmem_pmem)
qed

lemma small_tables: "table_frames small_kmem = {0x100000, 0x101000}"
proof -
  have p: "PDE_IDX 0xC0000000 = 768" by (simp add: PDE_IDX_def)
  then have "\<exists>va. PDE_IDX va \<noteq> 1023 \<and> PDE_IDX va = 768" by (intro exI [of _ "0xC0000000"]) simp
  then show ?thesis by (auto simp: table_frames_def small_dir present_def frame_def split: if_splits)
qed

lemma le_8_cases: "(i :: nat) \<le> 8 \<Longrightarrow> i = 0 \<or> i = 1 \<or> i = 2 \<or> i = 3 \<or> i = 4 \<or> i = 5 \<or> i = 6 \<or> i = 7 \<or> i = 8"
  by arith

lemma small_pages:
  assumes "i \<le> 8"
  shows "PDE_IDX (pg K_HEAP_START i) = 768 \<and> PTE_IDX (pg K_HEAP_START i) = 512 + of_nat i \<and> frame (pg K_HEAP_START i) = pg K_HEAP_START i"
  using le_8_cases [OF assms] by (elim disjE; simp add: pg_def K_HEAP_START_def PDE_IDX_def PTE_IDX_def frame_def)

lemma small_kpages_ok: "kpages_ok small_kmem"
proof -
  have pw: "pool_wf (kernel_pool small_kmem)" "pool_wf (user_pool small_kmem)" by (simp_all add: pool_wf_def bitmap_wf_def frame_def)
  then have po: "pools_ok small_kmem" by (simp add: pools_ok_def)
  have "self_mapped small_kmem" by (simp add: self_mapped_def frame_def present_def small_kmem_pmem)
  then have "paging_ok small_kmem" by (simp add: paging_ok_def small_dir present_def frame_def)
  moreover have "f \<notin> pool_frames p" if "phy_addr_start p \<in> {0x200000, 0x208000}" "pool_wf p" "f \<in> {0x100000, 0x101000}" for p f
    using pool_frame_ge [OF that(2), of f] that(1,3) by auto
  ultimately have vm: "vm_ok small_kmem" using po pw by (auto simp: vm_ok_def small_tables free_frames_def)
  have tabc: "tab_cell small_kmem (pg K_HEAP_START i) = 0x101800 + of_nat i * 4" if "i \<le> 8" for i
    using small_pages [OF that] by (simp add: tab_cell_def small_dir frame_def)
  have inj: "i = j" if "(of_nat (i * k) :: u32) = of_nat (j * k)" "i \<le> 8" "j \<le> 8" "k = 1 \<or> k = 4" for i j k
  proof -
    have "i * k < 2 ^ 32" "j * k < 2 ^ 32" using that(2-4) by auto
    moreover have "unat (of_nat (i * k) :: u32) = unat (of_nat (j * k) :: u32)" using that(1) by (rule arg_cong)
    ultimately have "i * k = j * k" by (simp only: unat_of_nat_u32)
    then show ?thesis using that(4) by auto
  qed
  have "\<not> same_cell small_kmem (pg K_HEAP_START i) (pg K_HEAP_START j)" if ij: "i \<le> 8" "j \<le> 8" "i \<noteq> j" for i j
  proof
    assume "same_cell small_kmem (pg K_HEAP_START i) (pg K_HEAP_START j)"
    then have "frame (pg K_HEAP_START i) = frame (pg K_HEAP_START j) \<or> tab_cell small_kmem (pg K_HEAP_START i) = tab_cell small_kmem (pg K_HEAP_START j)"
      unfolding same_cell_def by blast
    then have "(of_nat (i * 1) :: u32) = of_nat (j * 1) \<or> (of_nat (i * 4) :: u32) = of_nat (j * 4)"
    proof
      assume "frame (pg K_HEAP_START i) = frame (pg K_HEAP_START j)"
      then have "PTE_IDX (pg K_HEAP_START i) = PTE_IDX (pg K_HEAP_START j)" using same_page_idx by blast
      then have "(512 + of_nat i :: u32) = 512 + of_nat j" using small_pages [OF ij(1)] small_pages [OF ij(2)] by argo
      then show ?thesis by simp
    next
      assume "tab_cell small_kmem (pg K_HEAP_START i) = tab_cell small_kmem (pg K_HEAP_START j)"
      then have "(0x101800 + of_nat i * 4 :: u32) = 0x101800 + of_nat j * 4" unfolding tabc [OF ij(1)] tabc [OF ij(2)] .
      then show ?thesis by simp
    qed
    then show False using inj [of i 1 j] inj [of i 4 j] ij by blast
  qed
  moreover have "translate small_kmem (pg K_HEAP_START i) = None" if "i \<le> 8" for i
  proof -
    have "0x101800 + of_nat i * 4 \<notin> {0x100C00, 0x100FFC :: u32}" using le_8_cases [OF that] by (elim disjE) simp_all
    with that show ?thesis by (simp add: translate_def tabc present_def small_kmem_pmem)
  qed
  moreover have "K_HEAP_START \<noteq> 0" "frame K_HEAP_START = K_HEAP_START" by (simp_all add: K_HEAP_START_def frame_def)
  ultimately have "vspace_ok small_kmem (kernel_vaddr small_kmem)"
    by (simp add: vspace_ok_def bitmap_wf_def) (simp add: K_HEAP_START_def)
  then show ?thesis using vm small_pages
    by (simp add: kpages_ok_def kspace_ok_def small_dir present_def lock_free_def lock_init_def sema_init_def)
qed

lemma small_frames: "free_frames (kernel_pool small_kmem) = pool_frames (kernel_pool small_kmem)" "card (pool_frames (kernel_pool small_kmem)) = 8"
proof -
  have wf: "pool_wf (kernel_pool small_kmem)" using small_kpages_ok by (simp only: kpages_ok_def kspace_ok_def vm_ok_def pools_ok_def)
  show "free_frames (kernel_pool small_kmem) = pool_frames (kernel_pool small_kmem)"
    by (simp add: free_frames_def used_frames_def zero_bytes_unused)
  show "card (pool_frames (kernel_pool small_kmem)) = 8"
    using card_image [OF pool_frame_inj [OF wf]] by (simp add: pool_frames_def)
qed

lemma small_run: "free_run (vaddr_bitmap (kernel_vaddr small_kmem)) 0 3"
  by (simp add: free_run_def bused_def)



text \<open>C11.  \<^verbatim>\<open>get_kernel_pages\<close>: when a run of free virtual pages and enough free frames exist, the call
  returns pages that were not mapped before and are mapped to as many distinct frames of the
  kernel's pool that were free before; the pages are cleared, no other page and no other
  memory outside of the page tables changes, and the invariant holds again.\<close>

theorem get_kernel_pages_correct:
  assumes "kpages_ok s" "0 < n" "n < 3840" "j + n \<le> bcap (vaddr_bitmap (kernel_vaddr s))"
    "free_run (vaddr_bitmap (kernel_vaddr s)) j n" "n \<le> card (free_frames (kernel_pool s))"
  shows "\<exists>va s' fs. get_kernel_pages n s = Inr (va, s') \<and> fresh_pages va n fs s s' \<and> cleared_pages fs s s' \<and> kpages_ok s'"
  using assms by (rule get_kernel_pages_spec)

theorem get_kernel_pages_correct_witness:
  "\<exists>va s' fs. get_kernel_pages 3 small_kmem = Inr (va, s') \<and> fresh_pages va 3 fs small_kmem s' \<and> cleared_pages fs small_kmem s' \<and> kpages_ok s'"
proof (rule get_kernel_pages_correct [OF small_kpages_ok _ _ _ small_run])
  show "3 \<le> card (free_frames (kernel_pool small_kmem))" unfolding small_frames by simp
qed simp_all

text \<open>C12.  \<^verbatim>\<open>mfree_page\<close> undoes \<^verbatim>\<open>get_kernel_pages\<close>: after a successful allocation the pages can be freed
  without a failed assertion; then they are not mapped, the frames in use and the virtual
  pages in use are the ones from before the allocation, and the invariant holds.\<close>

theorem mfree_page_undoes:
  assumes "kpages_ok s" "0 < n" "n < 3840" "j + n \<le> bcap (vaddr_bitmap (kernel_vaddr s))"
    "free_run (vaddr_bitmap (kernel_vaddr s)) j n" "n \<le> card (free_frames (kernel_pool s))"
    "0x102000 \<le> phy_addr_start (kernel_pool s)"
  shows "\<exists>va s' s''. get_kernel_pages n s = Inr (va, s') \<and> mfree_page PF_KERNEL va n s' = Inr s'' \<and> kpages_ok s''
    \<and> used_frames (kernel_pool s'') = used_frames (kernel_pool s) \<and> used_frames (user_pool s'') = used_frames (user_pool s)
    \<and> (\<forall>i<n. translate s'' (pg va i) = None)
    \<and> (\<forall>j. bused (vaddr_bitmap (kernel_vaddr s'')) j = bused (vaddr_bitmap (kernel_vaddr s)) j)"
proof -
  obtain va s' fs where g: "get_kernel_pages n s = Inr (va, s')" and p: "fresh_pages va n fs s s'" and ok: "kpages_ok s'"
    using get_kernel_pages_spec [OF assms(1-6)] by blast
  obtain i where i: "va = pg (vaddr_start (kernel_vaddr s)) i" "run_taken i n (kernel_vaddr s) (kernel_vaddr s')"
    using p by (auto simp: fresh_pages_def)
  have len: "length fs = n" "fs \<noteq> []" "distinct fs" "set fs \<subseteq> free_frames (kernel_pool s)"
    "used_frames (kernel_pool s') = used_frames (kernel_pool s) \<union> set fs" "used_frames (user_pool s') = used_frames (user_pool s)"
    "\<forall>k<length fs. translate s' (pg va k) = Some (fs ! k)" "table_frames s' = table_frames s"
    "0x102000 \<le> phy_addr_start (kernel_pool s')"
    using p assms(2,7) by (auto simp: fresh_pages_def)
  have r: "i + length fs \<le> Suc (bcap (vaddr_bitmap (kernel_vaddr s')))" "va = pg (vaddr_start (kernel_vaddr s')) i"
    using i by (simp_all add: run_taken_def len(1))
  have u: "set fs \<subseteq> used_frames (kernel_pool s')" using len(5) by blast
  have t: "set fs \<inter> table_frames s' = {}" using len(4,8) assms(1) by (auto simp: kpages_ok_def kspace_ok_def vm_ok_def)
  obtain s'' where s'': "mfree_page PF_KERNEL va (length fs) s' = Inr s''" "freed_pages va fs s' s''" "kpages_ok s''"
    "\<forall>j. bused (vaddr_bitmap (kernel_vaddr s'')) j = (bused (vaddr_bitmap (kernel_vaddr s')) j \<and> \<not> (i \<le> j \<and> j < i + length fs))"
    using mfree_page_spec [OF ok r(1) len(2) r(2) len(7,3) u t len(9)] by blast
  have "\<not> bused (vaddr_bitmap (kernel_vaddr s)) j" if "i \<le> j" "j < i + n" for j
    using i(2) that by (auto simp: run_taken_def free_run_def)
  then have "\<forall>j. bused (vaddr_bitmap (kernel_vaddr s'')) j = bused (vaddr_bitmap (kernel_vaddr s)) j"
    using s''(4) i(2) by (auto simp: run_taken_def len(1))
  then show ?thesis using g s''(1-3) len(1,4-6) by (auto simp: freed_pages_def free_frames_def)
qed

theorem mfree_page_undoes_witness:
  "\<exists>va s' s''. get_kernel_pages 3 small_kmem = Inr (va, s') \<and> mfree_page PF_KERNEL va 3 s' = Inr s'' \<and> kpages_ok s''
    \<and> used_frames (kernel_pool s'') = used_frames (kernel_pool small_kmem)"
proof -
  have c: "3 \<le> card (free_frames (kernel_pool small_kmem))" unfolding small_frames by simp
  show ?thesis using mfree_page_undoes [OF small_kpages_ok _ _ _ small_run c] by (auto simp del: small_kmem_sel) (simp, blast)
qed

text \<open>C13.  \<^verbatim>\<open>mem_pool_init\<close>: for every size of memory from 2 MB on, the two pools do not overlap, start
  behind the first 2 MB and end within the memory, all their frames are free, and the
  kernel's heap has as many virtual pages as its pool has frames.  The number of pages is
  kept in 16 bits, so only \<^term>\<open>free_page_count\<close> of them are used.\<close>

theorem mem_pool_layout:
  assumes "0x200000 \<le> all_mem" "2 * (free_page_count all_mem div 2 div 8) + (free_page_count all_mem - free_page_count all_mem div 2) div 8 < length bmem"
  shows "\<exists>s'. mem_pool_init all_mem bmem s = Inr s' \<and> pools_ok s' \<and> used_frames (kernel_pool s') = {} \<and> used_frames (user_pool s') = {}
    \<and> (\<forall>f\<in>pool_frames (kernel_pool s') \<union> pool_frames (user_pool s'). 0x200000 \<le> unat f \<and> unat f + 4096 \<le> unat all_mem)
    \<and> pool_frames (kernel_pool s') \<inter> pool_frames (user_pool s') = {}
    \<and> bset (vaddr_bitmap (kernel_vaddr s')) = {} \<and> bcap (vaddr_bitmap (kernel_vaddr s')) = bcap (pool_bitmap (kernel_pool s'))
    \<and> card (pool_frames (kernel_pool s')) = free_page_count all_mem div 2 div 8 * 8"
proof -
  define m where "m = free_page_count all_mem"
  obtain kp up kv where s': "mem_pool_init all_mem bmem s = Inr (s\<lparr>kernel_pool := kp, user_pool := up, kernel_vaddr := kv\<rparr>)"
    "pools_ok (s\<lparr>kernel_pool := kp, user_pool := up, kernel_vaddr := kv\<rparr>)"
    "used_frames kp = {}" "used_frames up = {}" "bset (vaddr_bitmap kv) = {}" "bitmap_wf (vaddr_bitmap kv)"
    "bcap (pool_bitmap kp) = m div 2 div 8 * 8" "bcap (pool_bitmap up) = (m - m div 2) div 8 * 8"
    "bcap (vaddr_bitmap kv) = m div 2 div 8 * 8"
    "unat (phy_addr_start kp) = 0x200000" "unat (phy_addr_start up) = 0x200000 + m div 2 * 4096"
    by (rule mem_pool_init_spec [OF assms(1) m_def assms(2) [folded m_def]])
  have wf: "pool_wf kp" "pool_wf up" using s'(2) by (simp_all add: pools_ok_def)
  have le: "0x200000 + m * 4096 \<le> unat all_mem"
  proof -
    have "unat (0x200000 :: u32) \<le> unat all_mem" using assms(1) by (simp only: word_le_nat_alt)
    moreover have "m \<le> (unat all_mem - 0x200000) div 4096" by (simp add: m_def free_page_count_def)
    ultimately show ?thesis by simp
  qed
  have "0x200000 \<le> unat f \<and> unat f + 4096 \<le> unat all_mem" if "f \<in> pool_frames kp \<union> pool_frames up" for f
  proof -
    have "m div 2 div 8 * 8 \<le> m" "m div 2 + (m - m div 2) div 8 * 8 \<le> m" by auto
    then show ?thesis
      using that le s'(7,8,10,11) by (auto simp: pool_frames_def pool_frame_unat wf)
  qed
  moreover have "card (pool_frames kp) = m div 2 div 8 * 8"
    using card_image [OF pool_frame_inj [OF wf(1)]] s'(7) by (simp add: pool_frames_def)
  ultimately show ?thesis using s' pools_disjoint [OF s'(2)] by (auto simp: m_def)
qed

theorem mem_pool_layout_witness:
  "\<exists>s'. mem_pool_init 0x2000000 (replicate 1500 0xFF) small_kmem = Inr s' \<and> pools_ok s' \<and> card (pool_frames (kernel_pool s')) = 3840"
  using mem_pool_layout [of "0x2000000" "replicate 1500 0xFF" small_kmem] by (auto simp: free_page_count_def)

end
