(* ===== verification/Klist.thy ===== *)
theory Klist
  imports Interrupt
begin

text \<open>
  \<^verbatim>\<open>lib/kernel/list.c\<close>: the intrusive doubly linked list behind the ready queue, the
  wait queues, the free lists of the allocator, the partition list and the list of open
  inodes.

  Nodes live in memory: \<open>nodes\<close> maps the address of a \<^verbatim>\<open>struct list_elem\<close> to its
  two pointers.  A \<^verbatim>\<open>struct list\<close> at address \<open>l\<close> is its head node at \<open>l\<close> and its
  tail node eight bytes later.  Following the null pointer is a \<^const>\<open>Fault\<close>.  The
  operations that disable interrupts carry the flags register.  The traversal loops may
  run forever on a corrupted list, so they are partial functions: \<open>None\<close> is a loop that
  does not end.
\<close>

record list_elem =
  le_prev :: u32
  le_next :: u32

record lmem =
  eflags :: u32
  nodes :: "u32 \<Rightarrow> list_elem"

abbreviation list_tail :: "u32 \<Rightarrow> u32" where
  "list_tail l \<equiv> l + 8"

section \<open>Operations\<close>

definition deref :: "lmem \<Rightarrow> u32 \<Rightarrow> list_elem kres" where
  "deref m p = (if p = 0 then Inl Fault else Inr (nodes m p))"

definition put_prev :: "u32 \<Rightarrow> u32 \<Rightarrow> lmem \<Rightarrow> lmem kres" where
  "put_prev p v m = (if p = 0 then Inl Fault else Inr (m\<lparr>nodes := (nodes m)(p := (nodes m p)\<lparr>le_prev := v\<rparr>)\<rparr>))"

definition put_next :: "u32 \<Rightarrow> u32 \<Rightarrow> lmem \<Rightarrow> lmem kres" where
  "put_next p v m = (if p = 0 then Inl Fault else Inr (m\<lparr>nodes := (nodes m)(p := (nodes m p)\<lparr>le_next := v\<rparr>)\<rparr>))"

definition list_init :: "u32 \<Rightarrow> lmem \<Rightarrow> lmem kres" where
  "list_init l m =
     kbind (put_prev l 0 m) (\<lambda>m.
     kbind (put_next l (list_tail l) m) (\<lambda>m.
     kbind (put_prev (list_tail l) l m) (\<lambda>m.
     put_next (list_tail l) 0 m)))"

definition list_insert_before :: "u32 \<Rightarrow> u32 \<Rightarrow> lmem \<Rightarrow> lmem kres" where
  "list_insert_before before elem m =
     (let (old_status, fl) = intr_disable (eflags m); m = m\<lparr>eflags := fl\<rparr>
      in kbind (deref m before) (\<lambda>b.
         kbind (put_next (le_prev b) elem m) (\<lambda>m.
         kbind (deref m before) (\<lambda>b.
         kbind (put_prev elem (le_prev b) m) (\<lambda>m.
         kbind (put_next elem before m) (\<lambda>m.
         kbind (put_prev before elem m) (\<lambda>m.
         Inr (m\<lparr>eflags := snd (intr_set_status old_status (eflags m))\<rparr>))))))))"

definition list_push :: "u32 \<Rightarrow> u32 \<Rightarrow> lmem \<Rightarrow> lmem kres" where
  "list_push plist elem m =
     kbind (deref m plist) (\<lambda>h. list_insert_before (le_next h) elem m)"

definition list_append :: "u32 \<Rightarrow> u32 \<Rightarrow> lmem \<Rightarrow> lmem kres" where
  "list_append plist elem m = list_insert_before (list_tail plist) elem m"

definition list_remove :: "u32 \<Rightarrow> lmem \<Rightarrow> lmem kres" where
  "list_remove pelem m =
     (let (old_status, fl) = intr_disable (eflags m); m = m\<lparr>eflags := fl\<rparr>
      in kbind (deref m pelem) (\<lambda>e.
         kbind (put_next (le_prev e) (le_next e) m) (\<lambda>m.
         kbind (deref m pelem) (\<lambda>e.
         kbind (put_prev (le_next e) (le_prev e) m) (\<lambda>m.
         Inr (m\<lparr>eflags := snd (intr_set_status old_status (eflags m))\<rparr>))))))"

definition list_pop :: "u32 \<Rightarrow> lmem \<Rightarrow> (u32 \<times> lmem) kres" where
  "list_pop plist m =
     kbind (deref m plist) (\<lambda>h.
     kbind (list_remove (le_next h) m) (\<lambda>m. Inr (le_next h, m)))"

definition list_empty :: "u32 \<Rightarrow> lmem \<Rightarrow> bool kres" where
  "list_empty plist m = kbind (deref m plist) (\<lambda>h. Inr (le_next h = list_tail plist))"

partial_function (option) find_loop :: "lmem \<Rightarrow> u32 \<Rightarrow> u32 \<Rightarrow> u32 \<Rightarrow> bool kres option" where
  "find_loop m t obj elem =
     (if elem = t then Some (Inr False)
      else if elem = obj then Some (Inr True)
      else case deref m elem of Inl e \<Rightarrow> Some (Inl e) | Inr n \<Rightarrow> find_loop m t obj (le_next n))"

definition elem_find :: "u32 \<Rightarrow> u32 \<Rightarrow> lmem \<Rightarrow> bool kres option" where
  "elem_find plist obj_elem m =
     (case deref m plist of Inl e \<Rightarrow> Some (Inl e)
      | Inr h \<Rightarrow> find_loop m (list_tail plist) obj_elem (le_next h))"

partial_function (option) len_loop :: "lmem \<Rightarrow> u32 \<Rightarrow> u32 \<Rightarrow> u32 \<Rightarrow> u32 kres option" where
  "len_loop m t elem len =
     (if elem = t then Some (Inr len)
      else case deref m elem of Inl e \<Rightarrow> Some (Inl e) | Inr n \<Rightarrow> len_loop m t (le_next n) (len + 1))"

definition list_len :: "u32 \<Rightarrow> lmem \<Rightarrow> u32 kres option" where
  "list_len plist m =
     (case deref m plist of Inl e \<Rightarrow> Some (Inl e)
      | Inr h \<Rightarrow> len_loop m (list_tail plist) (le_next h) 0)"

text \<open>
  The callback of \<^verbatim>\<open>list_traversal\<close> may change state of its own (\<open>'c\<close>: the tasks it
  visits, the screen it prints on), never the links.  The result is the address of the
  element that the callback accepted, 0 if none.
\<close>

partial_function (option) traverse_loop ::
  "lmem \<Rightarrow> u32 \<Rightarrow> (u32 \<Rightarrow> int \<Rightarrow> 'c \<Rightarrow> bool \<times> 'c) \<Rightarrow> int \<Rightarrow> u32 \<Rightarrow> 'c \<Rightarrow> (u32 \<times> 'c) kres option" where
  "traverse_loop m t func arg elem c =
     (if elem = t then Some (Inr (0, c))
      else let (hit, c) = func elem arg c
           in if hit then Some (Inr (elem, c))
              else case deref m elem of Inl e \<Rightarrow> Some (Inl e)
                   | Inr n \<Rightarrow> traverse_loop m t func arg (le_next n) c)"

definition list_traversal ::
  "u32 \<Rightarrow> (u32 \<Rightarrow> int \<Rightarrow> 'c \<Rightarrow> bool \<times> 'c) \<Rightarrow> int \<Rightarrow> lmem \<Rightarrow> 'c \<Rightarrow> (u32 \<times> 'c) kres option" where
  "list_traversal plist func arg m c =
     (case deref m plist of Inl e \<Rightarrow> Some (Inl e)
      | Inr h \<Rightarrow>
          (case list_empty plist m of Inl e \<Rightarrow> Some (Inl e)
           | Inr emp \<Rightarrow> if emp then Some (Inr (0, c))
                       else traverse_loop m (list_tail plist) func arg (le_next h) c))"

section \<open>What a list in memory represents\<close>

text \<open>
  \<open>linked m ns\<close>: consecutive nodes of \<open>ns\<close> point at each other.  \<open>is_list m l xs\<close>:
  the list at \<open>l\<close> holds exactly the elements \<open>xs\<close>, in order.
\<close>

fun linked :: "lmem \<Rightarrow> u32 list \<Rightarrow> bool" where
  "linked m (a # b # ns) \<longleftrightarrow> le_next (nodes m a) = b \<and> le_prev (nodes m b) = a \<and> linked m (b # ns)"
| "linked m _ \<longleftrightarrow> True"

definition spine :: "u32 \<Rightarrow> u32 list \<Rightarrow> u32 list" where
  "spine l xs = l # xs @ [list_tail l]"

definition is_list :: "lmem \<Rightarrow> u32 \<Rightarrow> u32 list \<Rightarrow> bool" where
  "is_list m l xs \<longleftrightarrow> distinct (spine l xs) \<and> 0 \<notin> set (spine l xs) \<and> linked m (spine l xs)"

lemma linked_append: "linked m (xs @ a # ys) \<longleftrightarrow> linked m (xs @ [a]) \<and> linked m (a # ys)"
proof (induction xs)
  case Nil
  then show ?case by simp
next
  case (Cons x xs)
  then show ?case by (cases xs) auto
qed

lemma linked_cong:
  assumes "\<And>a. a \<in> set (butlast ns) \<Longrightarrow> le_next (nodes m a) = le_next (nodes m' a)"
    and "\<And>a. a \<in> set (tl ns) \<Longrightarrow> le_prev (nodes m a) = le_prev (nodes m' a)"
  shows "linked m ns = linked m' ns"
  using assms
proof (induction ns rule: induct_list012)
  case (3 a b ns)
  have "linked m (b # ns) = linked m' (b # ns)"
    by (rule 3(2)) (use 3(3,4) in \<open>auto split: if_splits\<close>)
  with 3(3,4) show ?case by auto
qed auto

lemma is_list_frame:
  assumes "is_list m l xs" "\<And>p. p \<in> set (spine l xs) \<Longrightarrow> nodes m' p = nodes m p"
  shows "is_list m' l xs"
proof -
  have "linked m (spine l xs) = linked m' (spine l xs)"
    by (rule linked_cong) (use assms(2) in \<open>auto dest: in_set_butlastD list.set_sel(2) simp: spine_def\<close>)
  with assms(1) show ?thesis by (simp add: is_list_def)
qed

section \<open>Links after an insertion and a removal\<close>

lemma insert_before_links:
  assumes L: "linked m (as @ a # b # bs)" and D: "distinct (as @ a # b # bs)"
    and N: "0 \<notin> set (as @ a # b # bs)" and E: "e \<notin> set (as @ a # b # bs)" "e \<noteq> 0"
  shows "\<exists>m'. list_insert_before b e m = Inr m' \<and> linked m' (as @ a # e # b # bs)
    \<and> eflags m' = eflags m \<and> (\<forall>p. p \<notin> {a, e, b} \<longrightarrow> nodes m' p = nodes m p)"
proof -
  have ab: "le_next (nodes m a) = b" "le_prev (nodes m b) = a"
    using L by (simp_all add: linked_append [of m as a "b # bs"])
  have ne: "a \<noteq> 0" "b \<noteq> 0" "a \<noteq> b" "e \<noteq> a" "e \<noteq> b" using D N E by auto
  let ?ns = "(nodes m)(a := (nodes m a)\<lparr>le_next := e\<rparr>, e := (nodes m e)\<lparr>le_prev := a, le_next := b\<rparr>,
               b := (nodes m b)\<lparr>le_prev := e\<rparr>)"
  let ?m' = "m\<lparr>nodes := ?ns\<rparr>"
  have "list_insert_before b e m = Inr ?m'"
    using ne ab E(2) unfolding list_insert_before_def
    by (simp add: split_beta Let_def deref_def put_next_def put_prev_def)
  moreover have "linked ?m' (as @ [a])"
  proof -
    have "linked m (as @ [a])" using L by (simp add: linked_append [of m as a "b # bs"])
    moreover have "linked m (as @ [a]) = linked ?m' (as @ [a])"
      by (rule linked_cong) (use D E in \<open>auto dest: in_set_tlD\<close>)
    ultimately show ?thesis by simp
  qed
  moreover have "linked ?m' (b # bs)"
  proof -
    have "linked m (b # bs)" using L by (simp add: linked_append [of m as a "b # bs"])
    moreover have "linked m (b # bs) = linked ?m' (b # bs)"
      by (rule linked_cong) (use D E in \<open>auto dest: in_set_butlastD split: if_splits\<close>)
    ultimately show ?thesis by simp
  qed
  ultimately show ?thesis using ne by (intro exI [of _ ?m']) (simp add: linked_append [of _ as a "e # b # bs"])
qed

lemma remove_links:
  assumes L: "linked m (as @ a # x # b # bs)" and D: "distinct (as @ a # x # b # bs)"
    and N: "0 \<notin> set (as @ a # x # b # bs)"
  shows "\<exists>m'. list_remove x m = Inr m' \<and> linked m' (as @ a # b # bs)
    \<and> eflags m' = eflags m \<and> (\<forall>p. p \<notin> {a, b} \<longrightarrow> nodes m' p = nodes m p)"
proof -
  have x: "le_prev (nodes m x) = a" "le_next (nodes m x) = b"
    using L by (simp_all add: linked_append [of m as a "x # b # bs"])
  have ne: "a \<noteq> 0" "b \<noteq> 0" "x \<noteq> 0" "a \<noteq> b" "x \<noteq> a" "x \<noteq> b" using D N by auto
  let ?m' = "m\<lparr>nodes := (nodes m)(a := (nodes m a)\<lparr>le_next := b\<rparr>, b := (nodes m b)\<lparr>le_prev := a\<rparr>)\<rparr>"
  have "list_remove x m = Inr ?m'"
    using ne x unfolding list_remove_def
    by (simp add: split_beta Let_def deref_def put_next_def put_prev_def)
  moreover have "linked ?m' (as @ [a])"
  proof -
    have "linked m (as @ [a])" using L by (simp add: linked_append [of m as a "x # b # bs"])
    moreover have "linked m (as @ [a]) = linked ?m' (as @ [a])"
      by (rule linked_cong) (use D in \<open>auto dest: in_set_tlD\<close>)
    ultimately show ?thesis by simp
  qed
  moreover have "linked ?m' (b # bs)"
  proof -
    have "linked m (b # bs)" using L by (simp add: linked_append [of m as a "x # b # bs"])
    moreover have "linked m (b # bs) = linked ?m' (b # bs)"
      by (rule linked_cong) (use D in \<open>auto dest: in_set_butlastD split: if_splits\<close>)
    ultimately show ?thesis by simp
  qed
  ultimately show ?thesis using ne by (intro exI [of _ ?m']) (simp add: linked_append [of _ as a "b # bs"])
qed

section \<open>Every operation on a represented list\<close>

text \<open>An address may enter the list at \<open>l\<close> if it is neither null nor one of the list's own nodes.\<close>

definition node_ok :: "u32 \<Rightarrow> u32 \<Rightarrow> bool" where
  "node_ok l e \<longleftrightarrow> e \<noteq> 0 \<and> e \<noteq> l \<and> e \<noteq> list_tail l"

lemma is_list_next: "is_list m l xs \<Longrightarrow> le_next (nodes m l) = hd (xs @ [list_tail l])"
  by (cases xs) (auto simp: is_list_def spine_def)

lemma is_list_head [simp]: "is_list m l xs \<Longrightarrow> deref m l = Inr (nodes m l)"
  by (auto simp: is_list_def spine_def deref_def)

lemma list_init_spec:
  assumes "l \<noteq> 0" "list_tail l \<noteq> 0"
  shows "\<exists>m'. list_init l m = Inr m' \<and> is_list m' l [] \<and> eflags m' = eflags m
    \<and> (\<forall>p. p \<notin> {l, list_tail l} \<longrightarrow> nodes m' p = nodes m p)"
  using assms by (auto simp: list_init_def put_prev_def put_next_def is_list_def spine_def)

lemma list_append_spec:
  assumes "is_list m l xs" "node_ok l e" "e \<notin> set xs"
  shows "\<exists>m'. list_append l e m = Inr m' \<and> is_list m' l (xs @ [e]) \<and> eflags m' = eflags m
    \<and> (\<forall>p. p \<notin> set (spine l (xs @ [e])) \<longrightarrow> nodes m' p = nodes m p)"
proof -
  let ?a = "last (l # xs)" and ?as = "butlast (l # xs)"
  have sp: "spine l xs = ?as @ ?a # list_tail l # []" "spine l (xs @ [e]) = ?as @ ?a # e # list_tail l # []"
    unfolding spine_def by (simp_all add: append_butlast_last_id flip: append_assoc)
  have e: "e \<notin> set (spine l xs)" "e \<noteq> 0" using assms(2,3) by (auto simp: node_ok_def spine_def)
  from insert_before_links [of m ?as ?a "list_tail l" "[]" e] assms(1) e
  obtain m' where m': "list_insert_before (list_tail l) e m = Inr m'" "linked m' (spine l (xs @ [e]))"
    "eflags m' = eflags m" "\<And>p. p \<notin> {?a, e, list_tail l} \<Longrightarrow> nodes m' p = nodes m p"
    unfolding is_list_def sp by blast
  have "nodes m' p = nodes m p" if "p \<notin> set (spine l (xs @ [e]))" for p
    by (rule m'(4)) (use that in \<open>unfold sp(2), auto\<close>)
  moreover have "is_list m' l (xs @ [e])"
    using assms(1) e m'(2) by (auto simp: is_list_def spine_def)
  ultimately show ?thesis using m'(1,3) by (auto simp: list_append_def)
qed

lemma list_push_spec:
  assumes "is_list m l xs" "node_ok l e" "e \<notin> set xs"
  shows "\<exists>m'. list_push l e m = Inr m' \<and> is_list m' l (e # xs) \<and> eflags m' = eflags m
    \<and> (\<forall>p. p \<notin> set (spine l (e # xs)) \<longrightarrow> nodes m' p = nodes m p)"
proof -
  obtain b bs where b: "xs @ [list_tail l] = b # bs" by (cases xs) auto
  have sp: "spine l xs = [] @ l # b # bs" "spine l (e # xs) = [] @ l # e # b # bs"
    using b by (simp_all add: spine_def)
  have e: "e \<notin> set (spine l xs)" "e \<noteq> 0" using assms(2,3) by (auto simp: node_ok_def spine_def)
  from insert_before_links [of m "[]" l b bs e] assms(1) e
  obtain m' where m': "list_insert_before b e m = Inr m'" "linked m' (spine l (e # xs))"
    "eflags m' = eflags m" "\<And>p. p \<notin> {l, e, b} \<Longrightarrow> nodes m' p = nodes m p"
    unfolding is_list_def sp by blast
  have "nodes m' p = nodes m p" if "p \<notin> set (spine l (e # xs))" for p
    by (rule m'(4)) (use that in \<open>unfold sp(2), auto\<close>)
  moreover have "is_list m' l (e # xs)"
    using assms(1) e m'(2) by (auto simp: is_list_def spine_def)
  moreover have "list_push l e m = Inr m'"
    using m'(1) is_list_next [OF assms(1)] assms(1) b by (simp add: list_push_def)
  ultimately show ?thesis using m'(3) by auto
qed

lemma list_remove_spec:
  assumes "is_list m l xs" "x \<in> set xs"
  shows "\<exists>m'. list_remove x m = Inr m' \<and> is_list m' l (remove1 x xs) \<and> eflags m' = eflags m
    \<and> (\<forall>p. p \<notin> set (spine l xs) \<longrightarrow> nodes m' p = nodes m p)"
proof -
  obtain us vs where xs: "xs = us @ x # vs" "x \<notin> set us" using split_list_first [OF assms(2)] by blast
  let ?a = "last (l # us)" and ?as = "butlast (l # us)"
  obtain b bs where b: "vs @ [list_tail l] = b # bs" by (cases vs) auto
  have lu: "?as @ [?a] = l # us" by simp
  have sp: "spine l xs = ?as @ ?a # x # b # bs" "spine l (us @ vs) = ?as @ ?a # b # bs"
    unfolding spine_def xs(1) using b lu by (metis append.assoc append_Cons append_Nil)+
  from remove_links [of m ?as ?a x b bs] assms(1)
  obtain m' where m': "list_remove x m = Inr m'" "linked m' (spine l (us @ vs))"
    "eflags m' = eflags m" "\<And>p. p \<notin> {?a, b} \<Longrightarrow> nodes m' p = nodes m p"
    unfolding is_list_def sp by blast
  have "nodes m' p = nodes m p" if "p \<notin> set (spine l xs)" for p
    by (rule m'(4)) (use that in \<open>unfold sp(1), auto\<close>)
  moreover have "is_list m' l (us @ vs)"
    using assms(1) m'(2) xs by (auto simp: is_list_def spine_def)
  moreover have "remove1 x xs = us @ vs" using xs by (simp add: remove1_append)
  ultimately show ?thesis using m'(1,3) by auto
qed

lemma list_pop_spec:
  assumes "is_list m l (x # xs)"
  shows "\<exists>m'. list_pop l m = Inr (x, m') \<and> is_list m' l xs \<and> eflags m' = eflags m
    \<and> (\<forall>p. p \<notin> set (spine l (x # xs)) \<longrightarrow> nodes m' p = nodes m p)"
  using list_remove_spec [OF assms, of x] is_list_next [OF assms] assms
  by (auto simp: list_pop_def)

text \<open>Popping an empty list follows the null \<^verbatim>\<open>next\<close> of the tail node.\<close>

lemma list_pop_empty:
  assumes "is_list m l []" "le_next (nodes m (list_tail l)) = 0"
  shows "list_pop l m = Inl Fault"
proof -
  have "l \<noteq> 0" "list_tail l \<noteq> 0" "le_prev (nodes m (list_tail l)) = l" "le_next (nodes m l) = list_tail l"
    using assms(1) by (auto simp: is_list_def spine_def)
  then show ?thesis using assms
    by (simp add: list_pop_def list_remove_def split_beta Let_def deref_def put_next_def put_prev_def)
qed

lemma list_empty_spec: "is_list m l xs \<Longrightarrow> list_empty l m = Inr (xs = [])"
  by (cases xs) (auto simp: list_empty_def is_list_next is_list_def spine_def deref_def)

section \<open>The traversal loops end and read the represented list\<close>

lemma is_list_path:
  assumes "is_list m l xs" "i < length xs"
  shows "xs ! i \<noteq> 0" "xs ! i \<noteq> list_tail l"
    and "le_next (nodes m (xs ! i)) = (if Suc i < length xs then xs ! Suc i else list_tail l)"
proof -
  have D: "distinct (spine l xs)" "0 \<notin> set (spine l xs)" using assms(1) by (auto simp: is_list_def)
  have "0 \<notin> set xs" "list_tail l \<notin> set xs" using D by (auto simp: spine_def)
  then show "xs ! i \<noteq> 0" "xs ! i \<noteq> list_tail l" using nth_mem [OF assms(2)] by metis+
  let ?r = "drop (Suc i) xs @ [list_tail l]"
  have eq: "spine l xs = (l # take i xs) @ xs ! i # ?r"
    using id_take_nth_drop [OF assms(2)] unfolding spine_def by (metis append.assoc append_Cons)
  have "linked m (xs ! i # ?r)"
    using assms(1) linked_append [of m "l # take i xs" "xs ! i" ?r] unfolding is_list_def eq by blast
  then have "le_next (nodes m (xs ! i)) = hd ?r" by (cases ?r) auto
  also have "hd ?r = (if Suc i < length xs then xs ! Suc i else list_tail l)"
    by (auto simp: hd_drop_conv_nth hd_append)
  finally show "le_next (nodes m (xs ! i)) = (if Suc i < length xs then xs ! Suc i else list_tail l)" .
qed

definition node_at :: "u32 \<Rightarrow> u32 list \<Rightarrow> nat \<Rightarrow> u32" where
  "node_at l xs i = (if i < length xs then xs ! i else list_tail l)"

lemma node_at_0: "is_list m l xs \<Longrightarrow> le_next (nodes m l) = node_at l xs 0"
  by (cases xs) (auto simp: is_list_next node_at_def)

lemma loop_step:
  assumes "is_list m l xs" "i < length xs"
  shows "node_at l xs i \<noteq> list_tail l" "deref m (node_at l xs i) = Inr (nodes m (xs ! i))"
    "le_next (nodes m (xs ! i)) = node_at l xs (Suc i)"
  using is_list_path [OF assms] assms(2) by (auto simp: node_at_def deref_def)

lemma find_loop_spec:
  assumes "is_list m l xs" "i \<le> length xs"
  shows "find_loop m (list_tail l) obj (node_at l xs i) = Some (Inr (obj \<in> set (drop i xs)))"
  using assms(2)
proof (induction "length xs - i" arbitrary: i)
  case 0
  then show ?case by (subst find_loop.simps) (simp add: node_at_def)
next
  case (Suc n)
  then have i: "i < length xs" by simp
  note S = loop_step [OF assms(1) i]
  have "find_loop m (list_tail l) obj (node_at l xs (Suc i)) = Some (Inr (obj \<in> set (drop (Suc i) xs)))"
    using Suc by auto
  moreover have "drop i xs = xs ! i # drop (Suc i) xs" using i by (simp add: Cons_nth_drop_Suc)
  ultimately show ?case using S i by (subst find_loop.simps) (auto simp: node_at_def)
qed

lemma elem_find_spec: "is_list m l xs \<Longrightarrow> elem_find l obj m = Some (Inr (obj \<in> set xs))"
  using find_loop_spec [of m l xs 0 obj] by (simp add: elem_find_def node_at_0)

lemma len_loop_spec:
  assumes "is_list m l xs" "i \<le> length xs"
  shows "len_loop m (list_tail l) (node_at l xs i) n = Some (Inr (n + of_nat (length xs - i)))"
  using assms(2)
proof (induction "length xs - i" arbitrary: i n)
  case 0
  then show ?case by (subst len_loop.simps) (simp add: node_at_def)
next
  case (Suc k)
  then have i: "i < length xs" by simp
  note S = loop_step [OF assms(1) i]
  have "len_loop m (list_tail l) (node_at l xs (Suc i)) (n + 1) = Some (Inr (n + 1 + of_nat (length xs - Suc i)))"
    using Suc by auto
  moreover have "length xs - i = Suc (length xs - Suc i)" using i by simp
  ultimately show ?case using S by (subst len_loop.simps) simp
qed

lemma list_len_spec: "is_list m l xs \<Longrightarrow> list_len l m = Some (Inr (of_nat (length xs)))"
  using len_loop_spec [of m l xs 0 0] by (simp add: list_len_def node_at_0)

text \<open>What \<^verbatim>\<open>list_traversal\<close> computes: the callback on each element until one is accepted.\<close>

fun first_hit :: "(u32 \<Rightarrow> int \<Rightarrow> 'c \<Rightarrow> bool \<times> 'c) \<Rightarrow> int \<Rightarrow> u32 list \<Rightarrow> 'c \<Rightarrow> u32 \<times> 'c" where
  "first_hit f arg [] c = (0, c)"
| "first_hit f arg (x # xs) c =
     (let (hit, c) = f x arg c in if hit then (x, c) else first_hit f arg xs c)"

lemma traverse_loop_spec:
  assumes "is_list m l xs" "i \<le> length xs"
  shows "traverse_loop m (list_tail l) f arg (node_at l xs i) c = Some (Inr (first_hit f arg (drop i xs) c))"
  using assms(2)
proof (induction "length xs - i" arbitrary: i c)
  case 0
  then show ?case by (subst traverse_loop.simps) (simp add: node_at_def)
next
  case (Suc k)
  then have i: "i < length xs" by simp
  note S = loop_step [OF assms(1) i]
  have "traverse_loop m (list_tail l) f arg (node_at l xs (Suc i)) c'
      = Some (Inr (first_hit f arg (drop (Suc i) xs) c'))" for c'
    using Suc by auto
  moreover have "drop i xs = xs ! i # drop (Suc i) xs" using i by (simp add: Cons_nth_drop_Suc)
  ultimately show ?case using S i by (subst traverse_loop.simps) (auto simp: node_at_def split: prod.splits)
qed

lemma list_traversal_spec:
  assumes "is_list m l xs"
  shows "list_traversal l f arg m c = Some (Inr (first_hit f arg xs c))"
  using traverse_loop_spec [OF assms, of 0 f arg c] assms
  by (auto simp: list_traversal_def list_empty_spec node_at_0)

section \<open>The queue contract\<close>

text \<open>
  What the clients of \<^verbatim>\<open>list.c\<close> rely on.  The theories of the scheduler, the wait
  queues, the allocator and the inode cache keep their lists as HOL lists; this contract,
  met by the pointer code, is why that is the same thing as long as a node is in one list
  only.
\<close>

fun append_all :: "('l \<Rightarrow> 'a \<Rightarrow> 'm \<Rightarrow> 'm kres) \<Rightarrow> 'l \<Rightarrow> 'a list \<Rightarrow> 'm \<Rightarrow> 'm kres" where
  "append_all ap l [] m = Inr m"
| "append_all ap l (x # xs) m = kbind (ap l x m) (append_all ap l xs)"

fun pop_n :: "('l \<Rightarrow> 'm \<Rightarrow> ('a \<times> 'm) kres) \<Rightarrow> 'l \<Rightarrow> nat \<Rightarrow> 'm \<Rightarrow> ('a list \<times> 'm) kres" where
  "pop_n po l 0 m = Inr ([], m)"
| "pop_n po l (Suc n) m = kbind (po l m) (\<lambda>(x, m). kbind (pop_n po l n m) (\<lambda>(xs, m). Inr (x # xs, m)))"

locale elem_queue =
  fixes holds :: "'m \<Rightarrow> 'l \<Rightarrow> 'a list \<Rightarrow> bool"
    and okay :: "'l \<Rightarrow> 'a \<Rightarrow> bool"
    and push :: "'l \<Rightarrow> 'a \<Rightarrow> 'm \<Rightarrow> 'm kres"
    and append :: "'l \<Rightarrow> 'a \<Rightarrow> 'm \<Rightarrow> 'm kres"
    and pop :: "'l \<Rightarrow> 'm \<Rightarrow> ('a \<times> 'm) kres"
    and remove :: "'a \<Rightarrow> 'm \<Rightarrow> 'm kres"
  assumes push_law: "holds m l xs \<Longrightarrow> okay l x \<Longrightarrow> x \<notin> set xs \<Longrightarrow> \<exists>m'. push l x m = Inr m' \<and> holds m' l (x # xs)"
    and append_law: "holds m l xs \<Longrightarrow> okay l x \<Longrightarrow> x \<notin> set xs \<Longrightarrow> \<exists>m'. append l x m = Inr m' \<and> holds m' l (xs @ [x])"
    and pop_law: "holds m l (x # xs) \<Longrightarrow> \<exists>m'. pop l m = Inr (x, m') \<and> holds m' l xs"
    and remove_law: "holds m l xs \<Longrightarrow> x \<in> set xs \<Longrightarrow> \<exists>m'. remove x m = Inr m' \<and> holds m' l (remove1 x xs)"
    and distinct_law: "holds m l xs \<Longrightarrow> distinct xs"
    and okay_law: "holds m l xs \<Longrightarrow> x \<in> set xs \<Longrightarrow> okay l x"
begin

lemma append_all_law:
  assumes "holds m l xs" "distinct ys" "set ys \<inter> set xs = {}" "\<forall>y\<in>set ys. okay l y"
  shows "\<exists>m'. append_all append l ys m = Inr m' \<and> holds m' l (xs @ ys)"
  using assms
proof (induction ys arbitrary: m xs)
  case Nil
  then show ?case by simp
next
  case (Cons y ys)
  from append_law [of m l xs y] Cons.prems obtain m1 where
    m1: "append l y m = Inr m1" "holds m1 l (xs @ [y])" by auto
  from Cons.IH [OF m1(2)] Cons.prems m1(1) show ?case by auto
qed

lemma pop_n_law:
  "holds m l (xs @ ys) \<Longrightarrow> \<exists>m'. pop_n pop l (length xs) m = Inr (xs, m') \<and> holds m' l ys"
proof (induction xs arbitrary: m)
  case Nil
  then show ?case by simp
next
  case (Cons x xs)
  from pop_law [of m l x "xs @ ys"] Cons.prems obtain m1 where
    m1: "pop l m = Inr (x, m1)" "holds m1 l (xs @ ys)" by auto
  from Cons.IH [OF m1(2)] m1(1) show ?case by auto
qed

lemma fifo:
  assumes "holds m l []" "distinct ys" "\<forall>y\<in>set ys. okay l y"
  shows "\<exists>m' m''. append_all append l ys m = Inr m' \<and> pop_n pop l (length ys) m' = Inr (ys, m'') \<and> holds m'' l []"
  using append_all_law [OF assms(1,2) _ assms(3)] pop_n_law [of _ l ys "[]"] by fastforce

lemma push_pop:
  assumes "holds m l xs" "okay l x" "x \<notin> set xs"
  shows "\<exists>m' m''. push l x m = Inr m' \<and> pop l m' = Inr (x, m'') \<and> holds m'' l xs"
  using push_law [OF assms] pop_law by blast

lemma round_robin:
  assumes "holds m l (x # xs)"
  shows "\<exists>m' m''. pop l m = Inr (x, m') \<and> append l x m' = Inr m'' \<and> holds m'' l (rotate1 (x # xs))"
proof -
  obtain m' where m': "pop l m = Inr (x, m')" "holds m' l xs" using pop_law [OF assms] by blast
  have "x \<notin> set xs" "okay l x" using distinct_law [OF assms] okay_law [OF assms] by auto
  with append_law [OF m'(2)] m'(1) show ?thesis by auto
qed

end

interpretation kq: elem_queue is_list node_ok list_push list_append list_pop list_remove
proof unfold_locales
  fix m l xs x
  show "is_list m l xs \<Longrightarrow> node_ok l x \<Longrightarrow> x \<notin> set xs \<Longrightarrow> \<exists>m'. list_push l x m = Inr m' \<and> is_list m' l (x # xs)"
    using list_push_spec by blast
  show "is_list m l xs \<Longrightarrow> node_ok l x \<Longrightarrow> x \<notin> set xs \<Longrightarrow> \<exists>m'. list_append l x m = Inr m' \<and> is_list m' l (xs @ [x])"
    using list_append_spec by blast
  show "is_list m l (x # xs) \<Longrightarrow> \<exists>m'. list_pop l m = Inr (x, m') \<and> is_list m' l xs"
    using list_pop_spec by blast
  show "is_list m l xs \<Longrightarrow> x \<in> set xs \<Longrightarrow> \<exists>m'. list_remove x m = Inr m' \<and> is_list m' l (remove1 x xs)"
    using list_remove_spec by blast
  show "is_list m l xs \<Longrightarrow> distinct xs" by (simp add: is_list_def spine_def)
  show "is_list m l xs \<Longrightarrow> x \<in> set xs \<Longrightarrow> node_ok l x" by (auto simp: is_list_def spine_def node_ok_def)
qed

section \<open>Properties\<close>

text \<open>C5.  The pointer code of \<^verbatim>\<open>list.c\<close> implements a sequence: on memory in which the list at
  \<open>l\<close> holds \<open>xs\<close>, pushing, appending, removing and popping give memory in which it holds
  the changed sequence, the flags register is unchanged, and every node outside the list
  keeps its pointers.\<close>

theorem list_ops_refine:
  assumes "is_list m l xs" and "node_ok l e" "e \<notin> set xs"
  shows "(\<exists>m'. list_push l e m = Inr m' \<and> is_list m' l (e # xs) \<and> eflags m' = eflags m
           \<and> (\<forall>p. p \<notin> set (spine l (e # xs)) \<longrightarrow> nodes m' p = nodes m p))
    \<and> (\<exists>m'. list_append l e m = Inr m' \<and> is_list m' l (xs @ [e]) \<and> eflags m' = eflags m
           \<and> (\<forall>p. p \<notin> set (spine l (xs @ [e])) \<longrightarrow> nodes m' p = nodes m p))
    \<and> (\<forall>x\<in>set xs. \<exists>m'. list_remove x m = Inr m' \<and> is_list m' l (remove1 x xs) \<and> eflags m' = eflags m
           \<and> (\<forall>p. p \<notin> set (spine l xs) \<longrightarrow> nodes m' p = nodes m p))
    \<and> (xs \<noteq> [] \<longrightarrow> (\<exists>m'. list_pop l m = Inr (hd xs, m') \<and> is_list m' l (tl xs) \<and> eflags m' = eflags m
           \<and> (\<forall>p. p \<notin> set (spine l xs) \<longrightarrow> nodes m' p = nodes m p)))
    \<and> list_empty l m = Inr (xs = [])"
proof (intro conjI)
  show "xs \<noteq> [] \<longrightarrow> (\<exists>m'. list_pop l m = Inr (hd xs, m') \<and> is_list m' l (tl xs) \<and> eflags m' = eflags m
           \<and> (\<forall>p. p \<notin> set (spine l xs) \<longrightarrow> nodes m' p = nodes m p))"
    using list_pop_spec [of m l "hd xs" "tl xs"] assms(1) by auto
qed (use list_push_spec [OF assms] list_append_spec [OF assms] list_remove_spec [OF assms(1)]
      list_empty_spec [OF assms(1)] in auto)

text \<open>A list of two elements at \<open>0x100\<close>, as \<^verbatim>\<open>list_init\<close> and two appends leave it.\<close>

definition two_elems :: lmem where
  "two_elems = \<lparr>eflags = 0x202, nodes = (\<lambda>_. \<lparr>le_prev = 0, le_next = 0\<rparr>)
     (0x100 := \<lparr>le_prev = 0, le_next = 0x200\<rparr>, 0x200 := \<lparr>le_prev = 0x100, le_next = 0x300\<rparr>,
      0x300 := \<lparr>le_prev = 0x200, le_next = 0x108\<rparr>, 0x108 := \<lparr>le_prev = 0x300, le_next = 0\<rparr>)\<rparr>"

lemma two_elems_list: "is_list two_elems 0x100 [0x200, 0x300]"
  by (simp add: is_list_def spine_def two_elems_def)

theorem list_ops_refine_witness:
  "\<exists>m'. list_push 0x100 0x400 two_elems = Inr m' \<and> is_list m' 0x100 [0x400, 0x200, 0x300]"
  using list_ops_refine [OF two_elems_list, of "0x400"] by (auto simp: node_ok_def)

text \<open>C6.  First in, first out: elements appended to an empty list are popped in the order they
  were appended, and the list is empty again.\<close>

theorem list_fifo:
  assumes "is_list m l []" "distinct es" "\<forall>e\<in>set es. node_ok l e"
  shows "\<exists>m' m''. append_all list_append l es m = Inr m'
    \<and> pop_n list_pop l (length es) m' = Inr (es, m'') \<and> is_list m'' l []"
  using kq.fifo [OF assms] .

theorem list_fifo_witness:
  "\<exists>m m' m''. list_init 0x100 two_elems = Inr m
    \<and> append_all list_append 0x100 [0x500, 0x400, 0x600] m = Inr m'
    \<and> pop_n list_pop 0x100 3 m' = Inr ([0x500, 0x400, 0x600], m'') \<and> is_list m'' 0x100 []"
proof -
  obtain m where m: "list_init 0x100 two_elems = Inr m" "is_list m 0x100 []"
    using list_init_spec [of "0x100" two_elems] by auto
  from list_fifo [OF m(2), of "[0x500, 0x400, 0x600]"] m(1) show ?thesis
    by (auto simp: node_ok_def numeral_3_eq_3)
qed

text \<open>C7.  The traversals of a list end, and they compute what they should: \<^verbatim>\<open>elem_find\<close>
  membership, \<^verbatim>\<open>list_len\<close> the length, \<^verbatim>\<open>list_traversal\<close> the first element the callback
  accepts (null when there is none), calling it on the elements in order and on none
  behind the hit.\<close>

theorem list_traversals:
  assumes "is_list m l xs"
  shows "elem_find l e m = Some (Inr (e \<in> set xs))
    \<and> list_len l m = Some (Inr (of_nat (length xs)))
    \<and> list_traversal l f arg m c = Some (Inr (first_hit f arg xs c))"
  using elem_find_spec list_len_spec list_traversal_spec assms by auto

theorem list_traversals_witness:
  "elem_find 0x100 0x300 two_elems = Some (Inr True) \<and> list_len 0x100 two_elems = Some (Inr 2)
   \<and> list_traversal 0x100 (\<lambda>e arg c. (e = 0x300, c + arg)) 5 two_elems 0 = Some (Inr (0x300, 10))"
  using list_traversals [OF two_elems_list, of "0x300" "\<lambda>e arg c. (e = 0x300, c + arg)" 5 0] by simp

end
