(* ===== verification/Strings.thy ===== *)
theory Strings
  imports Kernel_Prelude
begin

text \<open>
  \<^verbatim>\<open>lib/string.c\<close>, \<^verbatim>\<open>lib/stdio.c\<close>: the byte and string functions and the formatter.

  The memory the functions see is a list of bytes, an address is an index into it and 0 is
  the null pointer; an access outside the list is a \<^const>\<open>Fault\<close>.  The loops of the source
  go on until they find a zero byte; every round moves one address up, so they end at the
  latest at the end of the memory.  \<^verbatim>\<open>char\<close> is signed on this target: comparisons of
  characters read the bytes as signed numbers.
\<close>

type_synonym bytes = "u8 list"

section \<open>Blocks of bytes\<close>

fun memset_loop :: "nat \<Rightarrow> u8 \<Rightarrow> nat \<Rightarrow> bytes \<Rightarrow> bytes kres" where
  "memset_loop dst v 0 m = Inr m"
| "memset_loop dst v (Suc sz) m = kbind (aset m dst v) (memset_loop (Suc dst) v sz)"

definition memset :: "nat \<Rightarrow> u8 \<Rightarrow> nat \<Rightarrow> bytes \<Rightarrow> bytes kres" where
  "memset dst v sz m = kbind (kassert ''memset'' (dst \<noteq> 0)) (\<lambda>_. memset_loop dst v sz m)"

fun memcpy_loop :: "nat \<Rightarrow> nat \<Rightarrow> nat \<Rightarrow> bytes \<Rightarrow> bytes kres" where
  "memcpy_loop dst src 0 m = Inr m"
| "memcpy_loop dst src (Suc sz) m =
     kbind (aget m src) (\<lambda>x. kbind (aset m dst x) (memcpy_loop (Suc dst) (Suc src) sz))"

definition memcpy :: "nat \<Rightarrow> nat \<Rightarrow> nat \<Rightarrow> bytes \<Rightarrow> bytes kres" where
  "memcpy dst src sz m = kbind (kassert ''memcpy'' (dst \<noteq> 0 \<and> src \<noteq> 0)) (\<lambda>_. memcpy_loop dst src sz m)"

fun memcmp_loop :: "nat \<Rightarrow> nat \<Rightarrow> nat \<Rightarrow> bytes \<Rightarrow> int kres" where
  "memcmp_loop a b 0 m = Inr 0"
| "memcmp_loop a b (Suc sz) m =
     kbind (aget m a) (\<lambda>x. kbind (aget m b) (\<lambda>y.
       if x \<noteq> y then Inr (if sint x > sint y then 1 else - 1) else memcmp_loop (Suc a) (Suc b) sz m))"

definition memcmp :: "nat \<Rightarrow> nat \<Rightarrow> nat \<Rightarrow> bytes \<Rightarrow> int kres" where
  "memcmp a b sz m = kbind (kassert ''memcmp'' (a \<noteq> 0 \<or> b \<noteq> 0)) (\<lambda>_. memcmp_loop a b sz m)"

section \<open>Strings\<close>

function copy_loop :: "nat \<Rightarrow> nat \<Rightarrow> bytes \<Rightarrow> bytes kres" where
  "copy_loop dst src m =
     kbind (aget m src) (\<lambda>x. kbind (aset m dst x) (\<lambda>m'. if x \<noteq> 0 then copy_loop (Suc dst) (Suc src) m' else Inr m'))"
  by pat_completeness auto
termination
  by (relation "measure (\<lambda>(dst, src, m). length m - src)") (auto simp: aget_eq_Inr aset_eq_Inr)

definition strcpy :: "nat \<Rightarrow> nat \<Rightarrow> bytes \<Rightarrow> bytes kres" where
  "strcpy dst src m = kbind (kassert ''strcpy'' (dst \<noteq> 0 \<and> src \<noteq> 0)) (\<lambda>_. copy_loop dst src m)"

text \<open>The address of the first zero byte from \<open>p\<close> on.\<close>

function to_nul :: "nat \<Rightarrow> bytes \<Rightarrow> nat kres" where
  "to_nul p m = kbind (aget m p) (\<lambda>x. if x \<noteq> 0 then to_nul (Suc p) m else Inr p)"
  by pat_completeness auto
termination
  by (relation "measure (\<lambda>(p, m). length m - p)") (auto simp: aget_eq_Inr)

definition strlen :: "nat \<Rightarrow> bytes \<Rightarrow> nat kres" where
  "strlen str m = kbind (kassert ''strlen'' (str \<noteq> 0)) (\<lambda>_. kbind (to_nul str m) (\<lambda>p. Inr (p - str)))"

function strcmp_loop :: "nat \<Rightarrow> nat \<Rightarrow> bytes \<Rightarrow> int kres" where
  "strcmp_loop a b m =
     kbind (aget m a) (\<lambda>x. kbind (aget m b) (\<lambda>y.
       if x \<noteq> 0 \<and> x = y then strcmp_loop (Suc a) (Suc b) m
       else Inr (if sint x < sint y then - 1 else if sint x > sint y then 1 else 0)))"
  by pat_completeness auto
termination
  by (relation "measure (\<lambda>(a, b, m). length m - a)") (auto simp: aget_eq_Inr)

definition strcmp :: "nat \<Rightarrow> nat \<Rightarrow> bytes \<Rightarrow> int kres" where
  "strcmp a b m = kbind (kassert ''strcmp'' (a \<noteq> 0 \<and> b \<noteq> 0)) (\<lambda>_. strcmp_loop a b m)"

text \<open>A character equals the unsigned \<open>ch\<close> only when both are below 128: the character is widened with its sign.\<close>

definition char_is :: "u8 \<Rightarrow> u8 \<Rightarrow> bool" where
  "char_is x ch \<longleftrightarrow> sint x = uint ch"

function strchr_loop :: "nat \<Rightarrow> u8 \<Rightarrow> bytes \<Rightarrow> nat kres" where
  "strchr_loop str ch m =
     kbind (aget m str) (\<lambda>x. if x = 0 then Inr 0 else if char_is x ch then Inr str else strchr_loop (Suc str) ch m)"
  by pat_completeness auto
termination
  by (relation "measure (\<lambda>(str, ch, m). length m - str)") (auto simp: aget_eq_Inr)

definition strchr :: "nat \<Rightarrow> u8 \<Rightarrow> bytes \<Rightarrow> nat kres" where
  "strchr str ch m = kbind (kassert ''strchr'' (str \<noteq> 0)) (\<lambda>_. strchr_loop str ch m)"

function strrchr_loop :: "nat \<Rightarrow> u8 \<Rightarrow> nat \<Rightarrow> bytes \<Rightarrow> nat kres" where
  "strrchr_loop str ch last_char m =
     kbind (aget m str) (\<lambda>x. if x = 0 then Inr last_char else strrchr_loop (Suc str) ch (if char_is x ch then str else last_char) m)"
  by pat_completeness auto
termination
  by (relation "measure (\<lambda>(str, ch, l, m). length m - str)") (auto simp: aget_eq_Inr)

definition strrchr :: "nat \<Rightarrow> u8 \<Rightarrow> bytes \<Rightarrow> nat kres" where
  "strrchr str ch m = kbind (kassert ''strrchr'' (str \<noteq> 0)) (\<lambda>_. strrchr_loop str ch 0 m)"

definition strcat :: "nat \<Rightarrow> nat \<Rightarrow> bytes \<Rightarrow> bytes kres" where
  "strcat dst src m =
     kbind (kassert ''strcat'' (dst \<noteq> 0 \<and> src \<noteq> 0)) (\<lambda>_. kbind (to_nul dst m) (\<lambda>str. copy_loop str src m))"

function strchrs_loop :: "nat \<Rightarrow> u8 \<Rightarrow> nat \<Rightarrow> bytes \<Rightarrow> nat kres" where
  "strchrs_loop p ch ch_cnt m =
     kbind (aget m p) (\<lambda>x. if x = 0 then Inr ch_cnt else strchrs_loop (Suc p) ch (if char_is x ch then Suc ch_cnt else ch_cnt) m)"
  by pat_completeness auto
termination
  by (relation "measure (\<lambda>(p, ch, c, m). length m - p)") (auto simp: aget_eq_Inr)

definition strchrs :: "nat \<Rightarrow> u8 \<Rightarrow> bytes \<Rightarrow> nat kres" where
  "strchrs str ch m = kbind (kassert ''strchrs'' (str \<noteq> 0)) (\<lambda>_. strchrs_loop str ch 0 m)"

declare copy_loop.simps [simp del] to_nul.simps [simp del] strcmp_loop.simps [simp del]
  strchr_loop.simps [simp del] strrchr_loop.simps [simp del] strchrs_loop.simps [simp del]

section \<open>What the functions compute\<close>

text \<open>The zero-terminated string \<open>cs\<close> is at address \<open>p\<close>.\<close>

primrec cstr :: "bytes \<Rightarrow> nat \<Rightarrow> bytes \<Rightarrow> bool" where
  "cstr m p [] \<longleftrightarrow> p < length m \<and> m ! p = 0"
| "cstr m p (c # cs) \<longleftrightarrow> p < length m \<and> m ! p = c \<and> c \<noteq> 0 \<and> cstr m (Suc p) cs"

lemma cstr_bound: "cstr m p cs \<Longrightarrow> p + length cs < length m"
  by (induction cs arbitrary: p) fastforce+

lemma cstr_not_0: "cstr m p cs \<Longrightarrow> 0 \<notin> set cs"
  by (induction cs arbitrary: p) auto

lemma cstr_iff: "cstr m p cs \<longleftrightarrow> p + length cs < length m \<and> take (Suc (length cs)) (drop p m) = cs @ [0] \<and> 0 \<notin> set cs"
proof (induction cs arbitrary: p)
  case Nil
  then show ?case by (auto simp: take_Suc_conv_app_nth)
next
  case (Cons c cs)
  have "take (Suc (Suc (length cs))) (drop p m) = m ! p # take (Suc (length cs)) (drop (Suc p) m)" if "p < length m"
    using that by (metis Cons_nth_drop_Suc take_Suc_Cons)
  then show ?case using Cons.IH [of "Suc p"] by auto
qed

lemma cstr_overwrite_same: "0 \<notin> set cs \<Longrightarrow> p + length cs < length m \<Longrightarrow> cstr (overwrite p (cs @ [0]) m) p cs"
  using take_drop_overwrite_same [of p "cs @ [0]" m] by (simp add: cstr_iff)

lemma cstr_overwrite_other:
  assumes "p + length xs \<le> length m" "q + length cs < p \<or> p + length xs \<le> q"
  shows "cstr (overwrite p xs m) q cs = cstr m q cs"
  using assms take_drop_overwrite_other [of p xs m q "Suc (length cs)"] by (auto simp: cstr_iff)

lemma memset_loop_overwrite: "dst + n \<le> length m \<Longrightarrow> memset_loop dst v n m = Inr (overwrite dst (replicate n v) m)"
  by (induction n arbitrary: dst m) (simp_all add: overwrite_Cons)

lemma memcpy_loop_overwrite:
  "dst + n \<le> length m \<Longrightarrow> src + n \<le> length m \<Longrightarrow> dst \<le> src \<or> src + n \<le> dst \<Longrightarrow>
    memcpy_loop dst src n m = Inr (overwrite dst (take n (drop src m)) m)"
proof (induction n arbitrary: dst src m)
  case 0
  then show ?case by simp
next
  case (Suc n)
  let ?m = "m[dst := m ! src]"
  have "take n (drop (Suc src) ?m) = take n (drop (Suc src) m)"
    using Suc.prems by (intro list_eq_nthI) (auto simp: nth_list_update)
  moreover have "take (Suc n) (drop src m) = m ! src # take n (drop (Suc src) m)"
    using Suc.prems(2) by (metis Cons_nth_drop_Suc add_Suc_right less_le_trans less_add_Suc1 take_Suc_Cons)
  ultimately show ?case using Suc.IH [of "Suc dst" ?m "Suc src"] Suc.prems by (auto simp: overwrite_Cons)
qed

lemma copy_loop_overwrite:
  "cstr m src cs \<Longrightarrow> dst + length cs < length m \<Longrightarrow> dst \<le> src \<or> src + length cs < dst \<Longrightarrow>
    copy_loop dst src m = Inr (overwrite dst (cs @ [0]) m)"
proof (induction cs arbitrary: dst src m)
  case Nil
  then show ?case by (simp add: copy_loop.simps [of dst] overwrite_Cons)
next
  case (Cons c cs)
  let ?m = "m[dst := c]"
  have "take (Suc (length cs)) (drop (Suc src) ?m) = take (Suc (length cs)) (drop (Suc src) m)"
    using Cons.prems cstr_bound [OF Cons.prems(1)] by (intro list_eq_nthI) (auto simp: nth_list_update)
  then have "cstr ?m (Suc src) cs" using Cons.prems(1) by (simp add: cstr_iff [of _ "Suc src"])
  then show ?case using Cons.IH [of ?m "Suc src" "Suc dst"] Cons.prems
    by (auto simp: copy_loop.simps [of dst] overwrite_Cons)
qed

lemma to_nul_cstr: "cstr m p cs \<Longrightarrow> to_nul p m = Inr (p + length cs)"
  by (induction cs arbitrary: p) (simp_all add: to_nul.simps)

lemma strlen_cstr: "cstr m p cs \<Longrightarrow> p \<noteq> 0 \<Longrightarrow> strlen p m = Inr (length cs)"
  by (simp add: strlen_def to_nul_cstr)

text \<open>The order of \<^verbatim>\<open>strcmp\<close>: the first different character decides, the end of a string counting as 0.\<close>

fun cmp_str :: "bytes \<Rightarrow> bytes \<Rightarrow> int" where
  "cmp_str [] [] = 0"
| "cmp_str [] (d # ds) = (if 0 < sint d then - 1 else 1)"
| "cmp_str (c # cs) [] = (if sint c < 0 then - 1 else 1)"
| "cmp_str (c # cs) (d # ds) = (if c = d then cmp_str cs ds else if sint c < sint d then - 1 else 1)"

lemma cmp_str_0_iff: "cmp_str cs ds = 0 \<longleftrightarrow> cs = ds"
  by (induction cs ds rule: cmp_str.induct) auto

lemma strcmp_loop_cstr: "cstr m a cs \<Longrightarrow> cstr m b ds \<Longrightarrow> strcmp_loop a b m = Inr (cmp_str cs ds)"
proof (induction cs ds arbitrary: a b rule: cmp_str.induct)
  case 1
  then show ?case by (simp add: strcmp_loop.simps)
next
  case (2 d ds)
  then have "sint d \<noteq> sint (0 :: u8)" by (auto simp: signed_word_eqI)
  then show ?case using 2 by (simp add: strcmp_loop.simps [of a])
next
  case (3 c cs)
  then have "sint c \<noteq> sint (0 :: u8)" by (auto simp: signed_word_eqI)
  then show ?case using 3 by (simp add: strcmp_loop.simps [of a])
next
  case (4 c cs d ds)
  then have "c \<noteq> d \<Longrightarrow> sint c \<noteq> sint d" by (auto simp: signed_word_eqI)
  then show ?case using 4 by (auto simp: strcmp_loop.simps [of a])
qed

lemma strchr_loop_cstr:
  "cstr m p cs \<Longrightarrow> strchr_loop p ch m = Inr (if \<exists>c\<in>set cs. char_is c ch then p + length (takeWhile (\<lambda>c. \<not> char_is c ch) cs) else 0)"
  by (induction cs arbitrary: p) (auto simp: strchr_loop.simps)

lemma strrchr_loop_cstr:
  "cstr m p cs \<Longrightarrow> strrchr_loop p ch l m = Inr (if \<exists>c\<in>set cs. char_is c ch
      then p + length cs - Suc (length (takeWhile (\<lambda>c. \<not> char_is c ch) (rev cs))) else l)"
proof (induction cs arbitrary: p l)
  case Nil
  then show ?case by (simp add: strrchr_loop.simps)
next
  case (Cons c cs)
  then have "strrchr_loop p ch l m = strrchr_loop (Suc p) ch (if char_is c ch then p else l) m"
    by (simp add: strrchr_loop.simps [of p])
  then show ?case using Cons.IH [of "Suc p"] Cons.prems by (auto simp: takeWhile_append)
qed

lemma strchrs_loop_cstr: "cstr m p cs \<Longrightarrow> strchrs_loop p ch n m = Inr (n + length (filter (\<lambda>c. char_is c ch) cs))"
  by (induction cs arbitrary: p n) (auto simp: strchrs_loop.simps)

section \<open>Properties\<close>

text \<open>C25.  \<^verbatim>\<open>strcmp\<close>: on two strings it returns, without reading past their ends, -1, 0 or 1 by the
  first character in which they differ (read with its sign); it returns 0 exactly when the
  strings are equal.\<close>

theorem strcmp_order:
  assumes "cstr m a cs" "cstr m b ds" "a \<noteq> 0" "b \<noteq> 0"
  shows "strcmp a b m = Inr (cmp_str cs ds) \<and> (strcmp a b m = Inr 0 \<longleftrightarrow> cs = ds)"
  using strcmp_loop_cstr [OF assms(1,2)] assms(3,4) by (simp add: strcmp_def cmp_str_0_iff)

theorem strcmp_order_witness:
  "strcmp 1 4 [9, 97, 98, 0, 97, 99, 0] = Inr (- 1)"
  using strcmp_order [of "[9, 97, 98, 0, 97, 99, 0]" 1 "[97, 98]" 4 "[97, 99]"] by simp

text \<open>C26.  \<^verbatim>\<open>strcat\<close>: when the string at \<open>src\<close> does not lie within the place it is copied to, and there is
  room, the string at \<open>dst\<close> is extended by it, and no other byte of the memory changes.\<close>

theorem strcat_appends:
  assumes "cstr m dst ds" "cstr m src cs" "dst \<noteq> 0" "src \<noteq> 0" "dst + length ds + length cs < length m"
    "src + length cs < dst \<or> dst + length ds + length cs < src"
  shows "\<exists>m'. strcat dst src m = Inr m' \<and> cstr m' dst (ds @ cs) \<and> length m' = length m
    \<and> (\<forall>i. \<not> (dst + length ds \<le> i \<and> i \<le> dst + length ds + length cs) \<longrightarrow> m' ! i = m ! i)"
proof -
  let ?p = "dst + length ds"
  have "copy_loop ?p src m = Inr (overwrite ?p (cs @ [0]) m)"
    by (rule copy_loop_overwrite [OF assms(2)]) (use assms(5,6) in auto)
  then have r: "strcat dst src m = Inr (overwrite ?p (cs @ [0]) m)"
    using assms(3,4) by (simp add: strcat_def to_nul_cstr [OF assms(1)])
  have "cstr (overwrite ?p (cs @ [0]) m) dst (ds @ cs)"
  proof -
    have d: "take (length ds) (drop dst m) = ds" "0 \<notin> set ds" "0 \<notin> set cs"
      using assms(1,2) cstr_bound [OF assms(1)] by (auto simp: cstr_iff take_Suc_conv_app_nth)
    have "m = overwrite dst ds m"
      using d(1) cstr_bound [OF assms(1)] by (simp add: overwrite_def) (metis add.commute append_assoc append_take_drop_id drop_drop take_add)
    then have "overwrite ?p (cs @ [0]) m = overwrite dst ((ds @ cs) @ [0]) m"
      using overwrite_overwrite [of dst ds "cs @ [0]" m] assms(5) by simp
    then show ?thesis using cstr_overwrite_same [of "ds @ cs" dst m] d assms(5) by simp
  qed
  then show ?thesis using r assms(5) by (auto simp: nth_overwrite)
qed

theorem strcat_appends_witness:
  "\<exists>m'. strcat 3 1 [9, 47, 0, 97, 0, 7, 7] = Inr m' \<and> cstr m' 3 [97, 47]"
  using strcat_appends [of "[9, 47, 0, 97, 0, 7, 7]" 3 "[97]" 1 "[47]"] by auto

end
