(* ===== verification/Stdio.thy ===== *)
theory Stdio
  imports Strings
begin

text \<open>
  \<^verbatim>\<open>lib/stdio.c\<close>: the conversion of numbers to text and the formatter behind
  \<^verbatim>\<open>printf\<close>, \<^verbatim>\<open>sprintf\<close> and \<^verbatim>\<open>printk\<close>, on the byte memory of \<^verbatim>\<open>Strings\<close>.  The variable
  arguments are the list of the 32-bit words that follow the format on the stack; reading
  past its end is a \<^const>\<open>Fault\<close>.
\<close>

section \<open>Numbers\<close>

text \<open>Division by zero faults, and with base 1 the recursion of the source does not end.\<close>

function itoa :: "u32 \<Rightarrow> nat \<Rightarrow> u8 \<Rightarrow> bytes \<Rightarrow> (nat \<times> bytes) kres" where
  "itoa v buf_ptr base mem =
     (if base = 0 then Inl Fault else if base = 1 \<and> v \<noteq> 0 then Inl Diverges
      else let m = v mod ucast base; i = v div ucast base
           in kbind (if i \<noteq> 0 then itoa i buf_ptr base mem else Inr (buf_ptr, mem)) (\<lambda>(buf_ptr, mem).
              kbind (aset mem buf_ptr (ucast (if m < 10 then m + 48 else m - 10 + 65))) (\<lambda>mem.
              Inr (Suc buf_ptr, mem))))"
  by pat_completeness auto
termination
proof (relation "measure (\<lambda>(v, p, base, m). unat v)", simp, goal_cases)
  case (1 v p base m x xa)
  have "base \<noteq> 1" using 1 by auto
  then have "unat base \<noteq> 0" "unat base \<noteq> 1" using 1 by (metis unat_eq_zero, metis unat_1 word_unat_eq_iff)
  then have b: "2 \<le> unat (ucast base :: u32)" by (simp add: unat_ucast_u8)
  have "v \<noteq> 0" using 1 by auto
  then have "0 < unat v" by (simp add: unat_gt_0)
  then have "unat v div unat (ucast base :: u32) < unat v" using b by (intro div_less_dividend) auto
  then show ?case using 1 by (simp add: unat_div_distrib)
qed

declare itoa.simps [simp del]

section \<open>The formatter\<close>

abbreviation chr :: "char \<Rightarrow> u8" where "chr c \<equiv> of_char c"

lemma copy_loop_length: "copy_loop dst src m = Inr m' \<Longrightarrow> length m' = length m"
proof (induction dst src m arbitrary: m' rule: copy_loop.induct)
  case (1 dst src m)
  from "1.prems" show ?case
    by (subst (asm) copy_loop.simps) (auto simp: aget_eq_Inr aset_eq_Inr split: if_splits dest!: "1.IH" [rotated -1])
qed

lemma strcpy_length: "strcpy dst src m = Inr m' \<Longrightarrow> length m' = length m"
  by (auto simp: strcpy_def dest: copy_loop_length)

lemma itoa_length: "itoa v p base m = Inr (p', m') \<Longrightarrow> length m' = length m"
proof (induction v p base m arbitrary: p' m' rule: itoa.induct)
  case (1 v p base m)
  from "1.prems" show ?case
    by (subst (asm) itoa.simps) (auto simp: Let_def aset_eq_Inr split: if_splits dest!: "1.IH" [rotated -1])
qed

text \<open>
  One round of the loop of \<^verbatim>\<open>vsprintf\<close> handles one character or one conversion.  A conversion
  that is not known is not skipped: its letter is looked at again as the next character.
\<close>

function vsprintf_loop :: "u8 \<Rightarrow> nat \<Rightarrow> nat \<Rightarrow> u32 list \<Rightarrow> bytes \<Rightarrow> bytes kres" where
  "vsprintf_loop index_char index_ptr buf_ptr ap m =
     (if index_char = 0 then Inr m
      else if index_char \<noteq> chr CHR ''%'' then
        kbind (aset m buf_ptr index_char) (\<lambda>m.
        kbind (aget m (Suc index_ptr)) (\<lambda>c. vsprintf_loop c (Suc index_ptr) (Suc buf_ptr) ap m))
      else
        kbind (aget m (Suc index_ptr)) (\<lambda>index_char.
        if index_char = chr CHR ''s'' then
          (case ap of [] \<Rightarrow> Inl Fault | arg_str # ap \<Rightarrow>
             kbind (strcpy buf_ptr (unat arg_str) m) (\<lambda>m.
             kbind (strlen (unat arg_str) m) (\<lambda>l.
             kbind (aget m (Suc (Suc index_ptr))) (\<lambda>c. vsprintf_loop c (Suc (Suc index_ptr)) (buf_ptr + l) ap m))))
        else if index_char = chr CHR ''c'' then
          (case ap of [] \<Rightarrow> Inl Fault | arg # ap \<Rightarrow>
             kbind (aset m buf_ptr (ucast arg)) (\<lambda>m.
             kbind (aget m (Suc (Suc index_ptr))) (\<lambda>c. vsprintf_loop c (Suc (Suc index_ptr)) (Suc buf_ptr) ap m)))
        else if index_char = chr CHR ''d'' then
          (case ap of [] \<Rightarrow> Inl Fault | arg_int # ap \<Rightarrow>
             kbind (if sint arg_int < 0 then kbind (aset m buf_ptr (chr CHR ''-'')) (\<lambda>m. Inr (0 - arg_int, Suc buf_ptr, m))
                    else Inr (arg_int, buf_ptr, m)) (\<lambda>(arg_int, buf_ptr, m).
             kbind (itoa arg_int buf_ptr 10 m) (\<lambda>(buf_ptr, m).
             kbind (aget m (Suc (Suc index_ptr))) (\<lambda>c. vsprintf_loop c (Suc (Suc index_ptr)) buf_ptr ap m))))
        else if index_char = chr CHR ''x'' then
          (case ap of [] \<Rightarrow> Inl Fault | arg_int # ap \<Rightarrow>
             kbind (itoa arg_int buf_ptr 16 m) (\<lambda>(buf_ptr, m).
             kbind (aget m (Suc (Suc index_ptr))) (\<lambda>c. vsprintf_loop c (Suc (Suc index_ptr)) buf_ptr ap m)))
        else vsprintf_loop index_char (Suc index_ptr) buf_ptr ap m))"
  by pat_completeness auto
termination
  by (relation "measure (\<lambda>(c, index_ptr, b, ap, m). length m - index_ptr)")
    (auto simp: aget_eq_Inr aset_eq_Inr dest!: strcpy_length itoa_length split: if_splits)

declare vsprintf_loop.simps [simp del]

definition vsprintf :: "nat \<Rightarrow> nat \<Rightarrow> u32 list \<Rightarrow> bytes \<Rightarrow> (nat \<times> bytes) kres" where
  "vsprintf str format ap m =
     kbind (aget m format) (\<lambda>index_char.
     kbind (vsprintf_loop index_char format str ap m) (\<lambda>m.
     kbind (strlen str m) (\<lambda>l. Inr (l, m))))"

definition sprintf :: "nat \<Rightarrow> nat \<Rightarrow> u32 list \<Rightarrow> bytes \<Rightarrow> (nat \<times> bytes) kres" where
  "sprintf buf format args m = vsprintf buf format args m"

text \<open>
  \<^verbatim>\<open>printf\<close> formats into a cleared local array of 1024 bytes, here at address \<open>buf\<close>, and hands the
  text to the system call \<^verbatim>\<open>write\<close>, whose effect on the caller is the parameter \<open>write\<close>.
\<close>

definition printf :: "(bytes \<Rightarrow> u32) \<Rightarrow> nat \<Rightarrow> nat \<Rightarrow> u32 list \<Rightarrow> bytes \<Rightarrow> (u32 \<times> bytes) kres" where
  "printf write buf format args m =
     kbind (memset_loop buf 0 1024 m) (\<lambda>m.
     kbind (vsprintf buf format args m) (\<lambda>(_, m).
     kbind (strlen buf m) (\<lambda>l. Inr (write (take l (drop buf m)), m))))"

section \<open>What they compute\<close>

subsection \<open>Numbers\<close>

function digits :: "nat \<Rightarrow> nat \<Rightarrow> nat list" where
  "digits b n = (if b < 2 \<or> n < b then [n] else digits b (n div b) @ [n mod b])"
  by pat_completeness auto
termination
  by (relation "measure snd") (auto intro!: div_less_dividend)

declare digits.simps [simp del]

definition digit_char :: "nat \<Rightarrow> u8" where
  "digit_char d = (if d < 10 then of_nat d + chr CHR ''0'' else of_nat (d - 10) + chr CHR ''A'')"

definition horner :: "nat \<Rightarrow> nat list \<Rightarrow> nat" where
  "horner b ds = foldl (\<lambda>a d. a * b + d) 0 ds"

lemma digits_not_Nil [simp]: "digits b n \<noteq> []"
  by (subst digits.simps) simp

lemma digits_value: "2 \<le> b \<Longrightarrow> horner b (digits b n) = n"
  by (induction b n rule: digits.induct) (subst digits.simps, simp add: horner_def)

lemma digits_length: "2 \<le> b \<Longrightarrow> n < 2 ^ k \<Longrightarrow> 0 < k \<Longrightarrow> length (digits b n) \<le> k"
proof (induction b n arbitrary: k rule: digits.induct)
  case (1 b n)
  show ?case
  proof (cases "n < b")
    case True
    then show ?thesis using "1.prems"(3) by (simp add: digits.simps)
  next
    case False
    have "n div b \<le> n div 2" using "1.prems"(1) by (intro div_le_mono2) simp_all
    moreover obtain k' where k: "k = Suc k'" "k' \<noteq> 0" using "1.prems" False by (cases k; cases "k - 1") auto
    ultimately have "n div b < 2 ^ k'" using "1.prems"(2) by simp
    then have "length (digits b (n div b)) \<le> k'" using "1.IH" [of k'] False "1.prems"(1) k(2) by simp
    then show ?thesis using False "1.prems"(1) k(1) by (simp add: digits.simps [of b n])
  qed
qed

lemma digits_less: "2 \<le> b \<Longrightarrow> d \<in> set (digits b n) \<Longrightarrow> d < b"
  by (induction b n rule: digits.induct) (subst (asm) (2) digits.simps, auto split: if_splits)

lemma digits_leading: "2 \<le> b \<Longrightarrow> 0 < n \<Longrightarrow> hd (digits b n) \<noteq> 0"
  by (induction b n rule: digits.induct) (subst digits.simps, auto simp: div_greater_zero_iff)

lemma digit_char_word: "r < 16 \<Longrightarrow> ucast (if (of_nat r :: u32) < 10 then of_nat r + 48 else of_nat r - 10 + 65 :: u32) = digit_char r"
proof -
  have "list_all (\<lambda>r. ucast (if (of_nat r :: u32) < 10 then of_nat r + 48 else of_nat r - 10 + 65 :: u32) = digit_char r) [0..<16]"
    by code_simp
  then show "r < 16 \<Longrightarrow> ?thesis" by (simp add: list_all_iff)
qed

lemma itoa_digits:
  "2 \<le> unat base \<Longrightarrow> unat base \<le> 16 \<Longrightarrow> p + length (digits (unat base) (unat v)) \<le> length m \<Longrightarrow>
    itoa v p base m = Inr (p + length (digits (unat base) (unat v)), overwrite p (map digit_char (digits (unat base) (unat v))) m)"
proof (induction v p base m rule: itoa.induct)
  case (1 v p base m)
  let ?b = "unat base" and ?i = "v div ucast base" and ?r = "v mod ucast base"
  have nz: "base \<noteq> 0" "base \<noteq> 1" using "1.prems"(1) by auto
  have i: "unat ?i = unat v div ?b" and r: "unat ?r = unat v mod ?b"
    by (simp_all add: unat_div_distrib unat_mod_distrib unat_ucast_u8)
  have "unat v mod ?b < ?b" using "1.prems"(1) by (intro mod_less_divisor) simp
  then have "unat v mod ?b < 16" using "1.prems"(2) by simp
  then have c: "ucast (if ?r < 10 then ?r + 48 else ?r - 10 + 65) = digit_char (unat v mod ?b)"
    using digit_char_word [of "unat v mod ?b"] r by (metis of_nat_unat ucast_id)
  show ?case
  proof (cases "unat v < ?b")
    case True
    then have "?i = 0" "unat v mod ?b = unat v" "digits ?b (unat v) = [unat v]"
      using i by (simp_all add: digits.simps [of ?b "unat v"] flip: unat_eq_zero)
    then show ?thesis using "1.prems" nz c by (simp add: itoa.simps [of v] Let_def overwrite_Cons)
  next
    case False
    then have d: "digits ?b (unat v) = digits ?b (unat ?i) @ [unat v mod ?b]" "?i \<noteq> 0"
      using "1.prems"(1) i by (auto simp: digits.simps [of ?b "unat v"] div_greater_zero_iff simp flip: unat_eq_zero)
    then have "itoa ?i p base m = Inr (p + length (digits ?b (unat ?i)), overwrite p (map digit_char (digits ?b (unat ?i))) m)"
      using "1.IH" [OF nz(1) _ refl refl] "1.prems" nz by simp
    then show ?thesis using "1.prems" nz c d by (simp add: itoa.simps [of v] Let_def overwrite_snoc)
  qed
qed

subsection \<open>Text\<close>

definition decimal :: "u32 \<Rightarrow> bytes" where
  "decimal a = (if sint a < 0 then chr CHR ''-'' # map digit_char (digits 10 (nat (- sint a))) else map digit_char (digits 10 (nat (sint a))))"

definition hexadecimal :: "u32 \<Rightarrow> bytes" where
  "hexadecimal a = map digit_char (digits 16 (unat a))"

text \<open>The text of one conversion, and of a format: \<open>str a\<close> is the string at address \<open>a\<close>.\<close>

definition piece :: "(u32 \<Rightarrow> bytes option) \<Rightarrow> u8 \<Rightarrow> u32 \<Rightarrow> bytes option" where
  "piece str k a =
     (if k = chr CHR ''s'' then str a else if k = chr CHR ''c'' then Some [ucast a]
      else if k = chr CHR ''d'' then Some (decimal a) else Some (hexadecimal a))"

fun render :: "(u32 \<Rightarrow> bytes option) \<Rightarrow> bytes \<Rightarrow> u32 list \<Rightarrow> bytes option" where
  "render str [] ap = Some []"
| "render str (c # fmt) ap =
     (if c \<noteq> chr CHR ''%'' then map_option ((#) c) (render str fmt ap)
      else case fmt of [] \<Rightarrow> Some []
        | k # fmt' \<Rightarrow>
            if k \<in> {chr CHR ''s'', chr CHR ''c'', chr CHR ''d'', chr CHR ''x''} then
              (case ap of [] \<Rightarrow> None
               | a # ap' \<Rightarrow> (case piece str k a of None \<Rightarrow> None | Some cs \<Rightarrow> map_option ((@) cs) (render str fmt' ap')))
            else render str fmt ap)"

lemma negative_word: "sint a < 0 \<Longrightarrow> unat (0 - a) = nat (- sint a)" for a :: u32
proof -
  assume n: "sint a < 0"
  have b: "- sint a \<le> 2 ^ 31" using sint_greater_eq [of a] by simp
  have "0 - a = word_of_int (- sint a)" by simp
  then have "uint (0 - a) = (- sint a) mod 2 ^ 32" by (simp only: uint_word_of_int) (simp add: take_bit_eq_mod)
  then have "uint (0 - a) = - sint a" using n b by simp
  then show ?thesis by (simp only: unat_eq_nat_uint)
qed

lemma positive_word: "0 \<le> sint a \<Longrightarrow> unat a = nat (sint a)" for a :: u32
proof -
  assume n: "0 \<le> sint a"
  have "sint a < 2 ^ 31" using sint_less [of a] by simp
  moreover have "uint a = sint a mod 2 ^ 32"
    using uint_word_of_int [of "sint a", where ?'a = 32] by (simp add: take_bit_eq_mod)
  ultimately have "uint a = sint a" using n by simp
  then show ?thesis by (simp only: unat_eq_nat_uint)
qed

text \<open>
  The surroundings of a call: the bytes of the buffer from \<open>b\<close> to \<open>hi\<close> are zero, and the format at
  \<open>ip\<close> and the strings of the arguments lie outside of the buffer, which starts at \<open>lo\<close>.
\<close>

definition text_env :: "nat \<Rightarrow> nat \<Rightarrow> nat \<Rightarrow> nat \<Rightarrow> bytes \<Rightarrow> (u32 \<Rightarrow> bytes option) \<Rightarrow> bytes \<Rightarrow> bool" where
  "text_env lo b hi ip fmt str m \<longleftrightarrow> 0 < lo \<and> lo \<le> b \<and> hi \<le> length m \<and> (\<forall>i. b \<le> i \<and> i < hi \<longrightarrow> m ! i = 0)
     \<and> cstr m ip fmt \<and> (ip + length fmt < lo \<or> hi \<le> ip)
     \<and> (\<forall>a cs. str a = Some cs \<longrightarrow> unat a \<noteq> 0 \<and> cstr m (unat a) cs \<and> (unat a + length cs < lo \<or> hi \<le> unat a))"

lemma text_env_write:
  assumes "text_env lo b hi ip fmt str m" "b + length xs \<le> hi"
  shows "text_env lo (b + length xs) hi ip fmt str (overwrite b xs m)"
proof -
  have le: "b + length xs \<le> length m" using assms by (simp add: text_env_def)
  have "cstr (overwrite b xs m) q cs = cstr m q cs" if "q + length cs < lo \<or> hi \<le> q" for q cs
    by (rule cstr_overwrite_other [OF le]) (use assms that in \<open>auto simp: text_env_def\<close>)
  then show ?thesis using assms le by (auto simp: text_env_def nth_overwrite)
qed

lemma text_env_step:
  "text_env lo b hi ip (c # fmt) str m \<Longrightarrow> text_env lo b hi (Suc ip) fmt str m"
  by (auto simp: text_env_def)

lemma overwrite_zero:
  assumes "b + length xs < hi" "hi \<le> length m" "\<forall>i. b \<le> i \<and> i < hi \<longrightarrow> m ! i = (0 :: u8)"
  shows "overwrite b (xs @ [0]) m = overwrite b xs m"
  using assms by (intro list_eq_nthI) (auto simp: nth_overwrite nth_append)

lemma strcpy_zeroed:
  assumes env: "text_env lo b hi ip fmt str m" and "str a = Some cs" "b + length cs < hi"
  shows "strcpy b (unat a) m = Inr (overwrite b cs m)" "strlen (unat a) (overwrite b cs m) = Inr (length cs)"
proof -
  have a: "unat a \<noteq> 0" "cstr m (unat a) cs" "unat a + length cs < lo \<or> hi \<le> unat a" "0 < lo" "lo \<le> b" "hi \<le> length m"
    using env assms(2) by (auto simp: text_env_def)
  have "copy_loop b (unat a) m = Inr (overwrite b (cs @ [0]) m)"
    by (rule copy_loop_overwrite) (use a assms(3) in auto)
  then show "strcpy b (unat a) m = Inr (overwrite b cs m)"
    using overwrite_zero [of b cs hi m] a assms(3) env by (simp add: strcpy_def text_env_def)
  have "cstr (overwrite b cs m) (unat a) cs"
    using cstr_overwrite_other [of b cs m "unat a" cs] a assms(3) by auto
  then show "strlen (unat a) (overwrite b cs m) = Inr (length cs)" using a(1) by (rule strlen_cstr)
qed

lemma decimal_itoa:
  assumes "b + length (decimal a) \<le> length m"
  shows "kbind (if sint a < 0 then kbind (aset m b (chr CHR ''-'')) (\<lambda>m. Inr (0 - a, Suc b, m)) else Inr (a, b, m))
      (\<lambda>(a, b, m). itoa a b 10 m) = Inr (b + length (decimal a), overwrite b (decimal a) m)"
proof (cases "sint a < 0")
  case True
  then show ?thesis using assms itoa_digits [of 10 "Suc b" "0 - a" "m[b := chr CHR ''-'']"] negative_word [OF True]
    by (simp add: decimal_def overwrite_Cons)
next
  case False
  then have "unat a = nat (sint a)" by (intro positive_word) simp
  then show ?thesis using assms itoa_digits [of 10 b a m] False by (simp add: decimal_def)
qed

lemma hexadecimal_itoa:
  "b + length (hexadecimal a) \<le> length m \<Longrightarrow> itoa a b 16 m = Inr (b + length (hexadecimal a), overwrite b (hexadecimal a) m)"
  using itoa_digits [of 16 b a m] by (simp add: hexadecimal_def)

lemma kbind_decimal:
  "kbind X (\<lambda>(a, b, m). kbind (itoa a b 10 m) F) = kbind (kbind X (\<lambda>(a, b, m). itoa a b 10 m)) F"
  by (cases X) auto

lemma vsprintf_conversion:
  assumes env: "text_env lo b hi ip (chr CHR ''%'' # k # fmt) str m" and k: "k \<in> {chr CHR ''s'', chr CHR ''c'', chr CHR ''d'', chr CHR ''x''}"
    and p: "piece str k a = Some xs" "b + length xs < hi"
  shows "vsprintf_loop (chr CHR ''%'') ip b (a # ap) m =
    kbind (aget (overwrite b xs m) (Suc (Suc ip))) (\<lambda>c. vsprintf_loop c (Suc (Suc ip)) (b + length xs) ap (overwrite b xs m))"
proof -
  have m: "Suc ip < length m" "m ! Suc ip = k" "hi \<le> length m" using env by (auto simp: text_env_def)
  note U = vsprintf_loop.simps [of 37 ip b "a # ap" m]
  from k consider "k = chr CHR ''s''" | "k = chr CHR ''c''" | "k = chr CHR ''d''" | "k = chr CHR ''x''" by blast
  then show ?thesis
  proof cases
    case 1
    then show ?thesis using m p strcpy_zeroed [OF env, of a xs] by (simp add: U piece_def)
  next
    case 2
    then show ?thesis using m p by (auto simp: U piece_def overwrite_Cons)
  next
    case 3
    then show ?thesis using m p decimal_itoa [of b a m] by (auto simp: U piece_def kbind_decimal)
  next
    case 4
    then show ?thesis using m p hexadecimal_itoa [of b a m] by (auto simp: U piece_def)
  qed
qed

lemma vsprintf_loop_render:
  "render str fmt ap = Some out \<Longrightarrow> b + length out < hi \<Longrightarrow> text_env lo b hi ip fmt str m \<Longrightarrow>
    \<exists>c. aget m ip = Inr c \<and> vsprintf_loop c ip b ap m = Inr (overwrite b out m)"
proof (induction str fmt ap arbitrary: out b ip m rule: render.induct)
  case (1 str ap)
  then show ?case by (auto simp: text_env_def vsprintf_loop.simps)
next
  case (2 str c fmt ap)
  note env = "2.prems"(3)
  have c: "ip < length m" "m ! ip = c" "c \<noteq> 0" "hi \<le> length m" using env by (auto simp: text_env_def)
  consider "c \<noteq> chr CHR ''%''" | "c = chr CHR ''%''" "fmt = []"
    | k fmt' where "c = chr CHR ''%''" "fmt = k # fmt'" "k \<notin> {chr CHR ''s'', chr CHR ''c'', chr CHR ''d'', chr CHR ''x''}"
    | k fmt' where "c = chr CHR ''%''" "fmt = k # fmt'" "k \<in> {chr CHR ''s'', chr CHR ''c'', chr CHR ''d'', chr CHR ''x''}"
    by (cases fmt) auto
  then show ?case
  proof cases
    case 1
    obtain o1 where o1: "render str fmt ap = Some o1" "out = c # o1" using "2.prems"(1) 1 by auto
    have "text_env lo (Suc b) hi (Suc ip) fmt str (overwrite b [c] m)"
      using text_env_write [OF text_env_step [OF env], of "[c]"] "2.prems"(2) o1(2) by simp
    then obtain d where "aget (overwrite b [c] m) (Suc ip) = Inr d"
      "vsprintf_loop d (Suc ip) (Suc b) ap (overwrite b [c] m) = Inr (overwrite (Suc b) o1 (overwrite b [c] m))"
      using "2.IH"(1) [OF 1 o1(1), of "Suc b" "Suc ip" "overwrite b [c] m"] "2.prems"(2) o1(2) by auto
    then show ?thesis using c 1 "2.prems"(2) o1(2) by (simp add: vsprintf_loop.simps [of c] overwrite_Cons)
  next
    case 2
    then show ?thesis using "2.prems" c
      by (auto simp: text_env_def vsprintf_loop.simps [of 37] vsprintf_loop.simps [of 0])
  next
    case (3 k fmt')
    have "render str fmt ap = Some out" using "2.prems"(1) 3 by simp
    then obtain d where "aget m (Suc ip) = Inr d" "vsprintf_loop d (Suc ip) b ap m = Inr (overwrite b out m)"
      using "2.IH"(3) [of k fmt' out b "Suc ip" m] 3 "2.prems"(2) text_env_step [OF env] by auto
    moreover have "d = k" using env 3 calculation(1) by (auto simp: text_env_def aget_eq_Inr)
    ultimately show ?thesis using c 3 by (simp add: vsprintf_loop.simps [of 37])
  next
    case (4 k fmt')
    obtain a ap' xs o1 where o1: "ap = a # ap'" "piece str k a = Some xs" "render str fmt' ap' = Some o1" "out = xs @ o1"
      using "2.prems"(1) 4 by (auto split: list.splits option.splits)
    have "text_env lo (b + length xs) hi (Suc (Suc ip)) fmt' str (overwrite b xs m)"
      using text_env_write [OF text_env_step [OF text_env_step], of lo b hi ip c k fmt' str m xs] env 4(2) "2.prems"(2) o1(4) by simp
    then obtain d where "aget (overwrite b xs m) (Suc (Suc ip)) = Inr d"
      "vsprintf_loop d (Suc (Suc ip)) (b + length xs) ap' (overwrite b xs m) = Inr (overwrite (b + length xs) o1 (overwrite b xs m))"
      using "2.IH"(2) [of k fmt' a ap' xs o1 "b + length xs" "Suc (Suc ip)" "overwrite b xs m"] 4 o1 "2.prems"(2) by auto
    then show ?thesis
      using vsprintf_conversion [of lo b hi ip k fmt' str m a xs ap'] env 4 o1 "2.prems"(2) c by (auto simp: overwrite_overwrite)
  qed
qed

section \<open>Properties\<close>

text \<open>C27.  \<^verbatim>\<open>itoa\<close> with a base from 2 to 16 writes the digits of the number, without leading zeros
  unless it is 0, such that reading them back in that base gives the number; nothing
  else of the memory changes.\<close>

theorem itoa_roundtrip:
  assumes "2 \<le> unat base" "unat base \<le> 16" "p + 32 \<le> length m"
  shows "\<exists>ds. itoa v p base m = Inr (p + length ds, overwrite p (map digit_char ds) m)
    \<and> horner (unat base) ds = unat v \<and> (\<forall>d\<in>set ds. d < unat base) \<and> (v \<noteq> 0 \<longrightarrow> hd ds \<noteq> 0) \<and> 0 < length ds \<and> length ds \<le> 32"
proof -
  let ?ds = "digits (unat base) (unat v)"
  have "unat v < 2 ^ 32" using unsigned_less [of v] by simp
  then have "length ?ds \<le> 32" using digits_length [OF assms(1), of "unat v" 32] by simp
  then show ?thesis
    using itoa_digits [OF assms(1,2), of p v m] assms digits_value [of "unat base" "unat v"] digits_less [of "unat base"]
      digits_leading [of "unat base" "unat v"]
    by (intro exI [of _ ?ds]) (auto simp: unat_gt_0)
qed

theorem itoa_roundtrip_witness:
  "\<exists>ds. itoa 0xBEEF 0 16 (replicate 40 0) = Inr (length ds, overwrite 0 (map digit_char ds) (replicate 40 0)) \<and> horner 16 ds = 0xBEEF"
  using itoa_roundtrip [of 16 0 "replicate 40 0" "0xBEEF"] by auto


text \<open>The format \<^verbatim>\<open>"%d:%s"\<close> at address 1, the string \<^verbatim>\<open>"ab"\<close> at 7, and a cleared buffer from 10 on.\<close>

definition text_example :: bytes where
  "text_example = [9, 37, 100, 58, 37, 115, 0, 97, 98, 0] @ replicate 12 0"


end
