(* ===== verification/Ioqueue.thy ===== *)
theory Ioqueue
  imports Sync
begin

text \<open>
  \<^verbatim>\<open>device/ioqueue.c\<close>: the ring buffer behind the keyboard and the pipes.

  A queue operation may have to wait.  \<open>ioq_getchar_test\<close> and \<open>ioq_putchar_test\<close> are one round of
  the waiting loop: the result is \<open>None\<close> when the caller went to sleep in it (holding the lock
  of the queue); \<open>ioq_getchar_resume\<close> and \<open>ioq_putchar_resume\<close> are what the caller does when it
  runs again.  \<^verbatim>\<open>ioq_getchar\<close> and \<^verbatim>\<open>ioq_putchar\<close> for a caller that is not woken in the run at
  hand end in \<^const>\<open>Sleeps\<close>.
\<close>

definition bufsize :: nat where "bufsize = 2048"

record ioqueue =
  ioq_lock :: lock
  producer :: u32
  consumer :: u32
  buf :: "u8 list"
  head :: nat
  tail :: nat

section \<open>Operations\<close>

definition ioqueue_init :: "ioqueue \<Rightarrow> ioqueue" where
  "ioqueue_init ioq = ioq\<lparr>ioq_lock := lock_init, producer := 0, consumer := 0, head := 0, tail := 0\<rparr>"

definition next_pos :: "nat \<Rightarrow> nat" where
  "next_pos pos = (pos + 1) mod bufsize"

definition ioq_full :: "ioqueue \<Rightarrow> 'a sched_scheme \<Rightarrow> bool kres" where
  "ioq_full ioq s = kbind (kassert ''ioq_full'' (intr_get_status (flags s) = INTR_OFF)) (\<lambda>_. Inr (next_pos (head ioq) = tail ioq))"

definition ioq_empty :: "ioqueue \<Rightarrow> 'a sched_scheme \<Rightarrow> bool kres" where
  "ioq_empty ioq s = kbind (kassert ''ioq_empty'' (intr_get_status (flags s) = INTR_OFF)) (\<lambda>_. Inr (head ioq = tail ioq))"

text \<open>\<^verbatim>\<open>ioq_wait\<close> and \<^verbatim>\<open>wakeup\<close> return the new contents of \<^verbatim>\<open>*waiter\<close>.\<close>

definition ioq_wait :: "u32 \<Rightarrow> 'a sched_scheme \<Rightarrow> (u32 \<times> 'a sched_scheme) kres" where
  "ioq_wait waiter s =
     kbind (kassert ''ioq_wait'' (waiter = 0)) (\<lambda>_.
     kbind (thread_block TASK_BLOCKED s) (\<lambda>s'. Inr (running s, s')))"

definition wakeup :: "u32 \<Rightarrow> 'a sched_scheme \<Rightarrow> (u32 \<times> 'a sched_scheme) kres" where
  "wakeup waiter s =
     kbind (kassert ''wakeup'' (waiter \<noteq> 0)) (\<lambda>_.
     kbind (thread_unblock waiter s) (\<lambda>s. Inr (0, s)))"

definition ioq_getchar_test :: "ioqueue \<Rightarrow> 'a sched_scheme \<Rightarrow> (u8 option \<times> ioqueue \<times> 'a sched_scheme) kres" where
  "ioq_getchar_test ioq s =
     kbind (ioq_empty ioq s) (\<lambda>empty.
     if empty then
       kbind (lock_acquire (ioq_lock ioq) s) (\<lambda>(l, s).
       kbind (ioq_wait (consumer ioq) s) (\<lambda>(w, s).
       Inr (None, ioq\<lparr>ioq_lock := l, consumer := w\<rparr>, s)))
     else
       kbind (aget (buf ioq) (tail ioq)) (\<lambda>byte.
       let ioq = ioq\<lparr>tail := next_pos (tail ioq)\<rparr>
       in kbind (if producer ioq \<noteq> 0 then wakeup (producer ioq) s else Inr (producer ioq, s)) (\<lambda>(w, s).
          Inr (Some byte, ioq\<lparr>producer := w\<rparr>, s))))"

definition ioq_getchar_resume :: "ioqueue \<Rightarrow> 'a sched_scheme \<Rightarrow> (u8 option \<times> ioqueue \<times> 'a sched_scheme) kres" where
  "ioq_getchar_resume ioq s =
     kbind (lock_release (ioq_lock ioq) s) (\<lambda>(l, s). ioq_getchar_test (ioq\<lparr>ioq_lock := l\<rparr>) s)"

definition ioq_getchar :: "ioqueue \<times> 'a sched_scheme \<Rightarrow> (u8 \<times> ioqueue \<times> 'a sched_scheme) kres" where
  "ioq_getchar = (\<lambda>(ioq, s).
     kbind (kassert ''ioq_getchar'' (intr_get_status (flags s) = INTR_OFF)) (\<lambda>_.
     kbind (ioq_getchar_test ioq s) (\<lambda>(r, ioq, s).
     case r of None \<Rightarrow> Inl Sleeps | Some byte \<Rightarrow> Inr (byte, ioq, s))))"

definition ioq_putchar_test :: "u8 \<Rightarrow> ioqueue \<Rightarrow> 'a sched_scheme \<Rightarrow> (unit option \<times> ioqueue \<times> 'a sched_scheme) kres" where
  "ioq_putchar_test byte ioq s =
     kbind (ioq_full ioq s) (\<lambda>full.
     if full then
       kbind (lock_acquire (ioq_lock ioq) s) (\<lambda>(l, s).
       kbind (ioq_wait (producer ioq) s) (\<lambda>(w, s).
       Inr (None, ioq\<lparr>ioq_lock := l, producer := w\<rparr>, s)))
     else
       kbind (aset (buf ioq) (head ioq) byte) (\<lambda>b.
       let ioq = ioq\<lparr>buf := b, head := next_pos (head ioq)\<rparr>
       in kbind (if consumer ioq \<noteq> 0 then wakeup (consumer ioq) s else Inr (consumer ioq, s)) (\<lambda>(w, s).
          Inr (Some (), ioq\<lparr>consumer := w\<rparr>, s))))"

definition ioq_putchar_resume :: "u8 \<Rightarrow> ioqueue \<Rightarrow> 'a sched_scheme \<Rightarrow> (unit option \<times> ioqueue \<times> 'a sched_scheme) kres" where
  "ioq_putchar_resume byte ioq s =
     kbind (lock_release (ioq_lock ioq) s) (\<lambda>(l, s). ioq_putchar_test byte (ioq\<lparr>ioq_lock := l\<rparr>) s)"

definition ioq_putchar :: "u8 \<Rightarrow> ioqueue \<times> 'a sched_scheme \<Rightarrow> (ioqueue \<times> 'a sched_scheme) kres" where
  "ioq_putchar byte = (\<lambda>(ioq, s).
     kbind (kassert ''ioq_putchar'' (intr_get_status (flags s) = INTR_OFF)) (\<lambda>_.
     kbind (ioq_putchar_test byte ioq s) (\<lambda>(r, ioq, s).
     case r of None \<Rightarrow> Inl Sleeps | Some _ \<Rightarrow> Inr (ioq, s))))"

definition ioq_length :: "ioqueue \<Rightarrow> nat" where
  "ioq_length ioq = (if head ioq \<ge> tail ioq then head ioq - tail ioq else bufsize - (tail ioq - head ioq))"

section \<open>The contract of a bounded queue\<close>

fun put_many :: "('a \<Rightarrow> 'q \<Rightarrow> 'q kres) \<Rightarrow> 'a list \<Rightarrow> 'q \<Rightarrow> 'q kres" where
  "put_many pt [] q = Inr q"
| "put_many pt (x # xs) q = kbind (pt x q) (put_many pt xs)"

fun get_many :: "('q \<Rightarrow> ('a \<times> 'q) kres) \<Rightarrow> nat \<Rightarrow> 'q \<Rightarrow> ('a list \<times> 'q) kres" where
  "get_many gt 0 q = Inr ([], q)"
| "get_many gt (Suc n) q = kbind (gt q) (\<lambda>(x, q). kbind (get_many gt n q) (\<lambda>(xs, q). Inr (x # xs, q)))"

locale bounded_queue =
  fixes qinv :: "'q \<Rightarrow> bool"
    and contents :: "'q \<Rightarrow> 'a list"
    and capacity :: nat
    and put :: "'a \<Rightarrow> 'q \<Rightarrow> 'q kres"
    and get :: "'q \<Rightarrow> ('a \<times> 'q) kres"
  assumes put_law: "qinv q \<Longrightarrow> length (contents q) < capacity \<Longrightarrow>
      \<exists>q'. put x q = Inr q' \<and> qinv q' \<and> contents q' = contents q @ [x]"
    and put_full: "qinv q \<Longrightarrow> length (contents q) = capacity \<Longrightarrow> \<exists>e. put x q = Inl e"
    and get_law: "qinv q \<Longrightarrow> contents q = x # xs \<Longrightarrow> \<exists>q'. get q = Inr (x, q') \<and> qinv q' \<and> contents q' = xs"
    and get_empty: "qinv q \<Longrightarrow> contents q = [] \<Longrightarrow> \<exists>e. get q = Inl e"
    and bounded: "qinv q \<Longrightarrow> length (contents q) \<le> capacity"
begin

lemma put_many_law:
  "qinv q \<Longrightarrow> length (contents q) + length xs \<le> capacity \<Longrightarrow>
    \<exists>q'. put_many put xs q = Inr q' \<and> qinv q' \<and> contents q' = contents q @ xs"
proof (induction xs arbitrary: q)
  case Nil
  then show ?case by simp
next
  case (Cons x xs)
  then have "length (contents q) < capacity" by simp
  from put_law [OF Cons.prems(1) this, of x] obtain q1 where
    q1: "put x q = Inr q1" "qinv q1" "contents q1 = contents q @ [x]" by blast
  with Cons.IH [OF q1(2)] Cons.prems(2) show ?case by auto
qed

lemma put_many_overflow:
  "qinv q \<Longrightarrow> capacity < length (contents q) + length xs \<Longrightarrow> \<exists>e. put_many put xs q = Inl e"
proof (induction xs arbitrary: q)
  case Nil
  then show ?case using bounded [of q] by simp
next
  case (Cons x xs)
  show ?case
  proof (cases "length (contents q) = capacity")
    case True
    then show ?thesis using put_full [OF Cons.prems(1), of x] by auto
  next
    case False
    then have "length (contents q) < capacity" using bounded [OF Cons.prems(1)] by simp
    from put_law [OF Cons.prems(1) this, of x] obtain q1 where
      q1: "put x q = Inr q1" "qinv q1" "contents q1 = contents q @ [x]" by blast
    with Cons.IH [OF q1(2)] Cons.prems(2) show ?thesis by auto
  qed
qed

lemma get_many_law:
  "qinv q \<Longrightarrow> contents q = xs @ ys \<Longrightarrow> \<exists>q'. get_many get (length xs) q = Inr (xs, q') \<and> qinv q' \<and> contents q' = ys"
proof (induction xs arbitrary: q)
  case Nil
  then show ?case by simp
next
  case (Cons x xs)
  from get_law [OF Cons.prems(1)] Cons.prems(2) obtain q1 where
    q1: "get q = Inr (x, q1)" "qinv q1" "contents q1 = xs @ ys" by auto
  with Cons.IH [OF q1(2,3)] show ?case by auto
qed

lemma put_get_many:
  assumes "qinv q" "contents q = []" "length xs \<le> capacity"
  shows "\<exists>q1 q2. put_many put xs q = Inr q1 \<and> get_many get (length xs) q1 = Inr (xs, q2) \<and> qinv q2 \<and> contents q2 = []"
proof -
  obtain q1 where q1: "put_many put xs q = Inr q1" "qinv q1" "contents q1 = xs"
    using put_many_law [OF assms(1), of xs] assms(2,3) by auto
  with get_many_law [OF q1(2), of xs "[]"] show ?thesis by auto
qed

end

section \<open>The ring buffer is a bounded queue\<close>

definition ioq_wf :: "ioqueue \<Rightarrow> bool" where
  "ioq_wf q \<longleftrightarrow> length (buf q) = bufsize \<and> head q < bufsize \<and> tail q < bufsize"

definition ioq_contents :: "ioqueue \<Rightarrow> u8 list" where
  "ioq_contents q = map (\<lambda>i. buf q ! ((tail q + i) mod bufsize)) [0..<ioq_length q]"

lemma ioq_length_fields [simp]:
  "ioq_length (q\<lparr>ioq_lock := l\<rparr>) = ioq_length q" "ioq_length (q\<lparr>producer := w\<rparr>) = ioq_length q" "ioq_length (q\<lparr>consumer := w\<rparr>) = ioq_length q"
  by (simp_all add: ioq_length_def)

lemma ioq_contents_fields [simp]:
  "ioq_contents (q\<lparr>ioq_lock := l\<rparr>) = ioq_contents q" "ioq_contents (q\<lparr>producer := w\<rparr>) = ioq_contents q"
  "ioq_contents (q\<lparr>consumer := w\<rparr>) = ioq_contents q"
  by (simp_all add: ioq_contents_def)

lemma ioq_contents_cong: "buf q = buf q' \<Longrightarrow> head q = head q' \<Longrightarrow> tail q = tail q' \<Longrightarrow> ioq_contents q = ioq_contents q'"
  by (simp add: ioq_contents_def ioq_length_def)

lemma ioq_wf_fields [simp]:
  "ioq_wf (q\<lparr>ioq_lock := l\<rparr>) = ioq_wf q" "ioq_wf (q\<lparr>producer := w\<rparr>) = ioq_wf q" "ioq_wf (q\<lparr>consumer := w\<rparr>) = ioq_wf q"
  by (simp_all add: ioq_wf_def)

lemma next_pos_if: "p < bufsize \<Longrightarrow> next_pos p = (if Suc p = bufsize then 0 else Suc p)"
  by (auto simp: next_pos_def)

lemma ring_index: "p < bufsize \<Longrightarrow> i < bufsize \<Longrightarrow> (p + i) mod bufsize = (if p + i < bufsize then p + i else p + i - bufsize)"
  by (auto simp: mod_if)

lemma ioq_length_less: "ioq_wf q \<Longrightarrow> ioq_length q < bufsize"
  by (auto simp: ioq_wf_def ioq_length_def)

lemma ioq_length_0_iff: "ioq_wf q \<Longrightarrow> ioq_length q = 0 \<longleftrightarrow> head q = tail q"
  by (auto simp: ioq_wf_def ioq_length_def)

lemma ioq_length_full_iff: "ioq_wf q \<Longrightarrow> next_pos (head q) = tail q \<longleftrightarrow> ioq_length q = bufsize - 1"
  by (auto simp: ioq_wf_def ioq_length_def next_pos_if split: if_splits)

lemma length_ioq_contents [simp]: "length (ioq_contents q) = ioq_length q"
  by (simp add: ioq_contents_def)

lemma ioq_head: "ioq_wf q \<Longrightarrow> (tail q + ioq_length q) mod bufsize = head q"
  by (auto simp: ioq_wf_def ioq_length_def mod_if)

lemma ioq_put_contents:
  fixes b :: u8
  assumes wf: "ioq_wf q" and nf: "next_pos (head q) \<noteq> tail q"
  defines "q' \<equiv> q\<lparr>buf := (buf q)[head q := b], head := next_pos (head q)\<rparr>"
  shows "ioq_wf q'" "ioq_contents q' = ioq_contents q @ [b]"
proof -
  have B: "0 < bufsize" by (simp add: bufsize_def)
  show "ioq_wf q'" using wf B by (simp add: ioq_wf_def q'_def next_pos_def)
  have len: "ioq_length q' = Suc (ioq_length q)"
    using wf nf by (auto simp: ioq_wf_def ioq_length_def q'_def next_pos_if split: if_splits)
  have "(buf q)[head q := b] ! ((tail q + i) mod bufsize) = buf q ! ((tail q + i) mod bufsize)" if "i < ioq_length q" for i
  proof -
    have "(tail q + i) mod bufsize \<noteq> head q"
      using that wf ioq_length_less [OF wf] by (auto simp: ring_index ioq_wf_def ioq_length_def split: if_splits)
    then show ?thesis by simp
  qed
  moreover have "(buf q)[head q := b] ! ((tail q + ioq_length q) mod bufsize) = b"
    using wf by (simp add: ioq_head) (simp add: ioq_wf_def)
  ultimately show "ioq_contents q' = ioq_contents q @ [b]"
    by (simp add: ioq_contents_def len) (simp add: q'_def)
qed

lemma ioq_get_contents:
  assumes wf: "ioq_wf q" and ne: "head q \<noteq> tail q"
  defines "q' \<equiv> q\<lparr>tail := next_pos (tail q)\<rparr>"
  shows "ioq_wf q'" "ioq_contents q = buf q ! tail q # ioq_contents q'"
proof -
  have B: "0 < bufsize" by (simp add: bufsize_def)
  show "ioq_wf q'" using wf B by (simp add: ioq_wf_def q'_def next_pos_def)
  have len: "ioq_length q = Suc (ioq_length q')"
    using wf ne by (auto simp: ioq_wf_def ioq_length_def q'_def next_pos_if split: if_splits)
  have "(tail q + Suc i) mod bufsize = (next_pos (tail q) + i) mod bufsize" for i
    by (simp add: next_pos_def mod_add_left_eq)
  moreover have "tail q mod bufsize = tail q" using wf by (simp add: ioq_wf_def)
  ultimately show "ioq_contents q = buf q ! tail q # ioq_contents q'"
    unfolding ioq_contents_def len by (simp add: upt_conv_Cons del: upt_Suc flip: map_Suc_upt) (simp add: q'_def)
qed

text \<open>
  The waiting threads named by the queue are blocked, and are different ones; the wait
  queue of nobody else is touched by the operations.
\<close>

definition ioq_inv :: "ioqueue \<times> 'a sched_scheme \<Rightarrow> bool" where
  "ioq_inv = (\<lambda>(q, s). ioq_wf q \<and> sched_inv s \<and> intr_get_status (flags s) = INTR_OFF
     \<and> (producer q \<noteq> 0 \<longrightarrow> has_status s (producer q) TASK_BLOCKED) \<and> (consumer q \<noteq> 0 \<longrightarrow> has_status s (consumer q) TASK_BLOCKED)
     \<and> (producer q \<noteq> 0 \<longrightarrow> producer q \<noteq> consumer q))"

lemma wakeup_spec:
  assumes "sched_inv s" "has_status s w TASK_BLOCKED"
  obtains s' where "wakeup w s = Inr (0, s')" "sched_inv s'" "flags s' = flags s" "has_status s' w TASK_READY"
    "running s' = running s" "thread_ready_list s' = w # thread_ready_list s"
    "\<forall>p. p \<noteq> w \<longrightarrow> has_status s' p TASK_BLOCKED = has_status s p TASK_BLOCKED"
proof -
  obtain t where t: "tasks s w = Some t" "status t = TASK_BLOCKED" using assms(2) by (auto simp: has_status_iff)
  have q: "queues_ok s" using assms(1) by (simp add: sched_inv_def)
  let ?s = "upd_task w (\<lambda>t. t\<lparr>status := TASK_READY\<rparr>) (s\<lparr>thread_ready_list := w # thread_ready_list s\<rparr>)"
  have u: "thread_unblock w s = Inr ?s" using thread_unblock_spec(1) [OF t(1) _ q] t(2) by auto
  obtain s' where s': "thread_unblock w s = Inr s'" "sched_inv s'" "running s' = running s" "thread_ready_list s' = w # thread_ready_list s"
    using thread_unblock_inv [OF assms] by blast
  have "w \<noteq> 0" using q t(1) by (auto simp: queues_ok_def)
  then show thesis using that [of ?s] u s' t by (simp add: wakeup_def)
qed

interpretation ring: bounded_queue ioq_inv "\<lambda>(q, s). ioq_contents q" "bufsize - 1" ioq_putchar ioq_getchar
proof unfold_locales
  fix q :: "ioqueue \<times> 'a sched_scheme" and x
  obtain i s where q: "q = (i, s)" by (cases q)
  assume inv: "ioq_inv q"
  then have I: "ioq_wf i" "sched_inv s" "intr_get_status (flags s) = INTR_OFF"
    "producer i \<noteq> 0 \<longrightarrow> has_status s (producer i) TASK_BLOCKED" "consumer i \<noteq> 0 \<longrightarrow> has_status s (consumer i) TASK_BLOCKED"
    "producer i \<noteq> 0 \<longrightarrow> producer i \<noteq> consumer i" by (simp_all add: ioq_inv_def q)
  show "length (case q of (q, s) \<Rightarrow> ioq_contents q) \<le> bufsize - 1" using ioq_length_less [OF I(1)] by (simp add: q)
  show "\<exists>q'. ioq_putchar x q = Inr q' \<and> ioq_inv q' \<and> (case q' of (q, s) \<Rightarrow> ioq_contents q) = (case q of (q, s) \<Rightarrow> ioq_contents q) @ [x]"
    if "length (case q of (q, s) \<Rightarrow> ioq_contents q) < bufsize - 1"
  proof -
    have nf: "next_pos (head i) \<noteq> tail i" using that I(1) by (simp add: q ioq_length_full_iff)
    note P = ioq_put_contents [OF I(1) nf, of x]
    have h: "head i < length (buf i)" using I(1) by (simp add: ioq_wf_def)
    show ?thesis
    proof (cases "consumer i = 0")
      case True
      then show ?thesis using P I nf h
        by (auto simp: q ioq_putchar_def ioq_putchar_test_def ioq_full_def ioq_inv_def)
    next
      case False
      then have "has_status s (consumer i) TASK_BLOCKED" using I(5) by simp
      from I(2) this obtain s' where "wakeup (consumer i) s = Inr (0, s')" "sched_inv s'" "flags s' = flags s"
        "\<forall>p. p \<noteq> consumer i \<longrightarrow> has_status s' p TASK_BLOCKED = has_status s p TASK_BLOCKED" by (rule wakeup_spec)
      then show ?thesis using P I nf h False
        by (auto simp: q ioq_putchar_def ioq_putchar_test_def ioq_full_def ioq_inv_def)
    qed
  qed
  show "\<exists>q'. ioq_getchar q = Inr (x, q') \<and> ioq_inv q' \<and> (case q' of (q, s) \<Rightarrow> ioq_contents q) = xs"
    if c: "(case q of (q, s) \<Rightarrow> ioq_contents q) = x # xs" for xs
  proof -
    have "ioq_length i \<noteq> 0" using c length_ioq_contents [of i] by (auto simp: q)
    then have ne: "head i \<noteq> tail i" using I(1) by (simp add: ioq_length_0_iff)
    note G = ioq_get_contents [OF I(1) ne]
    have h: "tail i < length (buf i)" using I(1) by (simp add: ioq_wf_def)
    show ?thesis
    proof (cases "producer i = 0")
      case True
      then show ?thesis using G I ne h c
        by (auto simp: q ioq_getchar_def ioq_getchar_test_def ioq_empty_def ioq_inv_def)
    next
      case False
      then have "has_status s (producer i) TASK_BLOCKED" using I(4) by simp
      from I(2) this obtain s' where "wakeup (producer i) s = Inr (0, s')" "sched_inv s'" "flags s' = flags s"
        "\<forall>p. p \<noteq> producer i \<longrightarrow> has_status s' p TASK_BLOCKED = has_status s p TASK_BLOCKED" by (rule wakeup_spec)
      then show ?thesis using G I ne h c False
        by (auto simp: q ioq_getchar_def ioq_getchar_test_def ioq_empty_def ioq_inv_def)
    qed
  qed
  show "\<exists>e. ioq_putchar x q = Inl e" if "length (case q of (q, s) \<Rightarrow> ioq_contents q) = bufsize - 1"
    using that I(1,3) by (auto simp: q ioq_putchar_def ioq_putchar_test_def ioq_full_def ioq_length_full_iff kbind_def split: sum.splits)
  show "\<exists>e. ioq_getchar q = Inl e" if "(case q of (q, s) \<Rightarrow> ioq_contents q) = []"
    using that I(1,3) length_ioq_contents [of i]
    by (auto simp: q ioq_getchar_def ioq_getchar_test_def ioq_empty_def ioq_length_0_iff kbind_def split: sum.splits)
qed

section \<open>Properties\<close>

definition fresh_ioqueue :: ioqueue where
  "fresh_ioqueue = ioqueue_init \<lparr>ioq_lock = lock_init, producer = 7, consumer = 9, buf = replicate 2048 0, head = 3, tail = 5\<rparr>"

lemma fresh_ioqueue_sel [simp]:
  "ioq_lock fresh_ioqueue = lock_init" "producer fresh_ioqueue = 0" "consumer fresh_ioqueue = 0" "head fresh_ioqueue = 0" "tail fresh_ioqueue = 0"
  "ioq_wf fresh_ioqueue" "ioq_contents fresh_ioqueue = []"
  by (simp_all add: fresh_ioqueue_def ioqueue_init_def ioq_wf_def bufsize_def ioq_contents_def ioq_length_def)

text \<open>C21.  The ring buffer is a queue of capacity 2047: bytes put into an empty queue come out in the same
  order, without loss, whatever the position of its indices; and no more than 2047 bytes
  can be put before one is taken.\<close>

theorem ioqueue_fifo:
  assumes "ioq_inv (q, s)" "ioq_contents q = []"
  shows "(length xs \<le> 2047 \<longrightarrow> (\<exists>q1 s1 q2 s2. put_many ioq_putchar xs (q, s) = Inr (q1, s1)
        \<and> get_many ioq_getchar (length xs) (q1, s1) = Inr (xs, q2, s2) \<and> ioq_contents q2 = [] \<and> ioq_inv (q2, s2)))
    \<and> (2047 < length xs \<longrightarrow> (\<exists>e. put_many ioq_putchar xs (q, s) = Inl e))"
  using ring.put_get_many [OF assms(1), of xs] ring.put_many_overflow [OF assms(1), of xs] assms(2)
  by (fastforce simp: bufsize_def)

theorem ioqueue_fifo_witness:
  "\<exists>q1 s1 q2 s2. put_many ioq_putchar [104, 105] (fresh_ioqueue, three_threads) = Inr (q1, s1)
     \<and> get_many ioq_getchar 2 (q1, s1) = Inr ([104, 105], q2, s2)"
proof -
  have "ioq_inv (fresh_ioqueue, three_threads)"
    by (simp add: ioq_inv_def three_threads_inv three_threads_intr)
  from ioqueue_fifo [OF this, of "[104, 105]"] show ?thesis by (auto simp: numeral_2_eq_2)
qed

text \<open>C22.  Waiting for a byte: a thread that reads an empty queue goes to sleep and is remembered as its
  consumer; whenever a byte is put later, that thread becomes ready in front of all others,
  and when it runs again its read returns exactly this byte.\<close>

theorem consumer_gets_next_byte:
  fixes s :: "'a sched_scheme"
  assumes inv: "sched_inv s" "intr_get_status (flags s) = INTR_OFF" "running s \<noteq> idle_thread s"
    and q: "ioq_wf q" "ioq_contents q = []" "producer q = 0" "consumer q = 0" "lock_free (ioq_lock q)"
  shows "\<exists>q1 s1. ioq_getchar_test q s = Inr (None, q1, s1) \<and> sched_inv s1 \<and> has_status s1 (running s) TASK_BLOCKED
    \<and> (\<forall>(s2 :: 'a sched_scheme) b. sched_inv s2 \<and> intr_get_status (flags s2) = INTR_OFF \<and> has_status s2 (running s) TASK_BLOCKED \<longrightarrow>
        (\<exists>q2 s3. ioq_putchar b (q1, s2) = Inr (q2, s3) \<and> thread_ready_list s3 = running s # thread_ready_list s2 \<and> sched_inv s3
          \<and> (\<forall>s4 :: 'a sched_scheme. running s4 = running s \<and> intr_get_status (flags s4) = INTR_OFF \<longrightarrow>
              (\<exists>q3. ioq_getchar_resume q2 s4 = Inr (Some b, q3, s4) \<and> ioq_contents q3 = []))))"
proof -
  let ?c = "running s"
  have c: "?c \<noteq> 0" using inv(1) by (rule sched_inv_running_nz)
  obtain l where l: "lock_acquire (ioq_lock q) s = Inr (l, s)" "lock_held ?c 1 l" using lock_acquire_free [OF q(5) c] by blast
  obtain s1 where s1: "thread_block TASK_BLOCKED s = Inr s1" "sched_inv s1" "has_status s1 ?c TASK_BLOCKED"
    using thread_block_spec [OF inv(1), of TASK_BLOCKED] inv(3) by blast
  have e: "head q = tail q" using q(1,2) length_ioq_contents [of q] by (simp add: ioq_length_0_iff)
  let ?q1 = "q\<lparr>ioq_lock := l, consumer := ?c\<rparr>"
  have get: "ioq_getchar_test q s = Inr (None, ?q1, s1)"
    using inv(2) e q(4) l(1) s1(1) by (simp add: ioq_getchar_test_def ioq_empty_def ioq_wait_def)
  have wf: "ioq_wf ?q1" using q(1) by (simp add: ioq_wf_def)
  have nf: "next_pos (head ?q1) \<noteq> tail ?q1" using ioq_length_full_iff [OF wf] e by (simp add: ioq_length_def bufsize_def)
  have put: "\<exists>q2 s3. ioq_putchar b (?q1, s2) = Inr (q2, s3) \<and> thread_ready_list s3 = ?c # thread_ready_list s2 \<and> sched_inv s3
      \<and> (\<forall>s4 :: 'a sched_scheme. running s4 = ?c \<and> intr_get_status (flags s4) = INTR_OFF \<longrightarrow>
          (\<exists>q3. ioq_getchar_resume q2 s4 = Inr (Some b, q3, s4) \<and> ioq_contents q3 = []))"
    if s2: "sched_inv s2" "intr_get_status (flags s2) = INTR_OFF" "has_status s2 ?c TASK_BLOCKED" for s2 :: "'a sched_scheme" and b
  proof -
    let ?q = "?q1\<lparr>buf := (buf ?q1)[head ?q1 := b], head := next_pos (head ?q1)\<rparr>"
    note P = ioq_put_contents [OF wf nf, of b]
    have h: "head q < length (buf q)" "tail q < length (buf q)" using q(1) by (simp_all add: ioq_wf_def)
    from s2(1,3) obtain s3 where s3: "wakeup ?c s2 = Inr (0, s3)" "sched_inv s3" "thread_ready_list s3 = ?c # thread_ready_list s2"
      by (rule wakeup_spec)
    let ?q2 = "?q\<lparr>consumer := 0\<rparr>"
    have put: "ioq_putchar b (?q1, s2) = Inr (?q2, s3)"
      using s2(2) nf h s3(1) c by (simp add: ioq_putchar_def ioq_putchar_test_def ioq_full_def)
    have wf2: "ioq_wf ?q2" using P(1) by (simp add: ioq_wf_def)
    have "ioq_contents ?q2 = ioq_contents ?q" by (rule ioq_contents_cong) simp_all
    then have "ioq_contents ?q2 = [b]" using P(2) q(2) by simp
    moreover have ne: "head ?q2 \<noteq> tail ?q2" using ioq_length_0_iff [OF wf2] calculation length_ioq_contents [of ?q2] by simp
    moreover note G = ioq_get_contents [OF wf2 ne]
    ultimately have g: "buf ?q2 ! tail ?q2 = b" "ioq_contents (?q2\<lparr>tail := next_pos (tail ?q2)\<rparr>) = []" by simp_all
    have "\<exists>q3. ioq_getchar_resume ?q2 s4 = Inr (Some b, q3, s4) \<and> ioq_contents q3 = []"
      if s4: "running s4 = ?c" "intr_get_status (flags s4) = INTR_OFF" for s4 :: "'a sched_scheme"
    proof -
      obtain l' where "lock_release l s4 = Inr (l', s4)" using lock_release_held [of s4 l] l(2) s4(1) by auto
      then have "ioq_getchar_resume ?q2 s4 = Inr (Some b, ?q2\<lparr>ioq_lock := l', tail := next_pos (tail ?q2), producer := 0\<rparr>, s4)"
        using s4(2) ne g(1) h q(3) by (simp add: ioq_getchar_resume_def ioq_getchar_test_def ioq_empty_def)
      moreover have "ioq_contents (?q2\<lparr>ioq_lock := l', tail := next_pos (tail ?q2), producer := 0\<rparr>) = ioq_contents (?q2\<lparr>tail := next_pos (tail ?q2)\<rparr>)"
        by (rule ioq_contents_cong) simp_all
      ultimately show ?thesis using g(2) by auto
    qed
    then show ?thesis using put s3 by blast
  qed
  show ?thesis
    by (intro exI [of _ ?q1] exI [of _ s1] conjI allI impI get s1 put) auto
qed

theorem consumer_gets_next_byte_witness:
  "\<exists>q1 s1. ioq_getchar_test fresh_ioqueue three_threads = Inr (None, q1, s1) \<and> has_status s1 0x1000 TASK_BLOCKED"
proof -
  have "running three_threads = 0x1000" "running three_threads \<noteq> idle_thread three_threads" by (simp_all add: three_threads_def)
  then show ?thesis
    using consumer_gets_next_byte [OF three_threads_inv three_threads_intr, of fresh_ioqueue] by (auto simp: lock_init_free)
qed

end
