(* ===== verification/Keyboard.thy ===== *)
theory Keyboard
  imports Ioqueue
begin

text \<open>
  \<^verbatim>\<open>device/keyboard.c\<close>: the keyboard interrupt.  The handler turns scan codes into characters,
  follows the state of the modifier keys, and puts the characters into the ring buffer
  \<^verbatim>\<open>kbd_buf\<close>.  The byte it reads from the port is its argument; \<open>kbd_msgs\<close> are the messages it
  prints.
\<close>

record kbd =
  ctrl_status :: bool
  shift_status :: bool
  alt_status :: bool
  caps_lock_status :: bool
  ext_scancode :: bool
  kbd_buf :: ioqueue
  kbd_msgs :: "string list"

section \<open>Operations\<close>

text \<open>For each make code the character without and with shift.\<close>

definition keymap :: "(u8 \<times> u8) list" where
  "keymap =
    [(0, 0), (27, 27), (49, 33), (50, 64), (51, 35), (52, 36), (53, 37), (54, 94),
     (55, 38), (56, 42), (57, 40), (48, 41), (45, 95), (61, 43), (8, 8), (9, 9),
     (113, 81), (119, 87), (101, 69), (114, 82), (116, 84), (121, 89), (117, 85), (105, 73),
     (111, 79), (112, 80), (91, 123), (93, 125), (13, 13), (0, 0), (97, 65), (115, 83),
     (100, 68), (102, 70), (103, 71), (104, 72), (106, 74), (107, 75), (108, 76), (59, 58),
     (39, 34), (96, 126), (0, 0), (92, 124), (122, 90), (120, 88), (99, 67), (118, 86),
     (98, 66), (110, 78), (109, 77), (44, 60), (46, 62), (47, 63), (0, 0), (42, 42),
     (0, 0), (32, 32), (0, 0)]"

text \<open>The keys with two symbols; all other keys count as letters.\<close>

definition two_symbols :: "u16 \<Rightarrow> bool" where
  "two_symbols scancode \<longleftrightarrow> scancode < 0x0E \<or> scancode \<in> {0x29, 0x1A, 0x1B, 0x2B, 0x27, 0x28, 0x33, 0x34, 0x35}"

definition key_shift :: "kbd \<Rightarrow> u16 \<Rightarrow> bool" where
  "key_shift k scancode =
     (if two_symbols scancode then shift_status k
      else if shift_status k \<and> caps_lock_status k then False else shift_status k \<or> caps_lock_status k)"

text \<open>A key that goes down: \<open>scancode\<close> is its make code.\<close>

definition press_key :: "u16 \<Rightarrow> kbd \<Rightarrow> 'a sched_scheme \<Rightarrow> (kbd \<times> 'a sched_scheme) kres" where
  "press_key scancode k s =
     (let shift = key_shift k scancode;
          scancode = scancode AND 0x00FF
      in kbind (aget keymap (unat scancode)) (\<lambda>entry.
         let cur_char = (if shift then snd entry else fst entry)
         in if cur_char \<noteq> 0 then
              let cur_char = (if ctrl_status k \<and> (cur_char = 108 \<or> cur_char = 117) then cur_char - 97 else cur_char)
              in kbind (ioq_full (kbd_buf k) s) (\<lambda>full.
                 if full then Inr (k, s)
                 else kbind (ioq_putchar cur_char (kbd_buf k, s)) (\<lambda>(q, s). Inr (k\<lparr>kbd_buf := q\<rparr>, s)))
            else if scancode = 0x1D \<or> scancode = 0xE01D then Inr (k\<lparr>ctrl_status := True\<rparr>, s)
            else if scancode = 0x2A \<or> scancode = 0x36 then Inr (k\<lparr>shift_status := True\<rparr>, s)
            else if scancode = 0x38 \<or> scancode = 0xE038 then Inr (k\<lparr>alt_status := True\<rparr>, s)
            else if scancode = 0x3A then Inr (k\<lparr>caps_lock_status := \<not> caps_lock_status k\<rparr>, s)
            else Inr (k\<lparr>kbd_msgs := kbd_msgs k @ [''unknown key'']\<rparr>, s)))"

text \<open>A key that goes up: only the modifier keys matter, and caps lock is not one of them.\<close>

definition release_key :: "u16 \<Rightarrow> kbd \<Rightarrow> kbd" where
  "release_key scancode k =
     (let make_code = scancode AND 0xFF7F
      in if make_code = 0x1D \<or> make_code = 0xE01D then k\<lparr>ctrl_status := False\<rparr>
         else if make_code = 0x2A \<or> make_code = 0x36 then k\<lparr>shift_status := False\<rparr>
         else if make_code = 0x38 \<or> make_code = 0xE038 then k\<lparr>alt_status := False\<rparr>
         else k)"

definition intr_keyboard_handler :: "u8 \<Rightarrow> kbd \<times> 'a sched_scheme \<Rightarrow> (kbd \<times> 'a sched_scheme) kres" where
  "intr_keyboard_handler code = (\<lambda>(k, s).
     let scancode = (ucast code :: u16)
     in if scancode = 0xE0 then Inr (k\<lparr>ext_scancode := True\<rparr>, s)
        else
          let scancode = (if ext_scancode k then 0xE000 OR scancode else scancode);
              k = k\<lparr>ext_scancode := False\<rparr>
          in if scancode AND 0x0080 \<noteq> 0 then Inr (release_key scancode k, s)
             else if scancode > 0 \<and> scancode < 0x3B \<or> scancode = 0xE038 \<or> scancode = 0xE01D then press_key scancode k s
             else Inr (k, s))"

definition keyboard_init :: "kbd \<Rightarrow> handler list \<Rightarrow> (kbd \<times> handler list) kres" where
  "keyboard_init k tbl =
     (let k = k\<lparr>kbd_buf := ioqueue_init (kbd_buf k)\<rparr>
      in kbind (register_handler 0x21 (Handler ''intr_keyboard_handler'') tbl) (\<lambda>tbl. Inr (k, tbl)))"

section \<open>What the handler does\<close>

lemma keymap_zero:
  assumes "0 < i" "i < 59" "fst (keymap ! i) = 0 \<or> snd (keymap ! i) = 0"
  shows "i \<in> {0x1D, 0x2A, 0x36, 0x38, 0x3A}"
proof -
  have "list_all (\<lambda>i. fst (keymap ! i) = 0 \<or> snd (keymap ! i) = 0 \<longrightarrow> i \<in> {0x1D, 0x2A, 0x36, 0x38, 0x3A}) [1..<59]"
    by code_simp
  then show ?thesis using assms by (auto simp: list_all_iff)
qed

lemma length_keymap [simp]: "length keymap = 59"
  by (simp add: keymap_def)

lemma low_byte: "sc < 0x3B \<Longrightarrow> sc AND 0x00FF = sc" for sc :: u16
proof -
  assume "sc < 0x3B"
  then have "unat sc < 2 ^ 8" by (simp add: word_less_nat_alt)
  then have "take_bit 8 sc = sc" by (metis take_bit_nat_eq_self unsigned_take_bit_eq word_unat_eq_iff)
  moreover have "sc AND 0x00FF = take_bit 8 sc" by (simp add: take_bit_eq_mask mask_eq_exp_minus_1)
  ultimately show ?thesis by simp
qed

lemma key_index:
  fixes sc :: u16
  assumes "sc > 0 \<and> sc < 0x3B \<or> sc = 0xE038 \<or> sc = 0xE01D"
  shows "0 < unat (sc AND 0x00FF)" "unat (sc AND 0x00FF) < 59"
  using assms low_byte [of sc] by (auto simp: word_less_nat_alt unat_gt_0)

text \<open>The character of a key, by the state of the modifier keys.\<close>

definition key_char :: "kbd \<Rightarrow> u16 \<Rightarrow> u8" where
  "key_char k scancode =
     (let entry = keymap ! unat (scancode AND 0x00FF);
          c = (if (if two_symbols scancode then shift_status k else shift_status k \<noteq> caps_lock_status k) then snd entry else fst entry)
      in if ctrl_status k \<and> (c = 108 \<or> c = 117) then c - 97 else c)"

lemma kbd_put:
  assumes "ioq_inv (q, s)" "next_pos (head q) \<noteq> tail q"
  obtains q' s' where "ioq_putchar c (q, s) = Inr (q', s')" "ioq_inv (q', s')" "ioq_contents q' = ioq_contents q @ [c]"
proof -
  have "ioq_length q < 2047"
    using assms ioq_length_less [of q] ioq_length_full_iff [of q] by (auto simp: ioq_inv_def bufsize_def)
  then show thesis using ring.put_law [OF assms(1), of c] that by (auto simp: bufsize_def)
qed

lemma kbd_put_full:
  assumes "ioq_inv (q, s)"
  obtains q' s' where "kbind (ioq_full q s) (\<lambda>full. if full then Inr (k\<lparr>kbd_buf := q\<rparr>, s)
        else kbind (ioq_putchar c (q, s)) (\<lambda>(q, s). Inr (k\<lparr>kbd_buf := q\<rparr>, s))) = Inr (k\<lparr>kbd_buf := q'\<rparr>, s')"
    "ioq_inv (q', s')" "ioq_contents q' = (if ioq_length q = 2047 then ioq_contents q else ioq_contents q @ [c])"
proof (cases "next_pos (head q) = tail q")
  case True
  then have "ioq_length q = 2047" using ioq_length_full_iff [of q] assms by (simp add: bufsize_def ioq_inv_def)
  then show thesis using that [of q s] True assms by (auto simp: ioq_full_def ioq_inv_def)
next
  case False
  then have "ioq_length q \<noteq> 2047" using ioq_length_full_iff [of q] assms by (simp add: bufsize_def ioq_inv_def)
  moreover obtain q' s' where "ioq_putchar c (q, s) = Inr (q', s')" "ioq_inv (q', s')" "ioq_contents q' = ioq_contents q @ [c]"
    by (rule kbd_put [OF assms False])
  ultimately show thesis using that [of q' s'] False assms by (auto simp: ioq_full_def ioq_inv_def)
qed

lemma press_key_spec:
  assumes inv: "ioq_inv (kbd_buf k, s)" and sc: "sc > 0 \<and> sc < 0x3B \<or> sc = 0xE038 \<or> sc = 0xE01D"
  shows "if sc AND 0x00FF \<in> {0x1D, 0x2A, 0x36, 0x38, 0x3A}
    then \<exists>k'. press_key sc k s = Inr (k', s) \<and> kbd_buf k' = kbd_buf k \<and> kbd_msgs k' = kbd_msgs k
    else key_char k sc \<noteq> 0 \<and> (\<exists>q s'. press_key sc k s = Inr (k\<lparr>kbd_buf := q\<rparr>, s') \<and> ioq_inv (q, s')
      \<and> ioq_contents q = (if ioq_length (kbd_buf k) = 2047 then ioq_contents (kbd_buf k) else ioq_contents (kbd_buf k) @ [key_char k sc]))"
proof -
  define i where "i = unat (sc AND 0x00FF)"
  have i: "0 < i" "i < 59" using key_index [OF sc] by (simp_all add: i_def)
  define c where "c = (if key_shift k sc then snd (keymap ! i) else fst (keymap ! i))"
  show ?thesis
  proof (cases "sc AND 0x00FF \<in> {0x1D, 0x2A, 0x36, 0x38, 0x3A}")
    case True
    then have "i \<in> {0x1D, 0x2A, 0x36, 0x38, 0x3A}" by (auto simp: i_def)
    then have "fst (keymap ! i) = 0 \<and> snd (keymap ! i) = 0" by (auto simp: keymap_def)
    then show ?thesis using True i by (auto simp: press_key_def Let_def i_def [symmetric])
  next
    case False
    have "i \<notin> {0x1D, 0x2A, 0x36, 0x38, 0x3A}"
    proof
      assume "i \<in> {0x1D, 0x2A, 0x36, 0x38, 0x3A}"
      then have "of_nat i \<in> {0x1D, 0x2A, 0x36, 0x38, 0x3A :: u16}" by auto
      then show False using False by (simp add: i_def)
    qed
    then have c0: "c \<noteq> 0" using keymap_zero [OF i] by (auto simp: c_def)
    have kc: "key_char k sc = (if ctrl_status k \<and> (c = 108 \<or> c = 117) then c - 97 else c)"
      by (auto simp: key_char_def c_def key_shift_def i_def Let_def)
    obtain q' s' where q': "kbind (ioq_full (kbd_buf k) s) (\<lambda>full. if full then Inr (k\<lparr>kbd_buf := kbd_buf k\<rparr>, s)
          else kbind (ioq_putchar (key_char k sc) (kbd_buf k, s)) (\<lambda>(q, s). Inr (k\<lparr>kbd_buf := q\<rparr>, s))) = Inr (k\<lparr>kbd_buf := q'\<rparr>, s')"
      "ioq_inv (q', s')" "ioq_contents q' = (if ioq_length (kbd_buf k) = 2047 then ioq_contents (kbd_buf k) else ioq_contents (kbd_buf k) @ [key_char k sc])"
      by (rule kbd_put_full [OF inv])
    have entry: "aget keymap i = Inr (keymap ! i)" using i by simp
    have K: "k\<lparr>kbd_buf := kbd_buf k\<rparr> = k" by (cases k) simp
    have "press_key sc k s = kbind (ioq_full (kbd_buf k) s) (\<lambda>full. if full then Inr (k\<lparr>kbd_buf := kbd_buf k\<rparr>, s)
          else kbind (ioq_putchar (key_char k sc) (kbd_buf k, s)) (\<lambda>(q, s). Inr (k\<lparr>kbd_buf := q\<rparr>, s)))"
      by (simp only: press_key_def Let_def i_def [symmetric] entry kbind_Inr c_def [symmetric] kc K c0 not_False_eq_True if_True)
    then show ?thesis using q' False c0 kc by auto
  qed
qed

lemma plain_scancode:
  fixes code :: u8
  assumes "0 < code" "code < 0x3B"
  shows "(ucast code :: u16) > 0 \<and> (ucast code :: u16) < 0x3B" "(ucast code :: u16) \<noteq> 0xE0" "(ucast code :: u16) AND 0x0080 = 0"
proof -
  let ?sc = "ucast code :: u16"
  have "unat code < 2 ^ LENGTH(8)" by (rule unsigned_less)
  then have u: "unat ?sc = unat code" by (simp add: unsigned_ucast_eq take_bit_nat_eq_self)
  show sc: "?sc > 0 \<and> ?sc < 0x3B" using assms by (simp add: word_less_nat_alt u)
  then show "?sc \<noteq> 0xE0" by auto
  have "unat ?sc < 2 ^ 7" using sc by (simp add: word_less_nat_alt)
  then have "take_bit 7 ?sc = ?sc" by (metis take_bit_nat_eq_self unsigned_take_bit_eq word_unat_eq_iff)
  then have "\<not> bit ?sc 7" by (metis bit_take_bit_iff less_irrefl)
  then show "?sc AND 0x0080 = 0" using and_exp_eq_0_iff [of ?sc 7] by simp
qed

lemma release_key_fields: "kbd_buf (release_key sc k) = kbd_buf k \<and> kbd_msgs (release_key sc k) = kbd_msgs k"
  by (simp add: release_key_def Let_def)

section \<open>Properties\<close>

definition fresh_kbd :: kbd where
  "fresh_kbd = \<lparr>ctrl_status = False, shift_status = True, alt_status = False, caps_lock_status = False, ext_scancode = False,
     kbd_buf = fresh_ioqueue, kbd_msgs = []\<rparr>"

lemma fresh_kbd_inv: "ioq_inv (kbd_buf fresh_kbd, three_threads)"
  by (simp add: fresh_kbd_def ioq_inv_def three_threads_inv three_threads_intr)

text \<open>C23.  A plain key: the character of the key, chosen by the state of the shift, caps lock and control
  keys, is put at the end of the keyboard buffer, or dropped when the buffer is full; the
  modifier state stays as it is.\<close>

theorem keyboard_types_char:
  assumes "ioq_inv (kbd_buf k, s)" "0 < code" "code < 0x3B" "\<not> ext_scancode k"
    "(ucast code :: u16) AND 0x00FF \<notin> {0x1D, 0x2A, 0x36, 0x38, 0x3A}"
  shows "\<exists>q s'. intr_keyboard_handler code (k, s) = Inr (k\<lparr>kbd_buf := q\<rparr>, s') \<and> ioq_inv (q, s') \<and> key_char k (ucast code) \<noteq> 0
    \<and> ioq_contents q = (if ioq_length (kbd_buf k) = 2047 then ioq_contents (kbd_buf k) else ioq_contents (kbd_buf k) @ [key_char k (ucast code)])"
proof -
  note P = plain_scancode [OF assms(2,3)]
  have "k\<lparr>ext_scancode := False\<rparr> = k" using assms(4) by (cases k) simp
  then have "press_key (ucast code) (k\<lparr>ext_scancode := False\<rparr>) s = press_key (ucast code) k s"
    by (simp only:)
  then have "intr_keyboard_handler code (k, s) = press_key (ucast code) k s"
    using P assms(4) by (simp add: intr_keyboard_handler_def Let_def)
  then show ?thesis using press_key_spec [OF assms(1), of "ucast code"] P(1) assms(5) by auto
qed

theorem keyboard_types_char_witness:
  "\<exists>q s'. intr_keyboard_handler 0x1E (fresh_kbd, three_threads) = Inr (fresh_kbd\<lparr>kbd_buf := q\<rparr>, s') \<and> ioq_contents q = [65]"
  using keyboard_types_char [OF fresh_kbd_inv, of "0x1E"]
  by (auto simp: fresh_kbd_def key_char_def keymap_def two_symbols_def ioq_length_def)

text \<open>C24.  The handler is safe for every byte the controller may send, in every state of the modifier keys: no
  access leaves the key table, no assertion fails, the caller never has to wait, the queue
  stays well-formed and grows by at most one character, and the branch for an unknown key
  is never reached.\<close>

theorem keyboard_safe:
  assumes inv: "ioq_inv (kbd_buf k, s)"
  shows "\<exists>k' s'. intr_keyboard_handler code (k, s) = Inr (k', s') \<and> ioq_inv (kbd_buf k', s') \<and> kbd_msgs k' = kbd_msgs k
    \<and> (ioq_contents (kbd_buf k') = ioq_contents (kbd_buf k) \<or> (\<exists>c. c \<noteq> 0 \<and> ioq_contents (kbd_buf k') = ioq_contents (kbd_buf k) @ [c]))"
proof -
  define sc where "sc = (if ext_scancode k then 0xE000 OR ucast code else ucast code :: u16)"
  let ?k = "k\<lparr>ext_scancode := False\<rparr>"
  have inv': "ioq_inv (kbd_buf ?k, s)" using inv by simp
  show ?thesis
  proof (cases "(ucast code :: u16) \<noteq> 0xE0 \<and> sc AND 0x0080 = 0 \<and> (sc > 0 \<and> sc < 0x3B \<or> sc = 0xE038 \<or> sc = 0xE01D)")
    case False
    then show ?thesis using inv release_key_fields [of sc ?k]
      by (auto simp: intr_keyboard_handler_def Let_def sc_def [symmetric])
  next
    case True
    then have "intr_keyboard_handler code (k, s) = press_key sc ?k s"
      by (simp add: intr_keyboard_handler_def Let_def sc_def [symmetric])
    then show ?thesis using press_key_spec [OF inv', of sc] True inv by (fastforce split: if_splits)
  qed
qed

theorem keyboard_safe_witness:
  "\<exists>k' s'. intr_keyboard_handler 0x9D (fresh_kbd, three_threads) = Inr (k', s') \<and> kbd_msgs k' = []"
  using keyboard_safe [OF fresh_kbd_inv, of "0x9D"] by (auto simp: fresh_kbd_def)

end
