(* ===== verification/Sectors.thy ===== *)
theory Sectors
  imports Strings
begin

text \<open>
  The view of a disk that the file system relies on: an array of sectors of 512 bytes,
  of which a number of consecutive ones are read and written at a time; and the layout of
  32-bit numbers in a byte buffer, low byte first.
\<close>

section \<open>Numbers in a buffer\<close>

definition le32 :: "u32 \<Rightarrow> bytes" where
  "le32 x = [ucast x, ucast (drop_bit 8 x), ucast (drop_bit 16 x), ucast (drop_bit 24 x)]"

definition get32 :: "bytes \<Rightarrow> nat \<Rightarrow> u32" where
  "get32 bs p =
     ucast (bs ! p) OR push_bit 8 (ucast (bs ! (p + 1))) OR push_bit 16 (ucast (bs ! (p + 2))) OR push_bit 24 (ucast (bs ! (p + 3)))"

text \<open>A sector as an array of 128 numbers.\<close>

definition words_of :: "bytes \<Rightarrow> u32 list" where
  "words_of bs = map (\<lambda>i. get32 bs (4 * i)) [0..<length bs div 4]"

definition bytes_of :: "u32 list \<Rightarrow> bytes" where
  "bytes_of ws = concat (map le32 ws)"

lemma length_le32 [simp]: "length (le32 x) = 4"
  by (simp add: le32_def)

lemma length_bytes_of [simp]: "length (bytes_of ws) = 4 * length ws"
  by (induction ws) (simp_all add: bytes_of_def)

lemma length_words_of [simp]: "length (words_of bs) = length bs div 4"
  by (simp add: words_of_def)

lemma get32_le32: "get32 (le32 x) 0 = x"
proof (rule bit_word_eqI)
  fix n assume n: "n < LENGTH(32)"
  then consider "n < 8" | "8 \<le> n" "n < 16" | "16 \<le> n" "n < 24" | "24 \<le> n" "n < 32" by fastforce
  then show "bit (get32 (le32 x) 0) n = bit x n"
    by cases (auto simp: get32_def le32_def bit_simps)
qed

lemma get32_cong: "take 4 (drop p bs) = take 4 (drop q cs) \<Longrightarrow> p + 4 \<le> length bs \<Longrightarrow> q + 4 \<le> length cs \<Longrightarrow> get32 bs p = get32 cs q"
proof -
  assume eq: "take 4 (drop p bs) = take 4 (drop q cs)" and l: "p + 4 \<le> length bs" "q + 4 \<le> length cs"
  have "bs ! (p + i) = cs ! (q + i)" if "i < 4" for i
    using arg_cong [OF eq, of "\<lambda>xs. xs ! i"] that l by simp
  from this [of 0] this [of 1] this [of 2] this [of 3] show ?thesis by (simp add: get32_def)
qed

lemma get32_drop: "p + q + 4 \<le> length bs \<Longrightarrow> get32 (drop p bs) q = get32 bs (p + q)"
  by (simp add: get32_def add.assoc)

lemma get32_overwrite_same: "p + 4 \<le> length bs \<Longrightarrow> get32 (overwrite p (le32 x) bs) p = x"
  using get32_cong [of p "overwrite p (le32 x) bs" 0 "le32 x"] take_drop_overwrite_same [of p "le32 x" bs]
  by (simp add: get32_le32)

lemma get32_overwrite_other:
  "p + length xs \<le> length bs \<Longrightarrow> q + 4 \<le> length bs \<Longrightarrow> q + 4 \<le> p \<or> p + length xs \<le> q \<Longrightarrow> get32 (overwrite p xs bs) q = get32 bs q"
  by (rule get32_cong) (simp_all add: take_drop_overwrite_other)

lemma bytes_of_Cons: "bytes_of (w # ws) = le32 w @ bytes_of ws"
  by (simp add: bytes_of_def)

lemma get32_append1: "q + 4 \<le> length xs \<Longrightarrow> get32 (xs @ ys) q = get32 xs q"
  by (rule get32_cong) simp_all

lemma get32_append2: "length xs \<le> q \<Longrightarrow> q + 4 \<le> length xs + length ys \<Longrightarrow> get32 (xs @ ys) q = get32 ys (q - length xs)"
  by (rule get32_cong) simp_all

lemma get32_bytes_of: "i < length ws \<Longrightarrow> get32 (bytes_of ws) (4 * i) = ws ! i"
proof (induction ws arbitrary: i)
  case (Cons w ws)
  show ?case
  proof (cases i)
    case 0
    then show ?thesis by (simp add: bytes_of_Cons get32_append1 get32_le32)
  next
    case (Suc j)
    then show ?thesis using Cons by (simp add: bytes_of_Cons get32_append2)
  qed
qed simp

lemma words_of_bytes_of [simp]: "words_of (bytes_of ws) = ws"
  by (rule list_eq_nthI) (simp_all add: words_of_def get32_bytes_of)

lemma nth_words_of [simp]: "i < length bs div 4 \<Longrightarrow> words_of bs ! i = get32 bs (4 * i)"
  by (simp add: words_of_def)

section \<open>Sectors\<close>

type_synonym media = "u32 \<Rightarrow> bytes"

definition read_secs :: "media \<Rightarrow> u32 \<Rightarrow> nat \<Rightarrow> bytes" where
  "read_secs m lba n = concat (map (\<lambda>i. m (lba + of_nat i)) [0..<n])"

definition write_secs :: "media \<Rightarrow> u32 \<Rightarrow> nat \<Rightarrow> bytes \<Rightarrow> media" where
  "write_secs m lba n bs = (\<lambda>l. if unat (l - lba) < n then take 512 (drop (512 * unat (l - lba)) bs) else m l)"

definition media_ok :: "media \<Rightarrow> bool" where
  "media_ok m \<longleftrightarrow> (\<forall>l. length (m l) = 512)"

lemma media_okD [simp]: "media_ok m \<Longrightarrow> length (m l) = 512"
  by (simp add: media_ok_def)

lemma read_secs_0 [simp]: "read_secs m lba 0 = []"
  by (simp add: read_secs_def)

lemma read_secs_1 [simp]: "read_secs m lba (Suc 0) = m lba"
  by (simp add: read_secs_def)

lemma read_secs_Suc: "read_secs m lba (Suc n) = read_secs m lba n @ m (lba + of_nat n)"
  by (simp add: read_secs_def)

lemma read_secs_add: "read_secs m lba (a + b) = read_secs m lba a @ read_secs m (lba + of_nat a) b"
  by (induction b) (simp_all add: read_secs_Suc algebra_simps)

lemma length_read_secs [simp]: "media_ok m \<Longrightarrow> length (read_secs m lba n) = 512 * n"
  by (induction n) (simp_all add: read_secs_Suc)

lemma take_drop_read_secs:
  assumes "media_ok m" "i < n"
  shows "take 512 (drop (512 * i) (read_secs m lba n)) = m (lba + of_nat i)"
proof -
  have "read_secs m lba n = read_secs m lba i @ read_secs m (lba + of_nat i) (Suc 0 + (n - Suc i))"
    using assms(2) read_secs_add [of m lba i "n - i"] by (simp add: Suc_diff_Suc)
  then have "read_secs m lba n = read_secs m lba i @ m (lba + of_nat i) @ read_secs m (lba + of_nat i + of_nat (Suc 0)) (n - Suc i)"
    by (simp only: read_secs_add read_secs_1)
  then show ?thesis using assms(1) by simp
qed

lemma media_ok_write: "media_ok m \<Longrightarrow> 512 * n \<le> length bs \<Longrightarrow> media_ok (write_secs m lba n bs)"
  by (auto simp: media_ok_def write_secs_def)

lemma write_secs_other: "\<not> unat (l - lba) < n \<Longrightarrow> write_secs m lba n bs l = m l"
  by (simp add: write_secs_def)

lemma write_secs_1 [simp]: "length bs = 512 \<Longrightarrow> write_secs m lba (Suc 0) bs = m(lba := bs)"
  by (auto simp: write_secs_def fun_eq_iff unat_eq_zero)

lemma write_secs_nth:
  assumes "i < n" "n \<le> 2 ^ 32"
  shows "write_secs m lba n bs (lba + of_nat i) = take 512 (drop (512 * i) bs)"
  using assms by (simp add: write_secs_def unat_of_nat_u32)

lemma read_secs_cong: "(\<And>i. i < n \<Longrightarrow> m (lba + of_nat i) = m' (lba + of_nat i)) \<Longrightarrow> read_secs m lba n = read_secs m' lba n"
  by (auto simp: read_secs_def intro!: arg_cong [where f = concat] map_cong)

lemma read_write_secs:
  assumes "length bs = 512 * n" "n \<le> 2 ^ 32"
  shows "read_secs (write_secs m lba n bs) lba n = bs"
proof -
  have "read_secs (write_secs m lba n bs) lba k = take (512 * k) bs" if "k \<le> n" for k
    using that
  proof (induction k)
    case (Suc k)
    have "take (512 * Suc k) bs = take (512 * k) bs @ take 512 (drop (512 * k) bs)" using take_add [of "512 * k" 512 bs] by (simp add: add.commute)
    then show ?case using Suc assms(2) by (simp only: read_secs_Suc Suc_le_lessD write_secs_nth)
  qed simp
  from this [of n] show ?thesis using assms(1) by simp
qed

lemma write_secs_add:
  assumes "length bs = 512 * a" "a + b < 2 ^ 32"
  shows "write_secs (write_secs m lba a bs) (lba + of_nat a) b cs = write_secs m lba (a + b) (bs @ cs)"
proof
  fix l :: u32
  define k where "k = unat (l - lba)"
  have l: "l = lba + of_nat k" by (simp add: k_def)
  have k: "k < 2 ^ 32" unfolding k_def using unsigned_less [of "l - lba"] by simp
  show "write_secs (write_secs m lba a bs) (lba + of_nat a) b cs l = write_secs m lba (a + b) (bs @ cs) l"
  proof (cases "k < a")
    case True
    have d: "l - (lba + of_nat a) = of_nat k - of_nat a" by (simp add: l)
    have "unat (of_nat k - of_nat a :: u32) = 2 ^ 32 + k - a"
      using True k assms(2) by (simp add: unat_sub_if' unat_of_nat_u32 add_increasing2)
    then have "\<not> unat (l - (lba + of_nat a)) < b" using assms(2) True by (simp add: d)
    moreover have "take 512 (drop (512 * k) (bs @ cs)) = take 512 (drop (512 * k) bs)" using True assms(1) by simp
    ultimately show ?thesis using True by (simp add: write_secs_def k_def [symmetric])
  next
    case False
    have "l - (lba + of_nat a) = of_nat (k - a)" using False by (simp add: l of_nat_diff)
    then have "unat (l - (lba + of_nat a)) = k - a" using k by (simp add: unat_of_nat_u32)
    moreover have "drop (512 * (k - a)) cs = drop (512 * k) (bs @ cs)" using False assms(1) by (simp add: right_diff_distrib')
    ultimately show ?thesis using False by (auto simp: write_secs_def k_def [symmetric])
  qed
qed

text \<open>A piece of the disk as one string of bytes.\<close>

lemma read_secs_piece:
  assumes "media_ok m" "i + k \<le> N"
  shows "read_secs m (lba + of_nat i) k = take (512 * k) (drop (512 * i) (read_secs m lba N))"
proof -
  have "N = i + (k + (N - i - k))" using assms(2) by simp
  then have "read_secs m lba N = read_secs m lba i @ read_secs m (lba + of_nat i) k @ read_secs m (lba + of_nat i + of_nat k) (N - i - k)"
    by (metis read_secs_add)
  then show ?thesis using assms(1) by simp
qed

lemma read_secs_write_piece:
  assumes "media_ok m" "i + k \<le> N" "N < 2 ^ 32" "length bs = 512 * k"
  shows "read_secs (write_secs m (lba + of_nat i) k bs) lba N = overwrite (512 * i) bs (read_secs m lba N)"
proof -
  let ?m = "write_secs m (lba + of_nat i) k bs"
  have N: "N = i + (k + (N - i - k))" using assms(2) by simp
  have split: "read_secs m' lba N = read_secs m' lba i @ read_secs m' (lba + of_nat i) k @ read_secs m' (lba + of_nat i + of_nat k) (N - i - k)" for m'
    using N by (metis read_secs_add)
  have below: "read_secs ?m lba i = read_secs m lba i"
  proof (rule read_secs_cong)
    fix j assume j: "j < i"
    have e: "lba + of_nat j - (lba + of_nat i) = of_nat j - (of_nat i :: u32)" by simp
    have "unat (of_nat j - of_nat i :: u32) = 2 ^ 32 + j - i" using j assms(2,3) by (simp add: unat_sub_if' unat_of_nat_u32)
    then show "?m (lba + of_nat j) = m (lba + of_nat j)" using j assms(2,3) by (intro write_secs_other) (simp add: e)
  qed
  have above: "read_secs ?m (lba + of_nat i + of_nat k) (N - i - k) = read_secs m (lba + of_nat i + of_nat k) (N - i - k)"
  proof (rule read_secs_cong)
    fix j assume j: "j < N - i - k"
    have "lba + of_nat i + of_nat k + of_nat j - (lba + of_nat i) = (of_nat (k + j) :: u32)" by simp
    moreover have "unat (of_nat (k + j) :: u32) = k + j" using j assms(3) by (intro unat_of_nat_u32) simp
    ultimately show "?m (lba + of_nat i + of_nat k + of_nat j) = m (lba + of_nat i + of_nat k + of_nat j)"
      by (intro write_secs_other) (simp only: not_less le_add1)
  qed
  have "read_secs ?m (lba + of_nat i) k = bs" using assms by (intro read_write_secs) simp_all
  then show ?thesis using assms(1,4) split [of ?m] split [of m] below above by (simp add: overwrite_def)
qed

end
