(* ===== verification/Ide.thy ===== *)
theory Ide
  imports Sync Stdio Sectors
begin

text \<open>
  The disk driver, \<^verbatim>\<open>device/ide.c\<close>.

  The driver talks to two controllers through ports.  The controllers are part of the
  environment: below they are given as the ATA standard describes them, with the
  registers the driver writes, the transfer a command starts, and the sectors of the two
  drives.  A disk is named by the number of its channel and its number on the channel.

  Where the driver waits for the interrupt of the drive, the model lets the interrupt
  arrive first: the handler runs, and the semaphore is taken without going to sleep.
\<close>

section \<open>The controllers\<close>

text \<open>What goes through the data port after a command: bytes for the driver, or a
  number of sectors that the drive (the second one, if the flag is set) expects.\<close>

datatype transfer = No_data | To_host bytes | From_host bool u32 nat

record ata =
  r_cnt :: u8
  r_lba_l :: u8
  r_lba_m :: u8
  r_lba_h :: u8
  r_dev :: u8
  xfer :: transfer
  busy :: nat
  delay :: nat
  media :: "bool \<Rightarrow> media"
  ident :: "bool \<Rightarrow> bytes"

definition ata_lba :: "ata \<Rightarrow> u32" where
  "ata_lba h = ucast (r_lba_l h) OR push_bit 8 (ucast (r_lba_m h)) OR push_bit 16 (ucast (r_lba_h h)) OR push_bit 24 (ucast (r_dev h AND 0x0F))"

definition ata_cnt :: "ata \<Rightarrow> nat" where
  "ata_cnt h = (if r_cnt h = 0 then 256 else unat (r_cnt h))"

definition ata_slave :: "ata \<Rightarrow> bool" where
  "ata_slave h \<longleftrightarrow> r_dev h AND 0x10 \<noteq> 0"

text \<open>A command; without the LBA bit the address registers would mean something else, and
  nothing is transferred.  The drive is busy for a number of polls afterwards.\<close>

definition ata_cmd :: "u8 \<Rightarrow> ata \<Rightarrow> ata" where
  "ata_cmd c h =
     (let x = (if c = 0xEC then To_host (ident h (ata_slave h))
               else if r_dev h AND 0x40 = 0 then No_data
               else if c = 0x20 then To_host (read_secs (media h (ata_slave h)) (ata_lba h) (ata_cnt h))
               else if c = 0x30 then From_host (ata_slave h) (ata_lba h) (ata_cnt h)
               else No_data)
      in h\<lparr>xfer := x, busy := delay h\<rparr>)"

type_synonym ports = "u16 \<Rightarrow> ata"

definition outb :: "u16 \<Rightarrow> u8 \<Rightarrow> ports \<Rightarrow> ports" where
  "outb port v hw =
     (let base = port AND 0xFFF8; reg = port AND 7; h = hw base
      in hw(base :=
           (if reg = 2 then h\<lparr>r_cnt := v\<rparr> else if reg = 3 then h\<lparr>r_lba_l := v\<rparr> else if reg = 4 then h\<lparr>r_lba_m := v\<rparr>
            else if reg = 5 then h\<lparr>r_lba_h := v\<rparr> else if reg = 6 then h\<lparr>r_dev := v\<rparr> else if reg = 7 then ata_cmd v h else h)))"

text \<open>Reading the status: busy, then ready, with a data request while a transfer is due.\<close>

definition inb_status :: "u16 \<Rightarrow> ports \<Rightarrow> u8 \<times> ports" where
  "inb_status port hw =
     (let base = port AND 0xFFF8; h = hw base
      in if busy h > 0 then (0x80, hw(base := h\<lparr>busy := busy h - 1\<rparr>))
         else (if xfer h = No_data then 0x40 else 0x48, hw))"

definition insw :: "u16 \<Rightarrow> nat \<Rightarrow> ports \<Rightarrow> (bytes \<times> ports) kres" where
  "insw port word_cnt hw =
     (let base = port AND 0xFFF8; h = hw base
      in case xfer h of
           To_host bs \<Rightarrow> if 2 * word_cnt \<le> length bs
             then Inr (take (2 * word_cnt) bs,
               hw(base := h\<lparr>xfer := (if 2 * word_cnt = length bs then No_data else To_host (drop (2 * word_cnt) bs))\<rparr>))
             else Inl Fault
         | _ \<Rightarrow> Inl Fault)"

definition outsw :: "u16 \<Rightarrow> bytes \<Rightarrow> ports \<Rightarrow> ports kres" where
  "outsw port bs hw =
     (let base = port AND 0xFFF8; h = hw base
      in case xfer h of
           From_host sl lba n \<Rightarrow> if length bs = 512 * n
             then Inr (hw(base := h\<lparr>xfer := No_data, media := (media h)(sl := write_secs (media h sl) lba n bs)\<rparr>))
             else Inl Fault
         | _ \<Rightarrow> Inl Fault)"

section \<open>State of the driver\<close>

record partition =
  start_lba :: u32
  sec_cnt :: u32
  part_name :: bytes

record disk =
  disk_name :: bytes
  dev_no :: u8
  prim_parts :: "partition list"
  logic_parts :: "partition list"

record ide_channel =
  ch_name :: bytes
  port_base :: u16
  irq_no :: u8
  ch_lock :: lock
  expecting_intr :: bool
  disk_done :: semaphore
  devices :: "disk list"

text \<open>An element of \<^verbatim>\<open>partition_list\<close>: channel, device, logical or primary, index.\<close>

type_synonym part_ref = "nat \<times> nat \<times> bool \<times> nat"

record ide = sched +
  channels :: "ide_channel list"
  channel_cnt :: u8
  ext_lba_base :: u32
  p_no :: u8
  l_no :: u8
  partition_list :: "part_ref list"
  hw :: ports

abbreviation reg_data :: "ide_channel \<Rightarrow> u16" where "reg_data ch \<equiv> port_base ch + 0"
abbreviation reg_sect_cnt :: "ide_channel \<Rightarrow> u16" where "reg_sect_cnt ch \<equiv> port_base ch + 2"
abbreviation reg_lba_l :: "ide_channel \<Rightarrow> u16" where "reg_lba_l ch \<equiv> port_base ch + 3"
abbreviation reg_lba_m :: "ide_channel \<Rightarrow> u16" where "reg_lba_m ch \<equiv> port_base ch + 4"
abbreviation reg_lba_h :: "ide_channel \<Rightarrow> u16" where "reg_lba_h ch \<equiv> port_base ch + 5"
abbreviation reg_dev :: "ide_channel \<Rightarrow> u16" where "reg_dev ch \<equiv> port_base ch + 6"
abbreviation reg_status :: "ide_channel \<Rightarrow> u16" where "reg_status ch \<equiv> port_base ch + 7"

definition max_lba :: u32 where "max_lba = 163839"

definition get_channel :: "nat \<Rightarrow> 'a ide_scheme \<Rightarrow> ide_channel kres" where
  "get_channel c s = aget (channels s) c"

definition put_channel :: "nat \<Rightarrow> ide_channel \<Rightarrow> 'a ide_scheme \<Rightarrow> 'a ide_scheme" where
  "put_channel c ch s = s\<lparr>channels := (channels s)[c := ch]\<rparr>"

definition get_disk :: "nat \<Rightarrow> nat \<Rightarrow> 'a ide_scheme \<Rightarrow> disk kres" where
  "get_disk c d s = kbind (get_channel c s) (\<lambda>ch. aget (devices ch) d)"

definition put_disk :: "nat \<Rightarrow> nat \<Rightarrow> disk \<Rightarrow> 'a ide_scheme \<Rightarrow> 'a ide_scheme kres" where
  "put_disk c d dk s = kbind (get_channel c s) (\<lambda>ch. kbind (aset (devices ch) d dk) (\<lambda>ds. Inr (put_channel c (ch\<lparr>devices := ds\<rparr>) s)))"

section \<open>Commands\<close>

definition select_disk :: "nat \<Rightarrow> nat \<Rightarrow> 'a ide_scheme \<Rightarrow> 'a ide_scheme kres" where
  "select_disk c d s =
     kbind (get_channel c s) (\<lambda>ch.
     kbind (get_disk c d s) (\<lambda>hd.
       let reg_device = 0xA0 OR 0x40;
           reg_device = (if dev_no hd = 1 then reg_device OR 0x10 else reg_device)
       in Inr (s\<lparr>hw := outb (reg_dev ch) reg_device (hw s)\<rparr>)))"

definition select_sector :: "nat \<Rightarrow> nat \<Rightarrow> u32 \<Rightarrow> u8 \<Rightarrow> 'a ide_scheme \<Rightarrow> 'a ide_scheme kres" where
  "select_sector c d lba cnt s =
     kbind (kassert ''select_sector'' (lba \<le> max_lba)) (\<lambda>_.
     kbind (get_channel c s) (\<lambda>ch.
     kbind (get_disk c d s) (\<lambda>hd.
       let w = outb (reg_sect_cnt ch) cnt (hw s);
           w = outb (reg_lba_l ch) (ucast lba) w;
           w = outb (reg_lba_m ch) (ucast (drop_bit 8 lba)) w;
           w = outb (reg_lba_h ch) (ucast (drop_bit 16 lba)) w;
           w = outb (reg_dev ch) (ucast (0xA0 OR 0x40 OR (if dev_no hd = 1 then 0x10 else 0) OR drop_bit 24 lba)) w
       in Inr (s\<lparr>hw := w\<rparr>))))"

definition cmd_out :: "nat \<Rightarrow> u8 \<Rightarrow> 'a ide_scheme \<Rightarrow> 'a ide_scheme kres" where
  "cmd_out c cmd s =
     kbind (get_channel c s) (\<lambda>ch.
     Inr ((put_channel c (ch\<lparr>expecting_intr := True\<rparr>) s)\<lparr>hw := outb (reg_status ch) cmd (hw s)\<rparr>))"

definition read_from_sector :: "nat \<Rightarrow> u8 \<Rightarrow> 'a ide_scheme \<Rightarrow> (bytes \<times> 'a ide_scheme) kres" where
  "read_from_sector c cnt s =
     kbind (get_channel c s) (\<lambda>ch.
       let size_in_byte = (if cnt = 0 then 256 * 512 else unat cnt * 512)
       in kbind (insw (reg_data ch) (size_in_byte div 2) (hw s)) (\<lambda>(bs, w). Inr (bs, s\<lparr>hw := w\<rparr>)))"

text \<open>\<open>buf\<close> are the bytes of memory from the address given to the function on.\<close>

definition write2sector :: "nat \<Rightarrow> bytes \<Rightarrow> u8 \<Rightarrow> 'a ide_scheme \<Rightarrow> 'a ide_scheme kres" where
  "write2sector c buf cnt s =
     kbind (get_channel c s) (\<lambda>ch.
       let size_in_byte = (if cnt = 0 then 256 * 512 else unat cnt * 512)
       in if size_in_byte \<le> length buf
          then kbind (outsw (reg_data ch) (take (2 * (size_in_byte div 2)) buf) (hw s)) (\<lambda>w. Inr (s\<lparr>hw := w\<rparr>))
          else Inl Fault)"

text \<open>
  The condition \<^verbatim>\<open>time_limit -= 10 >= 0\<close> subtracts the value of \<^verbatim>\<open>10 >= 0\<close>, which is 1,
  and tests the result: the body is executed 29999 times at most.  \<^verbatim>\<open>mtime_sleep\<close> between
  two polls only gives the processor to other threads.
\<close>

fun busy_wait_loop :: "nat \<Rightarrow> nat \<Rightarrow> 'a ide_scheme \<Rightarrow> (bool \<times> 'a ide_scheme) kres" where
  "busy_wait_loop c 0 s = Inr (False, s)"
| "busy_wait_loop c (Suc n) s =
     kbind (get_channel c s) (\<lambda>ch.
       let (v, w) = inb_status (reg_status ch) (hw s);
           s = s\<lparr>hw := w\<rparr>
       in if v AND 0x80 = 0 then
            let (v, w) = inb_status (reg_status ch) (hw s) in Inr (v AND 0x8 \<noteq> 0, s\<lparr>hw := w\<rparr>)
          else busy_wait_loop c n s)"

definition busy_wait :: "nat \<Rightarrow> 'a ide_scheme \<Rightarrow> (bool \<times> 'a ide_scheme) kres" where
  "busy_wait c s = busy_wait_loop c 29999 s"

section \<open>The interrupt\<close>

definition intr_hd_handler :: "u8 \<Rightarrow> 'a ide_scheme \<Rightarrow> 'a ide_scheme kres" where
  "intr_hd_handler irq s =
     kbind (kassert ''intr_hd_handler'' (irq = 0x2E \<or> irq = 0x2F)) (\<lambda>_.
       let ch_no = unat (irq - 0x2E)
       in kbind (get_channel ch_no s) (\<lambda>ch.
          kbind (kassert ''intr_hd_handler'' (irq_no ch = irq)) (\<lambda>_.
          if expecting_intr ch then
            kbind (sema_up (disk_done ch) s) (\<lambda>(sem, s).
              let s = put_channel ch_no (ch\<lparr>expecting_intr := False, disk_done := sem\<rparr>) s
              in Inr (s\<lparr>hw := snd (inb_status (reg_status ch) (hw s))\<rparr>))
          else Inr s)))"

text \<open>Waiting for the drive: its interrupt arrives, then the semaphore is taken.\<close>

definition wait_disk_done :: "nat \<Rightarrow> 'a ide_scheme \<Rightarrow> 'a ide_scheme kres" where
  "wait_disk_done c s =
     kbind (get_channel c s) (\<lambda>ch.
     kbind (intr_hd_handler (irq_no ch) s) (\<lambda>s.
     kbind (get_channel c s) (\<lambda>ch.
     kbind (sema_down (disk_done ch) s) (\<lambda>(sem, s).
     Inr (put_channel c (ch\<lparr>disk_done := sem\<rparr>) s)))))"

section \<open>Reading and writing\<close>

definition acquire_channel :: "nat \<Rightarrow> 'a ide_scheme \<Rightarrow> 'a ide_scheme kres" where
  "acquire_channel c s =
     kbind (get_channel c s) (\<lambda>ch. kbind (lock_acquire (ch_lock ch) s) (\<lambda>(l, s). Inr (put_channel c (ch\<lparr>ch_lock := l\<rparr>) s)))"

definition release_channel :: "nat \<Rightarrow> 'a ide_scheme \<Rightarrow> 'a ide_scheme kres" where
  "release_channel c s =
     kbind (get_channel c s) (\<lambda>ch. kbind (lock_release (ch_lock ch) s) (\<lambda>(l, s). Inr (put_channel c (ch\<lparr>ch_lock := l\<rparr>) s)))"

text \<open>
  Counts of sectors are naturals: the assertion in \<^verbatim>\<open>select_sector\<close> ends the loop long
  before the 32-bit counters of the source could wrap around.
\<close>

definition secs_op :: "nat \<Rightarrow> nat \<Rightarrow> nat" where
  "secs_op secs_done cnt = (if secs_done + 256 \<le> cnt then 256 else cnt - secs_done)"

function ide_read_loop :: "nat \<Rightarrow> nat \<Rightarrow> u32 \<Rightarrow> nat \<Rightarrow> nat \<Rightarrow> 'a ide_scheme \<Rightarrow> (bytes \<times> 'a ide_scheme) kres" where
  "ide_read_loop c d lba secs_done cnt s =
     (if secs_done < cnt then
        let n = secs_op secs_done cnt
        in kbind (select_sector c d (lba + of_nat secs_done) (of_nat n) s) (\<lambda>s.
           kbind (cmd_out c 0x20 s) (\<lambda>s.
           kbind (wait_disk_done c s) (\<lambda>s.
           kbind (busy_wait c s) (\<lambda>(ready, s).
           if \<not> ready then Inl (Panic ''read sector failed'')
           else kbind (read_from_sector c (of_nat n) s) (\<lambda>(bs, s).
                kbind (ide_read_loop c d lba (secs_done + n) cnt s) (\<lambda>(rest, s). Inr (bs @ rest, s)))))))
      else Inr ([], s))"
  by pat_completeness auto
termination
  by (relation "measure (\<lambda>(c, d, lba, secs_done, cnt, s). cnt - secs_done)") (auto simp: secs_op_def)

definition ide_read :: "nat \<Rightarrow> nat \<Rightarrow> u32 \<Rightarrow> nat \<Rightarrow> 'a ide_scheme \<Rightarrow> (bytes \<times> 'a ide_scheme) kres" where
  "ide_read c d lba cnt s =
     kbind (kassert ''ide_read'' (lba \<le> max_lba)) (\<lambda>_.
     kbind (kassert ''ide_read'' (cnt > 0)) (\<lambda>_.
     kbind (acquire_channel c s) (\<lambda>s.
     kbind (select_disk c d s) (\<lambda>s.
     kbind (ide_read_loop c d lba 0 cnt s) (\<lambda>(bs, s).
     kbind (release_channel c s) (\<lambda>s. Inr (bs, s)))))))"

function ide_write_loop :: "nat \<Rightarrow> nat \<Rightarrow> u32 \<Rightarrow> bytes \<Rightarrow> nat \<Rightarrow> nat \<Rightarrow> 'a ide_scheme \<Rightarrow> 'a ide_scheme kres" where
  "ide_write_loop c d lba buf secs_done cnt s =
     (if secs_done < cnt then
        let n = secs_op secs_done cnt
        in kbind (select_sector c d (lba + of_nat secs_done) (of_nat n) s) (\<lambda>s.
           kbind (cmd_out c 0x30 s) (\<lambda>s.
           kbind (busy_wait c s) (\<lambda>(ready, s).
           if \<not> ready then Inl (Panic ''write sector failed'')
           else kbind (write2sector c (drop (secs_done * 512) buf) (of_nat n) s) (\<lambda>s.
                kbind (wait_disk_done c s) (\<lambda>s.
                ide_write_loop c d lba buf (secs_done + n) cnt s)))))
      else Inr s)"
  by pat_completeness auto
termination
  by (relation "measure (\<lambda>(c, d, lba, buf, secs_done, cnt, s). cnt - secs_done)") (auto simp: secs_op_def)

definition ide_write :: "nat \<Rightarrow> nat \<Rightarrow> u32 \<Rightarrow> bytes \<Rightarrow> nat \<Rightarrow> 'a ide_scheme \<Rightarrow> 'a ide_scheme kres" where
  "ide_write c d lba buf cnt s =
     kbind (kassert ''ide_write'' (lba \<le> max_lba)) (\<lambda>_.
     kbind (kassert ''ide_write'' (cnt > 0)) (\<lambda>_.
     kbind (acquire_channel c s) (\<lambda>s.
     kbind (select_disk c d s) (\<lambda>s.
     kbind (ide_write_loop c d lba buf 0 cnt s) (\<lambda>s.
     release_channel c s)))))"

declare ide_read_loop.simps [simp del] ide_write_loop.simps [simp del]

section \<open>Identification and partitions\<close>

fun swap_pairs_loop :: "nat \<Rightarrow> bytes \<Rightarrow> bytes \<Rightarrow> nat \<Rightarrow> bytes kres" where
  "swap_pairs_loop 0 dst buf idx = aset buf idx 0"
| "swap_pairs_loop (Suc n) dst buf idx =
     kbind (aget dst idx) (\<lambda>a.
     kbind (aset buf (idx + 1) a) (\<lambda>buf.
     kbind (aget dst (idx + 1)) (\<lambda>b.
     kbind (aset buf idx b) (\<lambda>buf.
     swap_pairs_loop n dst buf (idx + 2)))))"

definition swap_pairs_bytes :: "bytes \<Rightarrow> bytes \<Rightarrow> nat \<Rightarrow> bytes kres" where
  "swap_pairs_bytes dst buf len = swap_pairs_loop ((len + 1) div 2) dst buf 0"

definition identify_disk :: "nat \<Rightarrow> nat \<Rightarrow> 'a ide_scheme \<Rightarrow> (bytes \<times> bytes \<times> 'a ide_scheme) kres" where
  "identify_disk c d s =
     kbind (select_disk c d s) (\<lambda>s.
     kbind (cmd_out c 0xEC s) (\<lambda>s.
     kbind (wait_disk_done c s) (\<lambda>s.
     kbind (busy_wait c s) (\<lambda>(ready, s).
     if \<not> ready then Inl (Panic ''identify failed'')
     else kbind (read_from_sector c 1 s) (\<lambda>(id_info, s).
          kbind (swap_pairs_bytes (drop 20 id_info) (replicate 64 0) 20) (\<lambda>sn.
          kbind (swap_pairs_bytes (drop 54 id_info) (replicate 64 0) 40) (\<lambda>md.
          Inr (sn, md, s))))))))"

record partition_table_entry =
  fs_type :: u8
  pe_start_lba :: u32
  pe_sec_cnt :: u32

definition partition_table :: "bytes \<Rightarrow> partition_table_entry list" where
  "partition_table bs =
     map (\<lambda>i. \<lparr>fs_type = bs ! (446 + 16 * i + 4), pe_start_lba = get32 bs (446 + 16 * i + 8), pe_sec_cnt = get32 bs (446 + 16 * i + 12)\<rparr>) [0..<4]"

definition add_prim_part :: "nat \<Rightarrow> nat \<Rightarrow> partition_table_entry \<Rightarrow> u32 \<Rightarrow> 'a ide_scheme \<Rightarrow> 'a ide_scheme kres" where
  "add_prim_part c d p ext_lba s =
     kbind (get_disk c d s) (\<lambda>hd.
     kbind (aset (prim_parts hd) (unat (p_no s))
        \<lparr>start_lba = ext_lba + pe_start_lba p, sec_cnt = pe_sec_cnt p, part_name = disk_name hd @ decimal (ucast (p_no s) + 1)\<rparr>) (\<lambda>ps.
     kbind (put_disk c d (hd\<lparr>prim_parts := ps\<rparr>) s) (\<lambda>s.
       let s = s\<lparr>partition_list := partition_list s @ [(c, d, False, unat (p_no s))], p_no := p_no s + 1\<rparr>
       in kbind (kassert ''partition_scan'' (p_no s < 4)) (\<lambda>_. Inr s))))"

definition add_logic_part :: "nat \<Rightarrow> nat \<Rightarrow> partition_table_entry \<Rightarrow> u32 \<Rightarrow> 'a ide_scheme \<Rightarrow> 'a ide_scheme kres" where
  "add_logic_part c d p ext_lba s =
     kbind (get_disk c d s) (\<lambda>hd.
     kbind (aset (logic_parts hd) (unat (l_no s))
        \<lparr>start_lba = ext_lba + pe_start_lba p, sec_cnt = pe_sec_cnt p, part_name = disk_name hd @ decimal (ucast (l_no s) + 5)\<rparr>) (\<lambda>ps.
     kbind (put_disk c d (hd\<lparr>logic_parts := ps\<rparr>) s) (\<lambda>s.
     Inr (s\<lparr>partition_list := partition_list s @ [(c, d, True, unat (l_no s))], l_no := l_no s + 1\<rparr>))))"

text \<open>The loop over the entries of one table; \<open>scan\<close> is the recursive call.\<close>

fun scan_entries :: "(u32 \<Rightarrow> 'a ide_scheme \<Rightarrow> 'a ide_scheme kres) \<Rightarrow> nat \<Rightarrow> nat \<Rightarrow> u32 \<Rightarrow> partition_table_entry list \<Rightarrow>
    'a ide_scheme \<Rightarrow> 'a ide_scheme kres" where
  "scan_entries scan c d ext_lba [] s = Inr s"
| "scan_entries scan c d ext_lba (p # ps) s =
     (if fs_type p = 0x5 then
        kbind (if ext_lba_base s \<noteq> 0 then scan (pe_start_lba p + ext_lba_base s) s
               else scan (pe_start_lba p) (s\<lparr>ext_lba_base := pe_start_lba p\<rparr>)) (\<lambda>s.
        scan_entries scan c d ext_lba ps s)
      else if fs_type p \<noteq> 0 then
        if ext_lba = 0 then kbind (add_prim_part c d p ext_lba s) (\<lambda>s. scan_entries scan c d ext_lba ps s)
        else kbind (add_logic_part c d p ext_lba s) (\<lambda>s.
             if l_no s \<ge> 8 then Inr s else scan_entries scan c d ext_lba ps s)
      else scan_entries scan c d ext_lba ps s)"

text \<open>\<open>depth\<close> bounds the nesting of the calls on the stack of the thread; \<open>mem_ok\<close> tells
  whether \<^verbatim>\<open>sys_malloc\<close> returned memory for the sector.\<close>

fun partition_scan :: "nat \<Rightarrow> bool \<Rightarrow> nat \<Rightarrow> nat \<Rightarrow> u32 \<Rightarrow> 'a ide_scheme \<Rightarrow> 'a ide_scheme kres" where
  "partition_scan 0 mem_ok c d ext_lba s = Inl Fault"
| "partition_scan (Suc depth) mem_ok c d ext_lba s =
     (if \<not> mem_ok then Inl Fault
      else kbind (ide_read c d ext_lba 1 s) (\<lambda>(bs, s).
        scan_entries (partition_scan depth mem_ok c d) c d ext_lba (partition_table bs) s))"

section \<open>Initialisation\<close>

fun init_devices :: "nat \<Rightarrow> bool \<Rightarrow> nat \<Rightarrow> nat list \<Rightarrow> 'a ide_scheme \<Rightarrow> 'a ide_scheme kres" where
  "init_devices depth mem_ok c [] s = Inr s"
| "init_devices depth mem_ok c (d # ds) s =
     kbind (get_disk c d s) (\<lambda>hd.
     kbind (put_disk c d (hd\<lparr>dev_no := of_nat d, disk_name := [115, 100, of_nat (97 + c * 2 + d)]\<rparr>) s) (\<lambda>s.
     kbind (identify_disk c d s) (\<lambda>(_, _, s).
     kbind (if d \<noteq> 0 then partition_scan depth mem_ok c d 0 s else Inr s) (\<lambda>s.
     init_devices depth mem_ok c ds (s\<lparr>p_no := 0, l_no := 0\<rparr>)))))"

fun init_channels :: "nat \<Rightarrow> bool \<Rightarrow> nat list \<Rightarrow> 'a ide_scheme \<Rightarrow> handler list \<Rightarrow> ('a ide_scheme \<times> handler list) kres" where
  "init_channels depth mem_ok [] s tbl = Inr (s, tbl)"
| "init_channels depth mem_ok (c # cs) s tbl =
     kbind (get_channel c s) (\<lambda>ch.
       let ch = ch\<lparr>ch_name := [105, 100, 101] @ decimal (of_nat c)\<rparr>;
           ch = (if c = 0 then ch\<lparr>port_base := 0x1F0, irq_no := 0x20 + 14\<rparr>
                 else if c = 1 then ch\<lparr>port_base := 0x170, irq_no := 0x20 + 15\<rparr> else ch);
           ch = ch\<lparr>expecting_intr := False, ch_lock := lock_init, disk_done := sema_init 0\<rparr>
       in kbind (register_handler (irq_no ch) (Handler ''intr_hd_handler'') tbl) (\<lambda>tbl.
          kbind (init_devices depth mem_ok c [0, 1] (put_channel c ch s)) (\<lambda>s.
          init_channels depth mem_ok cs s tbl)))"

definition ide_init :: "nat \<Rightarrow> bool \<Rightarrow> u8 \<Rightarrow> 'a ide_scheme \<Rightarrow> handler list \<Rightarrow> ('a ide_scheme \<times> handler list) kres" where
  "ide_init depth mem_ok hd_cnt s tbl =
     kbind (kassert ''ide_init'' (hd_cnt > 0)) (\<lambda>_.
       let n = (unat hd_cnt + 1) div 2
       in init_channels depth mem_ok [0..<n] (s\<lparr>partition_list := [], channel_cnt := of_nat n\<rparr>) tbl)"

section \<open>The registers\<close>

lemma port_regs:
  assumes "b \<in> {0x1F0, 0x170 :: u16}"
  shows "b AND 0xFFF8 = b" "(b + 2) AND 0xFFF8 = b" "(b + 3) AND 0xFFF8 = b" "(b + 4) AND 0xFFF8 = b" "(b + 5) AND 0xFFF8 = b"
    "(b + 6) AND 0xFFF8 = b" "(b + 7) AND 0xFFF8 = b"
    "(b + 2) AND 7 = 2" "(b + 3) AND 7 = 3" "(b + 4) AND 7 = 4" "(b + 5) AND 7 = 5" "(b + 6) AND 7 = 6" "(b + 7) AND 7 = 7"
  using assms by auto

text \<open>The three address registers and the low bits of the device register hold the address.\<close>

lemma lba_registers:
  assumes "lba \<le> max_lba" "r_lba_l h = ucast lba" "r_lba_m h = ucast (drop_bit 8 lba)" "r_lba_h h = ucast (drop_bit 16 lba)" "r_dev h AND 0x0F = 0"
  shows "ata_lba h = lba"
proof -
  have "unat lba < 2 ^ 24" using assms(1) by (simp add: max_lba_def word_le_nat_alt)
  then have hi: "\<not> bit lba n" if "24 \<le> n" for n
    using that by (metis bit_take_bit_iff linorder_not_less take_bit_nat_eq_self unsigned_take_bit_eq word_unat_eq_iff)
  show ?thesis
  proof (rule bit_word_eqI)
    fix n assume "n < LENGTH(32)"
    then consider "n < 8" | "8 \<le> n" "n < 16" | "16 \<le> n" "n < 24" | "24 \<le> n" "n < 32" by fastforce
    then show "bit (ata_lba h) n = bit lba n"
      using hi by cases (auto simp: ata_lba_def assms bit_simps)
  qed
qed

lemma drive_select:
  assumes "lba \<le> max_lba" "d < 2"
  defines "v \<equiv> ucast (0xA0 OR 0x40 OR (if (of_nat d :: u8) = 1 then 0x10 else 0) OR drop_bit 24 (lba :: u32)) :: u8"
  shows "v AND 0x0F = 0" "v AND 0x40 \<noteq> 0" "v AND 0x10 \<noteq> 0 \<longleftrightarrow> d = 1"
proof -
  have "unat lba < 2 ^ 24" using assms(1) by (simp add: max_lba_def word_le_nat_alt)
  then have "unat (drop_bit 24 lba) = 0" by (simp add: drop_bit_eq_div unat_div)
  then have "drop_bit 24 lba = 0" by (simp only: unat_eq_zero)
  moreover have "d = 0 \<or> d = 1" using assms(2) by auto
  ultimately show "v AND 0x0F = 0" "v AND 0x40 \<noteq> 0" "v AND 0x10 \<noteq> 0 \<longleftrightarrow> d = 1" by (auto simp: v_def)
qed

lemma sector_count: "0 < n \<Longrightarrow> n \<le> 256 \<Longrightarrow> (if (of_nat n :: u8) = 0 then 256 else unat (of_nat n :: u8)) = n"
proof (cases "n = 256")
  case False
  assume "0 < n" "n \<le> 256"
  then have u: "unat (of_nat n :: u8) = n" using False by (simp add: unat_of_nat take_bit_nat_eq_self)
  then have "(of_nat n :: u8) \<noteq> 0" using \<open>0 < n\<close> by (metis less_irrefl unat_0)
  then show ?thesis using u by simp
qed simp

section \<open>One transfer\<close>

text \<open>The state in which channel \<open>c\<close> and its controller are \<open>ch\<close> and \<open>h\<close>.\<close>

definition chan_state :: "nat \<Rightarrow> ide_channel \<Rightarrow> ata \<Rightarrow> 'a ide_scheme \<Rightarrow> 'a ide_scheme" where
  "chan_state c ch h s = s\<lparr>channels := (channels s)[c := ch], hw := (hw s)(port_base ch := h)\<rparr>"

definition chan_ok :: "nat \<Rightarrow> ide_channel \<Rightarrow> bool" where
  "chan_ok c ch \<longleftrightarrow> c < 2 \<and> port_base ch = (if c = 0 then 0x1F0 else 0x170) \<and> irq_no ch = 0x2E + of_nat c
     \<and> disk_done ch = \<lparr>sema_value = 0, waiters = []\<rparr> \<and> length (devices ch) = 2 \<and> (\<forall>d<2. dev_no (devices ch ! d) = of_nat d)"

lemma chan_state_self:
  assumes "c < length (channels s)"
  shows "chan_state c (channels s ! c) (hw s (port_base (channels s ! c))) s = s"
  by (simp add: chan_state_def)

lemma chan_ok_port: "chan_ok c ch \<Longrightarrow> port_base ch \<in> {0x1F0, 0x170}"
  by (simp add: chan_ok_def)

lemma chan_state_sel [simp]:
  "c < length (channels s) \<Longrightarrow> get_channel c (chan_state c ch h s) = Inr ch"
  "hw (chan_state c ch h s) (port_base ch) = h"
  "running (chan_state c ch h s) = running s"
  "length (channels (chan_state c ch h s)) = length (channels s)"
  by (simp_all add: chan_state_def get_channel_def)

lemma chan_state_hw: "(chan_state c ch h s)\<lparr>hw := (hw (chan_state c ch h s))(port_base ch := h')\<rparr> = chan_state c ch h' s"
  by (simp add: chan_state_def)

lemma chan_state_put:
  "port_base ch' = port_base ch \<Longrightarrow> put_channel c ch' (chan_state c ch h s) = chan_state c ch' h s"
  by (simp add: chan_state_def put_channel_def)

lemma get_disk_state:
  "c < length (channels s) \<Longrightarrow> chan_ok c ch \<Longrightarrow> d < 2 \<Longrightarrow> get_disk c d (chan_state c ch h s) = Inr (devices ch ! d)"
  by (simp add: get_disk_def chan_ok_def)


lemmas port_simps = port_regs [OF chan_ok_port]

lemma select_disk_state:
  assumes c: "c < length (channels s)" and ok: "chan_ok c ch"
    and A: "d < 2"
  shows "\<exists>v. select_disk c d (chan_state c ch h s) = Inr (chan_state c ch (h\<lparr>r_dev := v\<rparr>) s)"
  using A c ok by (simp add: select_disk_def get_disk_state outb_def port_simps [OF ok] Let_def chan_state_hw) blast

lemma select_sector_state:
  assumes c: "c < length (channels s)" and ok: "chan_ok c ch"
    and A: "d < 2" "lba \<le> max_lba" "0 < n" "n \<le> 256"
  obtains h' where "select_sector c d lba (of_nat n) (chan_state c ch h s) = Inr (chan_state c ch h' s)"
    "ata_lba h' = lba" "ata_cnt h' = n" "ata_slave h' \<longleftrightarrow> d = 1" "r_dev h' AND 0x40 \<noteq> 0"
    "media h' = media h" "delay h' = delay h"
proof (rule that)
  let ?v = "ucast (0xA0 OR 0x40 OR (if (of_nat d :: u8) = 1 then 0x10 else 0) OR drop_bit 24 lba) :: u8"
  let ?h = "h\<lparr>r_cnt := of_nat n, r_lba_l := ucast lba, r_lba_m := ucast (drop_bit 8 lba), r_lba_h := ucast (drop_bit 16 lba), r_dev := ?v\<rparr>"
  have "dev_no (devices ch ! d) = of_nat d" using ok A(1) by (simp add: chan_ok_def)
  then show "select_sector c d lba (of_nat n) (chan_state c ch h s) = Inr (chan_state c ch ?h s)"
    using A c ok by (simp add: select_sector_def get_disk_state outb_def port_simps [OF ok] Let_def chan_state_hw)
  note D = drive_select [OF A(2,1)]
  show "ata_lba ?h = lba" by (rule lba_registers) (use A(2) D in simp_all)
  show "ata_cnt ?h = n" using sector_count [OF A(3,4)] by (auto simp: ata_cnt_def split: if_splits)
  show "ata_slave ?h \<longleftrightarrow> d = 1" using D by (simp add: ata_slave_def)
  show "r_dev ?h AND 0x40 \<noteq> 0" using D by simp
qed simp_all

lemma cmd_out_state:
  assumes c: "c < length (channels s)" and ok: "chan_ok c ch"
  shows "cmd_out c cmd (chan_state c ch h s) = Inr (chan_state c (ch\<lparr>expecting_intr := True\<rparr>) (ata_cmd cmd h) s)"
  using c by (simp add: cmd_out_def chan_state_def put_channel_def outb_def port_simps [OF ok] Let_def get_channel_def)

lemma status_read:
  assumes "chan_ok c ch"
  shows "snd (inb_status (reg_status ch) w) = w(port_base ch := (w (port_base ch))\<lparr>busy := busy (w (port_base ch)) - 1\<rparr>)"
proof (cases "busy (w (port_base ch))")
  case 0
  then have "(w (port_base ch))\<lparr>busy := 0\<rparr> = w (port_base ch)" by (cases "w (port_base ch)") simp
  then have "w = w(port_base ch := (w (port_base ch))\<lparr>busy := 0\<rparr>)" by (simp only: fun_upd_triv)
  then show ?thesis using 0 by (simp add: inb_status_def port_simps [OF assms] Let_def)
qed (simp add: inb_status_def port_simps [OF assms] Let_def)

lemma wait_disk_done_state:
  fixes s :: "'a ide_scheme"
  assumes c: "c < length (channels s)" and ok: "chan_ok c ch"
    and A: "expecting_intr ch"
  shows "wait_disk_done c (chan_state c ch h s) = Inr (chan_state c (ch\<lparr>expecting_intr := False\<rparr>) (h\<lparr>busy := busy h - 1\<rparr>) s)"
proof -
  have irq: "irq_no ch = 0x2E \<or> irq_no ch = 0x2F" "unat (irq_no ch - 0x2E) = c"
    using ok by (auto simp: chan_ok_def less_Suc_eq numeral_2_eq_2)
  have dn: "disk_done ch = \<lparr>sema_value = 0, waiters = []\<rparr>" using ok by (simp add: chan_ok_def)
  let ?ch = "ch\<lparr>expecting_intr := False, disk_done := \<lparr>sema_value = 1, waiters = []\<rparr>\<rparr>"
  let ?h = "h\<lparr>busy := busy h - 1\<rparr>"
  have up: "sema_up (disk_done ch) s' = Inr (\<lparr>sema_value = 1, waiters = []\<rparr>, s')" for s' :: "'a ide_scheme"
    by (simp add: sema_up_def dn split_beta Let_def)
  have "intr_hd_handler (irq_no ch) (chan_state c ch h s) = Inr (chan_state c ?ch ?h s)"
    using A irq c by (simp add: intr_hd_handler_def Let_def up status_read [OF ok] chan_state_put) (simp add: chan_state_def)
  moreover have "(ch\<lparr>expecting_intr := False\<rparr>) = ?ch\<lparr>disk_done := \<lparr>sema_value = 0, waiters = []\<rparr>\<rparr>" using dn by (cases ch) simp
  ultimately show ?thesis
    using c by (simp add: wait_disk_done_def sema_down_def sema_down_test_def split_beta Let_def chan_state_put)
qed

lemma busy_wait_loop_state:
  assumes c: "c < length (channels s)" and ok: "chan_ok c ch"
  shows "busy h < n \<Longrightarrow> busy_wait_loop c n (chan_state c ch h s) = Inr (xfer h \<noteq> No_data, chan_state c ch (h\<lparr>busy := 0\<rparr>) s)"
proof (induction n arbitrary: h)
  case (Suc n)
  show ?case
  proof (cases "busy h")
    case 0
    then have "h\<lparr>busy := 0\<rparr> = h" by (cases h) simp
    then have "chan_state c ch (h\<lparr>busy := 0\<rparr>) s = chan_state c ch h s" by (simp only:)
    then show ?thesis using 0 c by (simp add: inb_status_def port_simps [OF ok] Let_def)
  next
    case (Suc k)
    then show ?thesis using Suc.IH [of "h\<lparr>busy := k\<rparr>"] Suc.prems c
      by (simp add: inb_status_def port_simps [OF ok] Let_def chan_state_hw)
  qed
qed simp

lemma busy_wait_state:
  assumes c: "c < length (channels s)" and ok: "chan_ok c ch"
  shows "busy h < 29999 \<Longrightarrow> busy_wait c (chan_state c ch h s) = Inr (xfer h \<noteq> No_data, chan_state c ch (h\<lparr>busy := 0\<rparr>) s)"
  unfolding busy_wait_def by (rule busy_wait_loop_state [OF c ok])

lemma read_from_sector_state:
  assumes c: "c < length (channels s)" and ok: "chan_ok c ch"
    and A: "xfer h = To_host bs" "length bs = 512 * n" "0 < n" "n \<le> 256"
  shows "read_from_sector c (of_nat n) (chan_state c ch h s) = Inr (bs, chan_state c ch (h\<lparr>xfer := No_data\<rparr>) s)"
proof -
  have "(if (of_nat n :: u8) = 0 then 256 * 512 else unat (of_nat n :: u8) * 512) = n * 512"
    using sector_count [OF A(3,4)] by (auto split: if_splits)
  then show ?thesis
    using A c by (simp add: read_from_sector_def insw_def port_simps [OF ok] Let_def chan_state_hw)
qed

lemma write2sector_state:
  assumes c: "c < length (channels s)" and ok: "chan_ok c ch"
    and A: "xfer h = From_host sl lba n" "512 * n \<le> length buf" "0 < n" "n \<le> 256"
  shows "write2sector c buf (of_nat n) (chan_state c ch h s) =
    Inr (chan_state c ch (h\<lparr>xfer := No_data, media := (media h)(sl := write_secs (media h sl) lba n (take (512 * n) buf))\<rparr>) s)"
proof -
  have "(if (of_nat n :: u8) = 0 then 256 * 512 else unat (of_nat n :: u8) * 512) = n * 512"
    using sector_count [OF A(3,4)] by (auto split: if_splits)
  then show ?thesis
    using A c by (simp add: write2sector_def outsw_def port_simps [OF ok] Let_def chan_state_hw mult.commute)
qed

section \<open>Whole transfers\<close>

lemma chan_ok_expecting [simp]: "chan_ok c (ch\<lparr>expecting_intr := e\<rparr>) \<longleftrightarrow> chan_ok c ch"
  by (simp add: chan_ok_def)

lemma chan_state_expecting:
  obtains e where "chan_state c ch h s = chan_state c (ch\<lparr>expecting_intr := e\<rparr>) h s"
proof -
  have "ch\<lparr>expecting_intr := expecting_intr ch\<rparr> = ch" by (cases ch) simp
  then have "chan_state c (ch\<lparr>expecting_intr := expecting_intr ch\<rparr>) h s = chan_state c ch h s" by (simp only:)
  then show thesis using that by metis
qed

lemma secs_op_bounds: "i < cnt \<Longrightarrow> 0 < secs_op i cnt \<and> secs_op i cnt \<le> 256 \<and> i + secs_op i cnt \<le> cnt"
  by (auto simp: secs_op_def)

lemma lba_in_range:
  assumes "unat lba + cnt \<le> 163840" "i < cnt"
  shows "lba + of_nat i \<le> max_lba"
proof -
  have "unat (lba + of_nat i) = unat lba + i"
    using assms unat_of_nat_u32 [of "unat lba + i"] by simp
  then show ?thesis using assms by (simp add: max_lba_def word_le_nat_alt)
qed

text \<open>A controller keeps its drives, and how fast they are.\<close>

definition same_drives :: "ata \<Rightarrow> ata \<Rightarrow> bool" where
  "same_drives h h' \<longleftrightarrow> media h' = media h \<and> delay h' = delay h"

lemma read_chunk:
  fixes s :: "'a ide_scheme"
  assumes c: "c < length (channels s)" and ok: "chan_ok c ch" and d: "d < 2" and h: "delay h < 29999" "media_ok (media h (d = 1))"
    and lba: "lba \<le> max_lba" "0 < n" "n \<le> 256"
  obtains h1 h2 h' where "select_sector c d lba (of_nat n) (chan_state c ch h s) = Inr (chan_state c ch h1 s)"
    "cmd_out c 0x20 (chan_state c ch h1 s) = Inr (chan_state c (ch\<lparr>expecting_intr := True\<rparr>) h2 s)"
    "kbind (wait_disk_done c (chan_state c (ch\<lparr>expecting_intr := True\<rparr>) h2 s)) (busy_wait c)
       = Inr (True, chan_state c (ch\<lparr>expecting_intr := False\<rparr>) (h2\<lparr>busy := 0\<rparr>) s)"
    "read_from_sector c (of_nat n) (chan_state c (ch\<lparr>expecting_intr := False\<rparr>) (h2\<lparr>busy := 0\<rparr>) s)
       = Inr (read_secs (media h (d = 1)) lba n, chan_state c (ch\<lparr>expecting_intr := False\<rparr>) h' s)"
    "same_drives h h'"
proof -
  obtain h1 where h1: "select_sector c d lba (of_nat n) (chan_state c ch h s) = Inr (chan_state c ch h1 s)"
    "ata_lba h1 = lba" "ata_cnt h1 = n" "ata_slave h1 \<longleftrightarrow> d = 1" "r_dev h1 AND 0x40 \<noteq> 0" "media h1 = media h" "delay h1 = delay h"
    by (rule select_sector_state [OF c ok d lba])
  define h2 where "h2 = ata_cmd 0x20 h1"
  have h2: "xfer h2 = To_host (read_secs (media h (d = 1)) lba n)" "busy h2 = delay h" "media h2 = media h" "delay h2 = delay h"
    using h1 by (simp_all add: h2_def ata_cmd_def)
  let ?ch1 = "ch\<lparr>expecting_intr := True\<rparr>" and ?ch2 = "ch\<lparr>expecting_intr := False\<rparr>"
  have ok1: "chan_ok c ?ch1" and ok2: "chan_ok c ?ch2" using ok by simp_all
  have "cmd_out c 0x20 (chan_state c ch h1 s) = Inr (chan_state c ?ch1 h2 s)"
    unfolding h2_def by (rule cmd_out_state [OF c ok])
  moreover have "kbind (wait_disk_done c (chan_state c ?ch1 h2 s)) (busy_wait c) = Inr (True, chan_state c ?ch2 (h2\<lparr>busy := 0\<rparr>) s)"
    using wait_disk_done_state [OF c ok1, of h2] busy_wait_state [OF c ok2, of "h2\<lparr>busy := busy h2 - 1\<rparr>"] h h2 by simp
  moreover have "read_from_sector c (of_nat n) (chan_state c ?ch2 (h2\<lparr>busy := 0\<rparr>) s)
      = Inr (read_secs (media h (d = 1)) lba n, chan_state c ?ch2 (h2\<lparr>busy := 0, xfer := No_data\<rparr>) s)"
    using h2 h lba by (intro read_from_sector_state [OF c ok2]) simp_all
  ultimately show thesis using that h1(1) h2 by (simp add: same_drives_def)
qed

lemma ide_read_loop_state:
  fixes s :: "'a ide_scheme"
  assumes c: "c < length (channels s)" and d: "d < 2" and lba: "unat lba + cnt \<le> 163840"
  shows "i \<le> cnt \<Longrightarrow> chan_ok c ch \<Longrightarrow> delay h < 29999 \<Longrightarrow> media_ok (media h (d = 1)) \<Longrightarrow>
    \<exists>e h'. ide_read_loop c d lba i cnt (chan_state c ch h s)
      = Inr (read_secs (media h (d = 1)) (lba + of_nat i) (cnt - i), chan_state c (ch\<lparr>expecting_intr := e\<rparr>) h' s) \<and> same_drives h h'"
proof (induction "cnt - i" arbitrary: i ch h rule: less_induct)
  case less
  show ?case
  proof (cases "i < cnt")
    case False
    obtain e where "chan_state c ch h s = chan_state c (ch\<lparr>expecting_intr := e\<rparr>) h s" by (rule chan_state_expecting)
    moreover have "ide_read_loop c d lba i cnt (chan_state c ch h s) = Inr ([], chan_state c ch h s)"
      using False by (simp add: ide_read_loop.simps)
    ultimately show ?thesis using False by (simp add: same_drives_def) metis
  next
    case True
    define n where "n = secs_op i cnt"
    have n: "0 < n" "n \<le> 256" "i + n \<le> cnt" using secs_op_bounds [OF True] by (simp_all add: n_def)
    let ?ch1 = "ch\<lparr>expecting_intr := True\<rparr>" and ?ch2 = "ch\<lparr>expecting_intr := False\<rparr>" and ?m = "media h (d = 1)" and ?l = "lba + of_nat i"
    obtain h1 h2 h' where R: "select_sector c d ?l (of_nat n) (chan_state c ch h s) = Inr (chan_state c ch h1 s)"
      "cmd_out c 0x20 (chan_state c ch h1 s) = Inr (chan_state c ?ch1 h2 s)"
      "kbind (wait_disk_done c (chan_state c ?ch1 h2 s)) (busy_wait c) = Inr (True, chan_state c ?ch2 (h2\<lparr>busy := 0\<rparr>) s)"
      "read_from_sector c (of_nat n) (chan_state c ?ch2 (h2\<lparr>busy := 0\<rparr>) s) = Inr (read_secs ?m ?l n, chan_state c ?ch2 h' s)" "same_drives h h'"
      by (rule read_chunk [OF c less.prems(2) d less.prems(3,4) lba_in_range [OF lba True] n(1,2)])
    have "cnt - (i + n) < cnt - i" using n True by simp
    from less.hyps [OF this n(3), of ?ch2 h'] less.prems R(5) obtain e h3 where
      L: "ide_read_loop c d lba (i + n) cnt (chan_state c ?ch2 h' s)
        = Inr (read_secs ?m (lba + of_nat (i + n)) (cnt - (i + n)), chan_state c (ch\<lparr>expecting_intr := e\<rparr>) h3 s)" "same_drives h h3"
      by (auto simp: same_drives_def)
    have B: "kbind (wait_disk_done c S) (\<lambda>s. kbind (busy_wait c s) f) = kbind (kbind (wait_disk_done c S) (busy_wait c)) f"
      for S :: "'a ide_scheme" and f :: "bool \<times> 'a ide_scheme \<Rightarrow> (bytes \<times> 'a ide_scheme) kres"
      by (simp add: kbind_assoc)
    have "read_secs ?m ?l (cnt - i) = read_secs ?m ?l n @ read_secs ?m (lba + of_nat (i + n)) (cnt - (i + n))"
      using read_secs_add [of ?m ?l n "cnt - (i + n)"] n by (simp add: algebra_simps)
    then show ?thesis
      unfolding ide_read_loop.simps [of c d lba i] Let_def n_def [symmetric]
      using True R L by (simp add: B) blast
  qed
qed

lemma write_chunk:
  fixes s :: "'a ide_scheme"
  assumes c: "c < length (channels s)" and ok: "chan_ok c ch" and d: "d < 2" and h: "delay h < 29999"
    and lba: "lba \<le> max_lba" "0 < n" "n \<le> 256" and buf: "512 * n \<le> length buf"
  obtains h1 h2 h3 h' where "select_sector c d lba (of_nat n) (chan_state c ch h s) = Inr (chan_state c ch h1 s)"
    "cmd_out c 0x30 (chan_state c ch h1 s) = Inr (chan_state c (ch\<lparr>expecting_intr := True\<rparr>) h2 s)"
    "busy_wait c (chan_state c (ch\<lparr>expecting_intr := True\<rparr>) h2 s) = Inr (True, chan_state c (ch\<lparr>expecting_intr := True\<rparr>) (h2\<lparr>busy := 0\<rparr>) s)"
    "write2sector c buf (of_nat n) (chan_state c (ch\<lparr>expecting_intr := True\<rparr>) (h2\<lparr>busy := 0\<rparr>) s)
       = Inr (chan_state c (ch\<lparr>expecting_intr := True\<rparr>) h3 s)"
    "wait_disk_done c (chan_state c (ch\<lparr>expecting_intr := True\<rparr>) h3 s) = Inr (chan_state c (ch\<lparr>expecting_intr := False\<rparr>) h' s)"
    "media h' = (media h)((d = 1) := write_secs (media h (d = 1)) lba n (take (512 * n) buf))" "delay h' = delay h"
proof -
  obtain h1 where h1: "select_sector c d lba (of_nat n) (chan_state c ch h s) = Inr (chan_state c ch h1 s)"
    "ata_lba h1 = lba" "ata_cnt h1 = n" "ata_slave h1 \<longleftrightarrow> d = 1" "r_dev h1 AND 0x40 \<noteq> 0" "media h1 = media h" "delay h1 = delay h"
    by (rule select_sector_state [OF c ok d lba])
  define h2 where "h2 = ata_cmd 0x30 h1"
  have h2: "xfer h2 = From_host (d = 1) lba n" "busy h2 = delay h" "media h2 = media h" "delay h2 = delay h"
    using h1 by (simp_all add: h2_def ata_cmd_def)
  let ?ch1 = "ch\<lparr>expecting_intr := True\<rparr>" and ?ch2 = "ch\<lparr>expecting_intr := False\<rparr>"
  have ok1: "chan_ok c ?ch1" using ok by simp
  define h3 where "h3 = h2\<lparr>busy := 0, xfer := No_data, media := (media h)((d = 1) := write_secs (media h (d = 1)) lba n (take (512 * n) buf))\<rparr>"
  have "cmd_out c 0x30 (chan_state c ch h1 s) = Inr (chan_state c ?ch1 h2 s)"
    unfolding h2_def by (rule cmd_out_state [OF c ok])
  moreover have "busy_wait c (chan_state c ?ch1 h2 s) = Inr (True, chan_state c ?ch1 (h2\<lparr>busy := 0\<rparr>) s)"
    using busy_wait_state [OF c ok1, of h2] h h2 by simp
  moreover have "write2sector c buf (of_nat n) (chan_state c ?ch1 (h2\<lparr>busy := 0\<rparr>) s) = Inr (chan_state c ?ch1 h3 s)"
    using write2sector_state [OF c ok1, of "h2\<lparr>busy := 0\<rparr>"] h2 lba buf by (simp add: h3_def)
  moreover have "wait_disk_done c (chan_state c ?ch1 h3 s) = Inr (chan_state c ?ch2 (h3\<lparr>busy := busy h3 - 1\<rparr>) s)"
    using wait_disk_done_state [OF c ok1, of h3] by simp
  ultimately show thesis using that [of h1 h2 h3 "h3\<lparr>busy := busy h3 - 1\<rparr>"] h1(1) h2 by (simp add: h3_def)
qed

lemma ide_write_loop_state:
  fixes s :: "'a ide_scheme"
  assumes c: "c < length (channels s)" and d: "d < 2" and lba: "unat lba + cnt \<le> 163840" and buf: "512 * cnt \<le> length buf"
  shows "i \<le> cnt \<Longrightarrow> chan_ok c ch \<Longrightarrow> delay h < 29999 \<Longrightarrow>
    \<exists>e h'. ide_write_loop c d lba buf i cnt (chan_state c ch h s) = Inr (chan_state c (ch\<lparr>expecting_intr := e\<rparr>) h' s)
      \<and> media h' = (media h)((d = 1) := write_secs (media h (d = 1)) (lba + of_nat i) (cnt - i) (take (512 * (cnt - i)) (drop (512 * i) buf)))
      \<and> delay h' = delay h"
proof (induction "cnt - i" arbitrary: i ch h rule: less_induct)
  case less
  show ?case
  proof (cases "i < cnt")
    case False
    obtain e where "chan_state c ch h s = chan_state c (ch\<lparr>expecting_intr := e\<rparr>) h s" by (rule chan_state_expecting)
    moreover have "ide_write_loop c d lba buf i cnt (chan_state c ch h s) = Inr (chan_state c ch h s)"
      using False by (simp add: ide_write_loop.simps)
    moreover have "write_secs m l 0 bs = m" for m l bs by (simp add: write_secs_def)
    ultimately show ?thesis using False by (simp add: fun_upd_idem) metis
  next
    case True
    define n where "n = secs_op i cnt"
    have n: "0 < n" "n \<le> 256" "i + n \<le> cnt" using secs_op_bounds [OF True] by (simp_all add: n_def)
    let ?ch1 = "ch\<lparr>expecting_intr := True\<rparr>" and ?ch2 = "ch\<lparr>expecting_intr := False\<rparr>" and ?m = "media h (d = 1)" and ?l = "lba + of_nat i"
    let ?bs = "drop (i * 512) buf"
    have bs: "512 * n \<le> length ?bs" using buf n by simp
    obtain h1 h2 h3 h' where R: "select_sector c d ?l (of_nat n) (chan_state c ch h s) = Inr (chan_state c ch h1 s)"
      "cmd_out c 0x30 (chan_state c ch h1 s) = Inr (chan_state c ?ch1 h2 s)"
      "busy_wait c (chan_state c ?ch1 h2 s) = Inr (True, chan_state c ?ch1 (h2\<lparr>busy := 0\<rparr>) s)"
      "write2sector c ?bs (of_nat n) (chan_state c ?ch1 (h2\<lparr>busy := 0\<rparr>) s) = Inr (chan_state c ?ch1 h3 s)"
      "wait_disk_done c (chan_state c ?ch1 h3 s) = Inr (chan_state c ?ch2 h' s)"
      "media h' = (media h)((d = 1) := write_secs ?m ?l n (take (512 * n) ?bs))" "delay h' = delay h"
      by (rule write_chunk [OF c less.prems(2) d less.prems(3) lba_in_range [OF lba True] n(1,2) bs])
    have "cnt - (i + n) < cnt - i" using n True by simp
    from less.hyps [OF this n(3), of ?ch2 h'] less.prems R(7) obtain e h4 where
      L: "ide_write_loop c d lba buf (i + n) cnt (chan_state c ?ch2 h' s) = Inr (chan_state c (ch\<lparr>expecting_intr := e\<rparr>) h4 s)"
        "media h4 = (media h')((d = 1) := write_secs (media h' (d = 1)) (lba + of_nat (i + n)) (cnt - (i + n)) (take (512 * (cnt - (i + n))) (drop (512 * (i + n)) buf)))"
        "delay h4 = delay h"
      by auto
    have "take (512 * n) ?bs @ take (512 * (cnt - (i + n))) (drop (512 * (i + n)) buf) = take (512 * n + 512 * (cnt - (i + n))) ?bs"
      unfolding take_add by (simp add: algebra_simps)
    also have "512 * n + 512 * (cnt - (i + n)) = 512 * (cnt - i)" using n by (simp add: algebra_simps)
    finally have "write_secs (write_secs ?m ?l n (take (512 * n) ?bs)) (?l + of_nat n) (cnt - (i + n)) (take (512 * (cnt - (i + n))) (drop (512 * (i + n)) buf))
        = write_secs ?m ?l (n + (cnt - (i + n))) (take (512 * (cnt - i)) ?bs)"
      using bs lba n by (subst write_secs_add) auto
    then have "media h4 = (media h)((d = 1) := write_secs ?m ?l (cnt - i) (take (512 * (cnt - i)) (drop (512 * i) buf)))"
      using n by (simp add: L(2) R(6) add.assoc [symmetric] mult.commute)
    then show ?thesis
      unfolding ide_write_loop.simps [of c d lba buf i] Let_def n_def [symmetric]
      using True R L by simp blast
  qed
qed

section \<open>The disk as the rest of the kernel sees it\<close>

definition drives :: "'a ide_scheme \<Rightarrow> u16 \<times> bool \<Rightarrow> media" where
  "drives s = (\<lambda>(port, slave). media (hw s port) slave)"

definition ide_ready :: "nat \<Rightarrow> 'a ide_scheme \<Rightarrow> bool" where
  "ide_ready c s \<longleftrightarrow> c < length (channels s) \<and> chan_ok c (channels s ! c) \<and> lock_free (ch_lock (channels s ! c)) \<and> running s \<noteq> 0
     \<and> delay (hw s (port_base (channels s ! c))) < 29999 \<and> (\<forall>slave. media_ok (media (hw s (port_base (channels s ! c))) slave))"

lemma drives_chan_state:
  "drives (chan_state c ch h s) = (\<lambda>(port, slave). if port = port_base ch then media h slave else drives s (port, slave))"
  by (auto simp: drives_def chan_state_def fun_eq_iff)

lemma chan_ok_lock [simp]: "chan_ok c (ch\<lparr>ch_lock := l\<rparr>) \<longleftrightarrow> chan_ok c ch"
  by (simp add: chan_ok_def)

lemma ide_ready_chan_state:
  assumes "ide_ready c s" "chan_ok c ch" "lock_free (ch_lock ch)" "delay h < 29999" "\<And>slave. media_ok (media h slave)"
  shows "ide_ready c (chan_state c ch h s)"
  using assms by (simp add: ide_ready_def chan_state_def)

text \<open>Both operations take the lock of the channel, run a loop on it and give it back.\<close>

lemma ide_ready_enter:
  assumes "ide_ready c s" "d < 2"
  obtains ch h where "kbind (acquire_channel c s) (select_disk c d) = Inr (chan_state c ch h s)" "chan_ok c ch"
    "port_base ch = port_base (channels s ! c)" "lock_held (running s) 1 (ch_lock ch)" "same_drives (hw s (port_base ch)) h"
proof -
  define ch0 where "ch0 = channels s ! c"
  have c: "c < length (channels s)" and ok: "chan_ok c ch0" using assms by (simp_all add: ide_ready_def ch0_def)
  obtain l where l: "lock_acquire (ch_lock ch0) s = Inr (l, s)" "lock_held (running s) 1 l"
    using assms(1) lock_acquire_free by (metis ch0_def ide_ready_def)
  let ?ch = "ch0\<lparr>ch_lock := l\<rparr>" and ?h = "hw s (port_base ch0)"
  have "s = chan_state c ch0 ?h s" using chan_state_self [OF c] by (simp add: ch0_def)
  then have "put_channel c ?ch s = chan_state c ?ch ?h s" by (metis chan_state_put ide_channel.select_convs(2) ide_channel.surjective ide_channel.update_convs(4))
  then have "acquire_channel c s = Inr (chan_state c ?ch ?h s)"
    using c l(1) by (simp add: acquire_channel_def get_channel_def ch0_def)
  moreover obtain v where "select_disk c d (chan_state c ?ch ?h s) = Inr (chan_state c ?ch (?h\<lparr>r_dev := v\<rparr>) s)"
    using select_disk_state [OF c, of ?ch d ?h] ok assms(2) by auto
  ultimately show thesis
    using that [of ?ch "?h\<lparr>r_dev := v\<rparr>"] ok l(2) by (simp add: ch0_def same_drives_def)
qed

lemma ide_ready_leave:
  assumes "ide_ready c s" "chan_ok c ch" "lock_held (running s) 1 (ch_lock ch)" "delay h < 29999" "\<And>slave. media_ok (media h slave)"
  obtains ch' where "release_channel c (chan_state c ch h s) = Inr (chan_state c ch' h s)" "port_base ch' = port_base ch"
    "ide_ready c (chan_state c ch' h s)"
proof -
  have c: "c < length (channels s)" using assms by (simp add: ide_ready_def)
  obtain l where l: "lock_release (ch_lock ch) (chan_state c ch h s) = Inr (l, chan_state c ch h s)" "lock_free l"
    using lock_release_held [of "chan_state c ch h s" "ch_lock ch"] assms(3) by auto
  have "release_channel c (chan_state c ch h s) = Inr (chan_state c (ch\<lparr>ch_lock := l\<rparr>) h s)"
    using c l(1) by (simp add: release_channel_def chan_state_put)
  then show thesis using that ide_ready_chan_state [OF assms(1), of "ch\<lparr>ch_lock := l\<rparr>" h] assms l(2) by simp
qed

lemma ide_read_spec:
  assumes ready: "ide_ready c s" and d: "d < 2" and lba: "unat lba + cnt \<le> 163840" "0 < cnt"
  obtains s' where "ide_read c d lba cnt s = Inr (read_secs (drives s (port_base (channels s ! c), d = 1)) lba cnt, s')"
    "ide_ready c s'" "drives s' = drives s" "port_base (channels s' ! c) = port_base (channels s ! c)"
proof -
  have c: "c < length (channels s)" using ready by (simp add: ide_ready_def)
  have l0: "lba \<le> max_lba" using lba by (simp add: max_lba_def word_le_nat_alt)
  obtain ch h where E: "kbind (acquire_channel c s) (select_disk c d) = Inr (chan_state c ch h s)" "chan_ok c ch"
    "port_base ch = port_base (channels s ! c)" "lock_held (running s) 1 (ch_lock ch)" "same_drives (hw s (port_base ch)) h"
    by (rule ide_ready_enter [OF ready d])
  have h: "delay h < 29999" "\<And>slave. media_ok (media h slave)" "media h = (\<lambda>slave. drives s (port_base ch, slave))"
    using ready E(3,5) by (simp_all add: ide_ready_def same_drives_def drives_def)
  obtain e h' where L: "ide_read_loop c d lba 0 cnt (chan_state c ch h s)
      = Inr (read_secs (media h (d = 1)) lba cnt, chan_state c (ch\<lparr>expecting_intr := e\<rparr>) h' s)" "same_drives h h'"
    using ide_read_loop_state [OF c d lba(1), of 0 ch h] E(2) h(1,2) by auto
  obtain ch' where R: "release_channel c (chan_state c (ch\<lparr>expecting_intr := e\<rparr>) h' s) = Inr (chan_state c ch' h' s)" "port_base ch' = port_base ch"
    "ide_ready c (chan_state c ch' h' s)"
    using ide_ready_leave [OF ready, of "ch\<lparr>expecting_intr := e\<rparr>" h'] E(2,4) L(2) h(1,2) by (auto simp: same_drives_def)
  have "ide_read c d lba cnt s = kbind (kbind (acquire_channel c s) (select_disk c d)) (\<lambda>s.
      kbind (ide_read_loop c d lba 0 cnt s) (\<lambda>(bs, s). kbind (release_channel c s) (\<lambda>s. Inr (bs, s))))"
    using l0 lba(2) by (simp add: ide_read_def kbind_assoc)
  moreover have "drives (chan_state c ch' h' s) = drives s"
    using L(2) R(2) h(3) by (auto simp: drives_chan_state same_drives_def fun_eq_iff)
  moreover have "channels (chan_state c ch' h' s) ! c = ch'" using c by (simp add: chan_state_def)
  ultimately show thesis using that [of "chan_state c ch' h' s"] E(1,3) L(1) R h(3) by simp
qed

lemma ide_write_spec:
  assumes ready: "ide_ready c s" and d: "d < 2" and lba: "unat lba + cnt \<le> 163840" "0 < cnt" and buf: "512 * cnt \<le> length buf"
  obtains s' where "ide_write c d lba buf cnt s = Inr s'" "ide_ready c s'"
    "drives s' = (drives s)((port_base (channels s ! c), d = 1) := write_secs (drives s (port_base (channels s ! c), d = 1)) lba cnt (take (512 * cnt) buf))"
    "port_base (channels s' ! c) = port_base (channels s ! c)"
proof -
  have c: "c < length (channels s)" using ready by (simp add: ide_ready_def)
  have l0: "lba \<le> max_lba" using lba by (simp add: max_lba_def word_le_nat_alt)
  obtain ch h where E: "kbind (acquire_channel c s) (select_disk c d) = Inr (chan_state c ch h s)" "chan_ok c ch"
    "port_base ch = port_base (channels s ! c)" "lock_held (running s) 1 (ch_lock ch)" "same_drives (hw s (port_base ch)) h"
    by (rule ide_ready_enter [OF ready d])
  have h: "delay h < 29999" "\<And>slave. media_ok (media h slave)" "media h = (\<lambda>slave. drives s (port_base ch, slave))"
    using ready E(3,5) by (simp_all add: ide_ready_def same_drives_def drives_def)
  obtain e h' where L: "ide_write_loop c d lba buf 0 cnt (chan_state c ch h s) = Inr (chan_state c (ch\<lparr>expecting_intr := e\<rparr>) h' s)"
    "media h' = (media h)((d = 1) := write_secs (media h (d = 1)) lba cnt (take (512 * cnt) buf))" "delay h' = delay h"
    using ide_write_loop_state [OF c d lba(1) buf, of 0 ch h] E(2) h(1,2) by auto
  have mo: "media_ok (media h' slave)" for slave using h(2) buf by (simp add: L(2) media_ok_write)
  obtain ch' where R: "release_channel c (chan_state c (ch\<lparr>expecting_intr := e\<rparr>) h' s) = Inr (chan_state c ch' h' s)" "port_base ch' = port_base ch"
    "ide_ready c (chan_state c ch' h' s)"
    using ide_ready_leave [OF ready, of "ch\<lparr>expecting_intr := e\<rparr>" h'] E(2,4) L(3) h(1) mo by auto
  have "ide_write c d lba buf cnt s = kbind (kbind (acquire_channel c s) (select_disk c d)) (\<lambda>s.
      kbind (ide_write_loop c d lba buf 0 cnt s) (release_channel c))"
    using l0 lba(2) by (simp add: ide_write_def kbind_assoc)
  moreover have "drives (chan_state c ch' h' s) = (drives s)((port_base ch, d = 1) := write_secs (drives s (port_base ch, d = 1)) lba cnt (take (512 * cnt) buf))"
    using L(2) R(2) h(3) by (auto simp: drives_chan_state fun_eq_iff)
  moreover have "channels (chan_state c ch' h' s) ! c = ch'" using c by (simp add: chan_state_def)
  ultimately show thesis using that [of "chan_state c ch' h' s"] E(1,3) L(1) R by simp
qed

section \<open>Properties\<close>

definition small_channel :: ide_channel where
  "small_channel = \<lparr>ch_name = [105, 100, 101, 48], port_base = 0x1F0, irq_no = 0x2E, ch_lock = lock_init, expecting_intr = False,
     disk_done = sema_init 0, devices = map (\<lambda>d. \<lparr>disk_name = [115, 100, 97 + of_nat d], dev_no = of_nat d, prim_parts = [], logic_parts = []\<rparr>) [0..<2]\<rparr>"

definition small_ide :: ide where
  "small_ide = \<lparr>cr3 = 0x100000, pmem = (\<lambda>_. 0), tss_esp0 = 0, flags = 2, timer_ticks = 0, running = 0x1000, tasks = (\<lambda>_. None),
     thread_ready_list = [], thread_all_list = [0x1000], main_thread = 0x1000, idle_thread = 0x2000,
     channels = [small_channel], channel_cnt = 1, ext_lba_base = 0, p_no = 0, l_no = 0, partition_list = [],
     hw = (\<lambda>_. \<lparr>r_cnt = 0, r_lba_l = 0, r_lba_m = 0, r_lba_h = 0, r_dev = 0, xfer = No_data, busy = 0, delay = 3,
       media = (\<lambda>_ l. replicate 512 (ucast l)), ident = (\<lambda>_. replicate 512 0)\<rparr>)\<rparr>"

lemma small_ide_ready: "ide_ready 0 small_ide"
  by (simp add: ide_ready_def small_ide_def small_channel_def chan_ok_def lock_init_free media_ok_def sema_init_def)

lemma small_ide_drives: "drives small_ide = (\<lambda>_ l. replicate 512 (ucast l))" "port_base (channels small_ide ! 0) = 0x1F0"
  by (auto simp: drives_def small_ide_def small_channel_def)



end
