(* ===== verification/Fs_State.thy ===== *)
theory Fs_State
  imports Ide Ioqueue Slot_Pool
begin

text \<open>
  The state of the file system and its lowest layer: the structures of \<^verbatim>\<open>fs/inode.h\<close>,
  \<^verbatim>\<open>fs/super_block.h\<close>, \<^verbatim>\<open>fs/dir.h\<close> and \<^verbatim>\<open>fs/file.h\<close>, access to the disk, and the two
  bitmaps of \<^verbatim>\<open>fs/file.c\<close>.

  One partition is mounted, \<^verbatim>\<open>cur_part\<close>, and every function of the source is called with
  it: its fields are components of the state, and the parameter \<^verbatim>\<open>part\<close> is left out.
  The disk is the array of sectors that the driver presents.  Structures in kernel memory
  that are shared through pointers (i-nodes, directories, the rings of pipes) are kept in
  maps from addresses; a buffer that only its function sees is a list of bytes.

  \<^verbatim>\<open>sys_malloc\<close> is represented by what it returns: \<open>heap\<close> lists the addresses of the
  coming calls, 0 for a failed one.  The memory it returns is cleared.  The error messages
  that the functions print are left out.
\<close>

section \<open>Structures\<close>

definition BLOCK_SIZE :: u32 where "BLOCK_SIZE = 512"
definition MAX_FILES_PER_PART :: u32 where "MAX_FILES_PER_PART = 4096"
definition BITS_PER_SECTOR :: u32 where "BITS_PER_SECTOR = 4096"
definition MAX_FILE_OPEN :: nat where "MAX_FILE_OPEN = 32"
definition MAX_FILES_OPEN_PER_PROC :: nat where "MAX_FILES_OPEN_PER_PROC = 8"
definition MAX_PATH_LEN :: nat where "MAX_PATH_LEN = 512"
definition MAX_FILE_NAME_LEN :: nat where "MAX_FILE_NAME_LEN = 16"
definition SUPER_MAGIC :: u32 where "SUPER_MAGIC = 0x19750130"

definition FT_UNKNOWN :: u32 where "FT_UNKNOWN = 0"
definition FT_REGULAR :: u32 where "FT_REGULAR = 1"
definition FT_DIRECTORY :: u32 where "FT_DIRECTORY = 2"

record super_block =
  magic :: u32
  sb_sec_cnt :: u32
  inode_cnt :: u32
  part_lba_base :: u32
  block_bitmap_lba :: u32
  block_bitmap_sects :: u32
  inode_bitmap_lba :: u32
  inode_bitmap_sects :: u32
  inode_table_lba :: u32
  inode_table_sects :: u32
  data_start_lba :: u32
  root_inode_no :: u32
  dir_entry_size :: u32

text \<open>The list node \<^verbatim>\<open>inode_tag\<close> is the position of the i-node in \<open>open_inodes\<close>.\<close>

record inode =
  i_no :: u32
  i_size :: u32
  i_open_cnts :: u32
  write_deny :: bool
  i_sectors :: "u32 list"

record dir =
  d_inode :: u32
  dir_pos :: u32
  dir_buf :: bytes

record dir_entry =
  filename :: bytes
  de_i_no :: u32
  f_type :: u32

record open_file =
  fd_pos :: u32
  fd_flag :: u32
  fd_inode :: u32

datatype bitmap_type = INODE_BITMAP | BLOCK_BITMAP

text \<open>A pointer to a directory: the global \<^verbatim>\<open>root_dir\<close>, or memory from the heap.\<close>

datatype dir_ptr = Root_dir | Dir_at u32

record fsys = sched +
  sectors :: media
  part_start :: u32
  part_sec_cnt :: u32
  sb :: super_block
  block_bitmap :: bitmap
  inode_bitmap :: bitmap
  open_inodes :: "u32 list"
  inodes :: "u32 \<rightharpoonup> inode"
  dirs :: "u32 \<rightharpoonup> dir"
  root_dir :: dir
  file_table :: "open_file list"
  pipes :: "u32 \<rightharpoonup> ioqueue"
  kbdq :: ioqueue
  heap :: "u32 list"

section \<open>Memory and disk\<close>

definition kmalloc :: "'a fsys_scheme \<Rightarrow> u32 \<times> 'a fsys_scheme" where
  "kmalloc s = (case heap s of [] \<Rightarrow> (0, s) | a # as \<Rightarrow> (a, s\<lparr>heap := as\<rparr>))"

definition get_inode :: "u32 \<Rightarrow> 'a fsys_scheme \<Rightarrow> inode kres" where
  "get_inode p s = (case inodes s p of None \<Rightarrow> Inl Fault | Some i \<Rightarrow> Inr i)"

definition put_inode :: "u32 \<Rightarrow> inode \<Rightarrow> 'a fsys_scheme \<Rightarrow> 'a fsys_scheme" where
  "put_inode p i s = s\<lparr>inodes := (inodes s)(p \<mapsto> i)\<rparr>"

definition get_dir :: "dir_ptr \<Rightarrow> 'a fsys_scheme \<Rightarrow> dir kres" where
  "get_dir p s = (case p of Root_dir \<Rightarrow> Inr (root_dir s) | Dir_at a \<Rightarrow> (case dirs s a of None \<Rightarrow> Inl Fault | Some d \<Rightarrow> Inr d))"

definition put_dir :: "dir_ptr \<Rightarrow> dir \<Rightarrow> 'a fsys_scheme \<Rightarrow> 'a fsys_scheme" where
  "put_dir p d s = (case p of Root_dir \<Rightarrow> s\<lparr>root_dir := d\<rparr> | Dir_at a \<Rightarrow> s\<lparr>dirs := (dirs s)(a \<mapsto> d)\<rparr>)"

text \<open>
  The disk operations of the driver, on the sectors it presents: the assertions on the
  address hold for the first sector of every group of 256.
\<close>

definition disk_range :: "u32 \<Rightarrow> nat \<Rightarrow> bool" where
  "disk_range lba cnt \<longleftrightarrow> unat lba + 256 * ((cnt - 1) div 256) \<le> unat max_lba"

definition disk_read :: "u32 \<Rightarrow> nat \<Rightarrow> 'a fsys_scheme \<Rightarrow> bytes kres" where
  "disk_read lba cnt s =
     kbind (kassert ''ide_read'' (lba \<le> max_lba)) (\<lambda>_.
     kbind (kassert ''ide_read'' (cnt > 0)) (\<lambda>_.
     kbind (kassert ''select_sector'' (disk_range lba cnt)) (\<lambda>_.
     Inr (read_secs (sectors s) lba cnt))))"

definition disk_write :: "u32 \<Rightarrow> bytes \<Rightarrow> nat \<Rightarrow> 'a fsys_scheme \<Rightarrow> 'a fsys_scheme kres" where
  "disk_write lba src cnt s =
     kbind (kassert ''ide_write'' (lba \<le> max_lba)) (\<lambda>_.
     kbind (kassert ''ide_write'' (cnt > 0)) (\<lambda>_.
     kbind (kassert ''select_sector'' (disk_range lba cnt)) (\<lambda>_.
     if 512 * cnt \<le> length src then Inr (s\<lparr>sectors := write_secs (sectors s) lba cnt (take (512 * cnt) src)\<rparr>) else Inl Fault)))"

section \<open>The bitmaps\<close>

definition inode_bitmap_alloc :: "'a fsys_scheme \<Rightarrow> (u32 \<times> 'a fsys_scheme) kres" where
  "inode_bitmap_alloc s =
     kbind (bitmap_scan (inode_bitmap s) 1) (\<lambda>bit_idx.
     if bit_idx = - 1 then Inr (- 1, s)
     else kbind (bitmap_set (inode_bitmap s) (nat bit_idx) 1) (\<lambda>b. Inr (of_int bit_idx, s\<lparr>inode_bitmap := b\<rparr>)))"

definition block_bitmap_alloc :: "'a fsys_scheme \<Rightarrow> (u32 \<times> 'a fsys_scheme) kres" where
  "block_bitmap_alloc s =
     kbind (bitmap_scan (block_bitmap s) 1) (\<lambda>bit_idx.
     if bit_idx = - 1 then Inr (- 1, s)
     else kbind (bitmap_set (block_bitmap s) (nat bit_idx) 1) (\<lambda>b.
          Inr (data_start_lba (sb s) + of_int bit_idx, s\<lparr>block_bitmap := b\<rparr>)))"

definition bitmap_sync :: "u32 \<Rightarrow> bitmap_type \<Rightarrow> 'a fsys_scheme \<Rightarrow> 'a fsys_scheme kres" where
  "bitmap_sync bit_idx btmp_type s =
     (let off_sec = bit_idx div 4096; off_size = off_sec * BLOCK_SIZE
      in case btmp_type of
           INODE_BITMAP \<Rightarrow> disk_write (inode_bitmap_lba (sb s) + off_sec) (drop (unat off_size) (bits (inode_bitmap s))) 1 s
         | BLOCK_BITMAP \<Rightarrow> disk_write (block_bitmap_lba (sb s) + off_sec) (drop (unat off_size) (bits (block_bitmap s))) 1 s)"

end
