(* ===== verification/Inode.thy ===== *)
theory Inode
  imports Fs_State
begin

text \<open>
  \<^verbatim>\<open>fs/inode.c\<close>: the table of i-nodes on the disk, and the i-nodes that are open in memory.
\<close>

section \<open>An i-node as bytes\<close>

text \<open>
  The memory layout of \<^verbatim>\<open>struct inode\<close>, as it is written to the disk with its list node
  cleared; the three bytes of padding after \<^verbatim>\<open>write_deny\<close>, whose values are never used,
  are taken to be 0.
\<close>

definition inode_bytes :: "inode \<Rightarrow> bytes" where
  "inode_bytes i =
     le32 (i_no i) @ le32 (i_size i) @ le32 (i_open_cnts i) @ [if write_deny i then 1 else 0, 0, 0, 0] @ bytes_of (i_sectors i) @ replicate 8 0"

definition inode_of_bytes :: "bytes \<Rightarrow> nat \<Rightarrow> inode" where
  "inode_of_bytes bs p =
     \<lparr>i_no = get32 bs p, i_size = get32 bs (p + 4), i_open_cnts = get32 bs (p + 8), write_deny = bs ! (p + 12) \<noteq> 0,
      i_sectors = map (\<lambda>k. get32 bs (p + 16 + 4 * k)) [0..<13]\<rparr>"

section \<open>Operations\<close>

record inode_position =
  two_sec :: bool
  sec_lba :: u32
  off_size :: u32

definition inode_locate :: "u32 \<Rightarrow> 'a fsys_scheme \<Rightarrow> inode_position kres" where
  "inode_locate inode_no s =
     kbind (kassert ''inode_locate'' (inode_no < 4096)) (\<lambda>_.
       let inode_size = 76;
           off_sz = inode_no * inode_size;
           off_sec = off_sz div 512;
           off_size_in_sec = off_sz mod 512;
           left_in_sec = 512 - off_size_in_sec
       in Inr \<lparr>two_sec = left_in_sec < inode_size, sec_lba = inode_table_lba (sb s) + off_sec, off_size = off_size_in_sec\<rparr>)"

definition inode_sync :: "inode \<Rightarrow> 'a fsys_scheme \<Rightarrow> 'a fsys_scheme kres" where
  "inode_sync i s =
     kbind (inode_locate (i_no i) s) (\<lambda>inode_pos.
     kbind (kassert ''inode_sync'' (sec_lba inode_pos \<le> part_start s + part_sec_cnt s)) (\<lambda>_.
       let pure_inode = i\<lparr>i_open_cnts := 0, write_deny := False\<rparr>;
           n = (if two_sec inode_pos then 2 else 1)
       in kbind (disk_read (sec_lba inode_pos) n s) (\<lambda>inode_buf.
          disk_write (sec_lba inode_pos) (overwrite (unat (off_size inode_pos)) (inode_bytes pure_inode) inode_buf) n s)))"

fun find_open :: "u32 \<Rightarrow> u32 list \<Rightarrow> 'a fsys_scheme \<Rightarrow> u32 option kres" where
  "find_open inode_no [] s = Inr None"
| "find_open inode_no (p # ps) s =
     kbind (get_inode p s) (\<lambda>i. if i_no i = inode_no then Inr (Some p) else find_open inode_no ps s)"

definition inode_open :: "u32 \<Rightarrow> 'a fsys_scheme \<Rightarrow> (u32 \<times> 'a fsys_scheme) kres" where
  "inode_open inode_no s =
     kbind (find_open inode_no (open_inodes s) s) (\<lambda>found.
     case found of
       Some p \<Rightarrow> kbind (get_inode p s) (\<lambda>i. Inr (p, put_inode p (i\<lparr>i_open_cnts := i_open_cnts i + 1\<rparr>) s))
     | None \<Rightarrow>
         kbind (inode_locate inode_no s) (\<lambda>inode_pos.
         let (p, s) = kmalloc s;
             (buf, s) = kmalloc s
         in if buf = 0 then Inl Fault
            else kbind (disk_read (sec_lba inode_pos) (if two_sec inode_pos then 2 else 1) s) (\<lambda>inode_buf.
              kbind (kassert ''memcpy'' (p \<noteq> 0)) (\<lambda>_.
              let i = inode_of_bytes inode_buf (unat (off_size inode_pos))
              in Inr (p, put_inode p (i\<lparr>i_open_cnts := 1\<rparr>) (s\<lparr>open_inodes := p # open_inodes s\<rparr>))))))"

definition inode_close :: "u32 \<Rightarrow> 'a fsys_scheme \<Rightarrow> 'a fsys_scheme kres" where
  "inode_close p s =
     kbind (get_inode p s) (\<lambda>i.
       let i = i\<lparr>i_open_cnts := i_open_cnts i - 1\<rparr>
       in if i_open_cnts i = 0
          then Inr (s\<lparr>open_inodes := remove1 p (open_inodes s), inodes := (inodes s)(p := None)\<rparr>)
          else Inr (put_inode p i s))"

definition inode_delete :: "u32 \<Rightarrow> 'a fsys_scheme \<Rightarrow> 'a fsys_scheme kres" where
  "inode_delete inode_no s =
     kbind (kassert ''inode_delete'' (inode_no < 4096)) (\<lambda>_.
     kbind (inode_locate inode_no s) (\<lambda>inode_pos.
     kbind (kassert ''inode_delete'' (sec_lba inode_pos \<le> part_start s + part_sec_cnt s)) (\<lambda>_.
       let n = (if two_sec inode_pos then 2 else 1)
       in kbind (disk_read (sec_lba inode_pos) n s) (\<lambda>inode_buf.
          disk_write (sec_lba inode_pos) (overwrite (unat (off_size inode_pos)) (replicate 76 0) inode_buf) n s))))"

text \<open>Giving a block back to the bitmap, in memory and on the disk.\<close>

definition release_block :: "u32 \<Rightarrow> 'a fsys_scheme \<Rightarrow> 'a fsys_scheme kres" where
  "release_block lba s =
     (let block_bitmap_idx = lba - data_start_lba (sb s)
      in kbind (kassert ''inode_release'' (block_bitmap_idx > 0)) (\<lambda>_.
         kbind (bitmap_set (block_bitmap s) (unat block_bitmap_idx) 0) (\<lambda>b.
         bitmap_sync block_bitmap_idx BLOCK_BITMAP (s\<lparr>block_bitmap := b\<rparr>))))"

fun release_blocks :: "u32 list \<Rightarrow> 'a fsys_scheme \<Rightarrow> 'a fsys_scheme kres" where
  "release_blocks [] s = Inr s"
| "release_blocks (b # bs) s = kbind (if b \<noteq> 0 then release_block b s else Inr s) (\<lambda>s. release_blocks bs s)"

definition inode_release :: "u32 \<Rightarrow> 'a fsys_scheme \<Rightarrow> 'a fsys_scheme kres" where
  "inode_release inode_no s =
     kbind (inode_open inode_no s) (\<lambda>(p, s).
     kbind (get_inode p s) (\<lambda>i.
     kbind (kassert ''inode_release'' (i_no i = inode_no)) (\<lambda>_.
     kbind (aget (i_sectors i) 12) (\<lambda>table.
     kbind (if table \<noteq> 0
            then kbind (disk_read table 1 s) (\<lambda>bs. kbind (release_block table s) (\<lambda>s. Inr (take 12 (i_sectors i) @ words_of bs, s)))
            else Inr (take 12 (i_sectors i), s)) (\<lambda>(all_blocks, s).
     kbind (release_blocks all_blocks s) (\<lambda>s.
     kbind (bitmap_set (inode_bitmap s) (unat inode_no) 0) (\<lambda>b.
     kbind (bitmap_sync inode_no INODE_BITMAP (s\<lparr>inode_bitmap := b\<rparr>)) (\<lambda>s.
       let (io_buf, s) = kmalloc s
       in if io_buf = 0 then Inl Fault
          else kbind (inode_delete inode_no s) (\<lambda>s. inode_close p s)))))))))"

definition inode_init :: "u32 \<Rightarrow> inode" where
  "inode_init inode_no = \<lparr>i_no = inode_no, i_size = 0, i_open_cnts = 0, write_deny = False, i_sectors = replicate 13 0\<rparr>"

section \<open>The encoding\<close>

lemma length_inode_bytes [simp]: "length (i_sectors i) = 13 \<Longrightarrow> length (inode_bytes i) = 76"
  by (simp add: inode_bytes_def)

lemma inode_of_bytes_cong:
  assumes "take 76 (drop p bs) = take 76 (drop q cs)" "p + 76 \<le> length bs" "q + 76 \<le> length cs"
  shows "inode_of_bytes bs p = inode_of_bytes cs q"
proof -
  have nth: "bs ! (p + k) = cs ! (q + k)" if "k < 76" for k
    using arg_cong [OF assms(1), of "\<lambda>xs. xs ! k"] that assms(2,3) by simp
  have g: "get32 bs (p + k) = get32 cs (q + k)" if "k + 4 \<le> 76" for k
    using that nth [of k] nth [of "k + 1"] nth [of "k + 2"] nth [of "k + 3"] by (simp add: get32_def add.assoc)
  have "map (\<lambda>k. get32 bs (p + 16 + 4 * k)) [0..<13] = map (\<lambda>k. get32 cs (q + 16 + 4 * k)) [0..<13]"
    by (rule map_cong [OF refl]) (use g [of "16 + 4 * _"] in \<open>simp add: add.assoc\<close>)
  then show ?thesis using g [of 0] g [of 4] g [of 8] nth [of 12] by (simp add: inode_of_bytes_def)
qed

lemma inode_of_inode_bytes:
  assumes "length (i_sectors i) = 13"
  shows "inode_of_bytes (inode_bytes i) 0 = i"
proof -
  let ?t = "bytes_of (i_sectors i) @ replicate 8 0 :: bytes"
  let ?h = "le32 (i_no i) @ le32 (i_size i) @ le32 (i_open_cnts i) @ [if write_deny i then 1 else 0, 0, 0, 0]"
  have h: "inode_bytes i = ?h @ ?t" "length ?h = 16" by (simp_all add: inode_bytes_def)
  have "map (\<lambda>k. get32 (inode_bytes i) (16 + 4 * k)) [0..<13] = i_sectors i"
  proof (rule list_eq_nthI)
    fix k assume "k < length (map (\<lambda>k. get32 (inode_bytes i) (16 + 4 * k)) [0..<13])"
    then have k: "k < 13" by simp
    then have "get32 (inode_bytes i) (16 + 4 * k) = get32 ?t (4 * k)"
      unfolding h(1) using assms h(2) get32_append2 [of ?h "16 + 4 * k" ?t] by simp
    also have "\<dots> = i_sectors i ! k" using k assms by (simp add: get32_append1 get32_bytes_of)
    finally show "map (\<lambda>k. get32 (inode_bytes i) (16 + 4 * k)) [0..<13] ! k = i_sectors i ! k" using k by simp
  qed (simp add: assms)
  then show ?thesis
    by (simp add: inode_of_bytes_def)
      (simp add: inode_bytes_def get32_append1 get32_append2 get32_le32 nth_append)
qed

section \<open>The table of i-nodes\<close>

definition itable :: "'a fsys_scheme \<Rightarrow> bytes" where
  "itable s = read_secs (sectors s) (inode_table_lba (sb s)) 608"

definition disk_inode :: "'a fsys_scheme \<Rightarrow> u32 \<Rightarrow> inode" where
  "disk_inode s n = inode_of_bytes (itable s) (76 * unat n)"

definition table_ok :: "'a fsys_scheme \<Rightarrow> bool" where
  "table_ok s \<longleftrightarrow> media_ok (sectors s) \<and> unat (inode_table_lba (sb s)) + 608 \<le> 163840
     \<and> unat (inode_table_lba (sb s)) + 608 \<le> unat (part_start s + part_sec_cnt s)"

text \<open>Sectors of the table.\<close>

definition in_table :: "'a fsys_scheme \<Rightarrow> u32 \<Rightarrow> bool" where
  "in_table s l \<longleftrightarrow> unat (l - inode_table_lba (sb s)) < 608"

lemma length_itable [simp]: "table_ok s \<Longrightarrow> length (itable s) = 311296"
  by (simp add: itable_def table_ok_def)

lemma inode_locate_spec:
  assumes "n < 4096"
  obtains pos i off k where "inode_locate n s = Inr pos" "sec_lba pos = inode_table_lba (sb s) + of_nat i" "unat (off_size pos) = off"
    "(if two_sec pos then 2 else 1) = k" "512 * i + off = 76 * unat n" "off + 76 \<le> 512 * k" "i + k \<le> 608" "k = 1 \<or> k = 2"
proof -
  let ?o = "76 * unat n"
  have n: "unat n < 4096" using assms by (simp add: word_less_nat_alt)
  then have o: "unat (n * 76) = ?o" using unat_of_nat_u32 [of ?o] by (simp add: mult.commute)
  let ?i = "?o div 512" and ?off = "?o mod 512"
  have off: "unat (of_nat ?off :: u32) = ?off" by (rule unat_of_nat_u32) simp
  have "unat (n * 76 div 512) = unat (of_nat ?i :: u32)" "unat (n * 76 mod 512) = unat (of_nat ?off :: u32)"
    using n o off by (simp_all add: unat_div unat_mod unat_of_nat_u32)
  then have d: "n * 76 div 512 = of_nat ?i" "n * 76 mod 512 = of_nat ?off" by (simp_all only: word_unat_eq_iff)
  have "unat (512 - of_nat ?off :: u32) = 512 - ?off" using off by (subst unat_sub) (simp_all add: word_le_nat_alt)
  then have two: "(512 - of_nat ?off :: u32) < 76 \<longleftrightarrow> 512 - ?off < 76" by (simp add: word_less_nat_alt)
  let ?pos = "\<lparr>two_sec = 512 - ?off < 76, sec_lba = inode_table_lba (sb s) + of_nat ?i, off_size = of_nat ?off\<rparr>"
  have L: "inode_locate n s = Inr ?pos" using assms by (simp add: inode_locate_def Let_def d two)
  have k: "?off + 76 \<le> 512 * (if 512 - ?off < 76 then 2 else 1)"
    using mod_less_divisor [of 512 ?o] by (simp split: if_split) linarith
  have i: "?i + (if 512 - ?off < 76 then 2 else 1) \<le> 608"
  proof (cases "512 - ?off < 76")
    case True
    have "512 * ?i + ?off = ?o" by (rule mult_div_mod_eq)
    then show ?thesis using True n by simp
  next
    case False
    then show ?thesis using n by simp
  qed
  show thesis by (rule that [OF L _ _ _ mult_div_mod_eq k i]) (use off in simp_all)
qed

text \<open>Replacing part of a sector group that was read replaces that part of the whole.\<close>

lemma overwrite_piece:
  assumes "b + length xs \<le> k" "a + k \<le> length m"
  shows "overwrite a (overwrite b xs (take k (drop a m))) m = overwrite (a + b) xs m"
  using assms by (intro list_eq_nthI) (auto simp: nth_overwrite)

lemma table_range:
  assumes "table_ok s" "i + k \<le> 608" "k = 1 \<or> k = 2"
  shows "inode_table_lba (sb s) + of_nat i \<le> max_lba" "disk_range (inode_table_lba (sb s) + of_nat i) k"
    "inode_table_lba (sb s) + of_nat i \<le> part_start s + part_sec_cnt s"
proof -
  have u: "unat (inode_table_lba (sb s) + of_nat i) = unat (inode_table_lba (sb s)) + i"
    using assms unat_of_nat_u32 [of "unat (inode_table_lba (sb s)) + i"] by (auto simp: table_ok_def)
  then show "inode_table_lba (sb s) + of_nat i \<le> max_lba" "disk_range (inode_table_lba (sb s) + of_nat i) k"
      "inode_table_lba (sb s) + of_nat i \<le> part_start s + part_sec_cnt s"
    using assms by (auto simp: max_lba_def word_le_nat_alt table_ok_def disk_range_def)
qed

lemma table_read:
  assumes s: "table_ok s" and n: "n < 4096"
  obtains pos k where "inode_locate n s = Inr pos" "(if two_sec pos then 2 else 1) = k"
    "disk_read (sec_lba pos) k s = Inr (take (512 * k) (drop (76 * unat n - unat (off_size pos)) (itable s)))"
    "unat (off_size pos) \<le> 76 * unat n" "unat (off_size pos) + 76 \<le> 512 * k"
proof -
  obtain pos i off k where L: "inode_locate n s = Inr pos" "sec_lba pos = inode_table_lba (sb s) + of_nat i" "unat (off_size pos) = off"
    "(if two_sec pos then 2 else 1) = k" "512 * i + off = 76 * unat n" "off + 76 \<le> 512 * k" "i + k \<le> 608" "k = 1 \<or> k = 2"
    by (rule inode_locate_spec [OF n, of s])
  have e: "76 * unat n - unat (off_size pos) = 512 * i" using L(3,5) by simp
  have mo: "media_ok (sectors s)" using s by (simp add: table_ok_def)
  have "disk_read (sec_lba pos) k s = Inr (take (512 * k) (drop (512 * i) (itable s)))"
    using table_range [OF s L(7,8)] L(2,8) read_secs_piece [OF mo L(7)] by (auto simp: disk_read_def itable_def)
  then show thesis using that [OF L(1,4)] L(3,5,6) e by simp
qed

text \<open>Both functions that change an entry of the table read one or two sectors, change 76
  bytes and write them back.\<close>

lemma table_update:
  assumes s: "table_ok s" and n: "n < 4096" and xs: "length xs = 76"
  obtains pos k m where "inode_locate n s = Inr pos" "(if two_sec pos then 2 else 1) = k" "sec_lba pos \<le> part_start s + part_sec_cnt s"
    "kbind (disk_read (sec_lba pos) k s) (\<lambda>bs. disk_write (sec_lba pos) (overwrite (unat (off_size pos)) xs bs) k s) = Inr (s\<lparr>sectors := m\<rparr>)"
    "itable (s\<lparr>sectors := m\<rparr>) = overwrite (76 * unat n) xs (itable s)" "table_ok (s\<lparr>sectors := m\<rparr>)" "\<forall>l. \<not> in_table s l \<longrightarrow> m l = sectors s l"
proof -
  obtain pos i off k where L: "inode_locate n s = Inr pos" "sec_lba pos = inode_table_lba (sb s) + of_nat i" "unat (off_size pos) = off"
    "(if two_sec pos then 2 else 1) = k" "512 * i + off = 76 * unat n" "off + 76 \<le> 512 * k" "i + k \<le> 608" "k = 1 \<or> k = 2"
    by (rule inode_locate_spec [OF n, of s])
  note R = table_range [OF s L(7,8)]
  have mo: "media_ok (sectors s)" using s by (simp add: table_ok_def)
  have rd: "disk_read (sec_lba pos) k s = Inr (take (512 * k) (drop (512 * i) (itable s)))"
    using R L(2,8) read_secs_piece [OF mo L(7)] by (auto simp: disk_read_def itable_def)
  let ?bs = "overwrite off xs (take (512 * k) (drop (512 * i) (itable s)))"
  let ?m = "write_secs (sectors s) (inode_table_lba (sb s) + of_nat i) k ?bs"
  have len: "length ?bs = 512 * k" using s xs L(6,7) by simp
  have wr: "disk_write (sec_lba pos) ?bs k s = Inr (s\<lparr>sectors := ?m\<rparr>)"
    using R L(2,8) len by (auto simp: disk_write_def)
  have it: "itable (s\<lparr>sectors := ?m\<rparr>) = overwrite (76 * unat n) xs (itable s)"
  proof -
    have "overwrite (512 * i) ?bs (itable s) = overwrite (76 * unat n) xs (itable s)"
      using overwrite_piece [of off xs "512 * k" "512 * i" "itable s"] s xs L(5,6,7) by simp
    then show ?thesis using read_secs_write_piece [OF mo L(7) _ len, of "inode_table_lba (sb s)"] by (simp add: itable_def)
  qed
  have ok: "table_ok (s\<lparr>sectors := ?m\<rparr>)" using s media_ok_write [OF mo, of k ?bs] len by (simp add: table_ok_def)
  have out: "?m l = sectors s l" if "\<not> in_table s l" for l
  proof (rule write_secs_other, rule notI)
    assume a: "unat (l - (inode_table_lba (sb s) + of_nat i)) < k"
    define j where "j = unat (l - (inode_table_lba (sb s) + of_nat i))"
    have "l - inode_table_lba (sb s) = of_nat (i + j)" by (simp add: j_def)
    then have "unat (l - inode_table_lba (sb s)) = i + j" using a L(7) unat_of_nat_u32 [of "i + j"] by (simp add: j_def)
    then show False using that a L(7) by (simp add: in_table_def j_def)
  qed
  show thesis by (rule that [OF L(1,4) _ _ it ok]) (use rd wr R(3) L(2,3) out in simp_all)
qed

text \<open>Entries of the table.\<close>

lemma table_entry_same:
  fixes n :: u32
  assumes "table_ok s" "n < 4096" "length (i_sectors i) = 13"
  shows "inode_of_bytes (overwrite (76 * unat n) (inode_bytes i) (itable s)) (76 * unat n) = i"
proof -
  have n: "76 * unat n + 76 \<le> 311296" using assms(2) by (simp add: word_less_nat_alt)
  have "take 76 (drop (76 * unat n) (overwrite (76 * unat n) (inode_bytes i) (itable s))) = inode_bytes i"
    using take_drop_overwrite_same [of "76 * unat n" "inode_bytes i" "itable s"] assms n by simp
  then have "inode_of_bytes (overwrite (76 * unat n) (inode_bytes i) (itable s)) (76 * unat n) = inode_of_bytes (inode_bytes i) 0"
    using assms n by (intro inode_of_bytes_cong) simp_all
  then show ?thesis by (simp add: inode_of_inode_bytes [OF assms(3)])
qed

lemma table_entry_other:
  fixes n n' :: u32
  assumes "table_ok s" "n < 4096" "n' < 4096" "n \<noteq> n'" "length xs = 76"
  shows "inode_of_bytes (overwrite (76 * unat n) xs (itable s)) (76 * unat n') = inode_of_bytes (itable s) (76 * unat n')"
proof -
  have n: "76 * unat n + 76 \<le> 311296" "76 * unat n' + 76 \<le> 311296" using assms(2,3) by (simp_all add: word_less_nat_alt)
  have "unat n \<noteq> unat n'" using assms(4) by (simp add: word_unat_eq_iff)
  then have "76 * unat n' + 76 \<le> 76 * unat n \<or> 76 * unat n + length xs \<le> 76 * unat n'" using assms(5) by linarith
  then show ?thesis
    using assms n by (intro inode_of_bytes_cong take_drop_overwrite_other) simp_all
qed

lemma inode_sync_spec:
  assumes s: "table_ok s" and n: "i_no i < 4096" and len: "length (i_sectors i) = 13"
  obtains m where "inode_sync i s = Inr (s\<lparr>sectors := m\<rparr>)" "table_ok (s\<lparr>sectors := m\<rparr>)"
    "disk_inode (s\<lparr>sectors := m\<rparr>) (i_no i) = i\<lparr>i_open_cnts := 0, write_deny := False\<rparr>"
    "\<forall>n'<4096. n' \<noteq> i_no i \<longrightarrow> disk_inode (s\<lparr>sectors := m\<rparr>) n' = disk_inode s n'"
    "\<forall>l. \<not> in_table s l \<longrightarrow> m l = sectors s l"
proof -
  let ?i = "i\<lparr>i_open_cnts := 0, write_deny := False\<rparr>"
  have l: "length (inode_bytes ?i) = 76" "length (i_sectors ?i) = 13" using len by simp_all
  obtain pos k m where U: "inode_locate (i_no i) s = Inr pos" "(if two_sec pos then 2 else 1) = k" "sec_lba pos \<le> part_start s + part_sec_cnt s"
    "kbind (disk_read (sec_lba pos) k s) (\<lambda>bs. disk_write (sec_lba pos) (overwrite (unat (off_size pos)) (inode_bytes ?i) bs) k s) = Inr (s\<lparr>sectors := m\<rparr>)"
    "itable (s\<lparr>sectors := m\<rparr>) = overwrite (76 * unat (i_no i)) (inode_bytes ?i) (itable s)" "table_ok (s\<lparr>sectors := m\<rparr>)" "\<forall>l. \<not> in_table s l \<longrightarrow> m l = sectors s l"
    by (rule table_update [OF s n l(1)])
  have "inode_sync i s = Inr (s\<lparr>sectors := m\<rparr>)" using U(3,4) by (simp add: inode_sync_def U(1,2) Let_def)
  then show thesis
    using that [of m] U(6,7) table_entry_same [OF s n l(2)] table_entry_other [OF s n _ _ l(1)]
    by (auto simp: disk_inode_def U(5))
qed

lemma inode_delete_spec:
  assumes s: "table_ok s" and n: "n < 4096"
  obtains m where "inode_delete n s = Inr (s\<lparr>sectors := m\<rparr>)" "table_ok (s\<lparr>sectors := m\<rparr>)"
    "\<forall>n'<4096. n' \<noteq> n \<longrightarrow> disk_inode (s\<lparr>sectors := m\<rparr>) n' = disk_inode s n'"
    "\<forall>l. \<not> in_table s l \<longrightarrow> m l = sectors s l"
proof -
  have l: "length (replicate 76 0 :: bytes) = 76" by simp
  obtain pos k m where U: "inode_locate n s = Inr pos" "(if two_sec pos then 2 else 1) = k" "sec_lba pos \<le> part_start s + part_sec_cnt s"
    "kbind (disk_read (sec_lba pos) k s) (\<lambda>bs. disk_write (sec_lba pos) (overwrite (unat (off_size pos)) (replicate 76 0) bs) k s) = Inr (s\<lparr>sectors := m\<rparr>)"
    "itable (s\<lparr>sectors := m\<rparr>) = overwrite (76 * unat n) (replicate 76 0) (itable s)" "table_ok (s\<lparr>sectors := m\<rparr>)" "\<forall>l. \<not> in_table s l \<longrightarrow> m l = sectors s l"
    by (rule table_update [OF s n l])
  have "inode_delete n s = Inr (s\<lparr>sectors := m\<rparr>)" using U(3,4) n by (simp add: inode_delete_def U(1,2) Let_def)
  then show thesis
    using that [of m] U(6,7) table_entry_other [OF s n _ _ l] by (auto simp: disk_inode_def U(5))
qed

section \<open>Open i-nodes\<close>

lemma find_open_spec:
  assumes "\<And>p. p \<in> set ps \<Longrightarrow> inodes s p \<noteq> None"
  shows "find_open n ps s = Inr (List.find (\<lambda>p. i_no (the (inodes s p)) = n) ps)"
  using assms
proof (induction ps)
  case (Cons p ps)
  then obtain i where "inodes s p = Some i" by auto
  then show ?case using Cons by (simp add: get_inode_def)
qed simp

lemma find_open_cong: "inodes s' = inodes s \<Longrightarrow> find_open n ps s' = find_open n ps s"
  by (induction ps) (auto simp: get_inode_def split: option.split)

lemma inode_open_fresh:
  assumes s: "table_ok s" and n: "n < 4096" and nop: "find_open n (open_inodes s) s = Inr None"
    and heap: "heap s = p # b # hs" "p \<noteq> 0" "b \<noteq> 0"
  shows "inode_open n s = Inr (p, put_inode p ((disk_inode s n)\<lparr>i_open_cnts := 1\<rparr>) (s\<lparr>heap := hs, open_inodes := p # open_inodes s\<rparr>))"
proof -
  obtain pos k where U: "inode_locate n s = Inr pos" "(if two_sec pos then 2 else 1) = k"
    "disk_read (sec_lba pos) k s = Inr (take (512 * k) (drop (76 * unat n - unat (off_size pos)) (itable s)))"
    "unat (off_size pos) \<le> 76 * unat n" "unat (off_size pos) + 76 \<le> 512 * k"
    by (rule table_read [OF s n])
  have rd: "disk_read (sec_lba pos) k (s\<lparr>heap := hs\<rparr>) = disk_read (sec_lba pos) k s" by (simp add: disk_read_def)
  have "76 * unat n + 76 \<le> length (itable s)" using n s by (simp add: word_less_nat_alt)
  then have "inode_of_bytes (take (512 * k) (drop (76 * unat n - unat (off_size pos)) (itable s))) (unat (off_size pos)) = disk_inode s n"
    unfolding disk_inode_def using U(4,5) by (intro inode_of_bytes_cong) (auto simp: take_drop)
  then show ?thesis
    using nop heap rd U(3) by (simp add: inode_open_def U(1,2) kmalloc_def)
qed

section \<open>Properties\<close>

definition small_sb :: super_block where
  "small_sb = \<lparr>magic = SUPER_MAGIC, sb_sec_cnt = 8192, inode_cnt = 4096, part_lba_base = 2048, block_bitmap_lba = 2050, block_bitmap_sects = 2,
     inode_bitmap_lba = 2052, inode_bitmap_sects = 1, inode_table_lba = 2053, inode_table_sects = 608, data_start_lba = 2661, root_inode_no = 0,
     dir_entry_size = 24\<rparr>"

text \<open>A small partition with an empty root directory.\<close>

definition small_root :: inode where
  "small_root = \<lparr>i_no = 0, i_size = 48, i_open_cnts = 1, write_deny = False, i_sectors = 2661 # replicate 12 0\<rparr>"

definition small_fs :: fsys where
  "small_fs = \<lparr>cr3 = 0x100000, pmem = (\<lambda>_. 0), tss_esp0 = 0, flags = 2, timer_ticks = 0, running = 0x1000, tasks = (\<lambda>_. None),
     thread_ready_list = [], thread_all_list = [0x1000], main_thread = 0x1000, idle_thread = 0x2000,
     sectors = (\<lambda>_. replicate 512 0), part_start = 2048, part_sec_cnt = 8192, sb = small_sb,
     block_bitmap = \<lparr>btmp_bytes_len = 1024, bits = 1 # replicate 1024 0\<rparr>, inode_bitmap = \<lparr>btmp_bytes_len = 512, bits = 1 # replicate 512 0\<rparr>,
     open_inodes = [0xC0300000], inodes = [0xC0300000 \<mapsto> small_root], dirs = (\<lambda>_. None),
     root_dir = \<lparr>d_inode = 0xC0300000, dir_pos = 0, dir_buf = replicate 512 0\<rparr>,
     file_table = replicate 32 \<lparr>fd_pos = 0, fd_flag = 0, fd_inode = 0\<rparr>, pipes = (\<lambda>_. None), kbdq = \<lparr>ioq_lock = lock_init, producer = 0, consumer = 0, buf = replicate 2048 0, head = 0, tail = 0\<rparr>,
     heap = [0xC0301000, 0xC0302000, 0xC0303000, 0xC0304000, 0xC0305000, 0xC0306000]\<rparr>"

lemma small_fs_table: "table_ok small_fs"
  by (simp add: table_ok_def small_fs_def small_sb_def media_ok_def)

text \<open>C30.  An i-node that is written back and opened later comes back with the same number, size and block
  addresses, and with its in-memory fields reset, also when it lies across two sectors; no
  other i-node of the table and no sector outside of the table changes.\<close>

theorem inode_sync_open_roundtrip:
  assumes s: "table_ok s" and n: "i_no i < 4096" and len: "length (i_sectors i) = 13"
    and nop: "find_open (i_no i) (open_inodes s) s = Inr None" and heap: "heap s = p # b # hs" "p \<noteq> 0" "b \<noteq> 0"
  shows "\<exists>s' s''. inode_sync i s = Inr s' \<and> inode_open (i_no i) s' = Inr (p, s'')
    \<and> inodes s'' p = Some (i\<lparr>i_open_cnts := 1, write_deny := False\<rparr>) \<and> open_inodes s'' = p # open_inodes s
    \<and> (\<forall>n'<4096. n' \<noteq> i_no i \<longrightarrow> disk_inode s' n' = disk_inode s n') \<and> (\<forall>l. \<not> in_table s l \<longrightarrow> sectors s' l = sectors s l)"
proof -
  obtain m where M: "inode_sync i s = Inr (s\<lparr>sectors := m\<rparr>)" "table_ok (s\<lparr>sectors := m\<rparr>)"
    "disk_inode (s\<lparr>sectors := m\<rparr>) (i_no i) = i\<lparr>i_open_cnts := 0, write_deny := False\<rparr>"
    "\<forall>n'<4096. n' \<noteq> i_no i \<longrightarrow> disk_inode (s\<lparr>sectors := m\<rparr>) n' = disk_inode s n'"
    "\<forall>l. \<not> in_table s l \<longrightarrow> m l = sectors s l"
    by (rule inode_sync_spec [OF s n len])
  have "find_open n' ps (s\<lparr>sectors := m\<rparr>) = find_open n' ps s" for n' ps by (rule find_open_cong) simp
  then show ?thesis
    using inode_open_fresh [OF M(2) n, of p b hs] nop heap M(1,3,4,5) by (auto simp: put_inode_def)
qed

theorem inode_sync_open_roundtrip_witness:
  "\<exists>s' s''. inode_sync ((inode_init 6)\<lparr>i_size := 5\<rparr>) small_fs = Inr s' \<and> inode_open 6 s' = Inr (0xC0301000, s'')
    \<and> inodes s'' 0xC0301000 = Some \<lparr>i_no = 6, i_size = 5, i_open_cnts = 1, write_deny = False, i_sectors = replicate 13 0\<rparr>"
  using inode_sync_open_roundtrip [OF small_fs_table, of "(inode_init 6)\<lparr>i_size := 5\<rparr>"]
  by (auto simp: small_fs_def inode_init_def get_inode_def small_root_def)

end
