(* ===== verification/Blocks.thy ===== *)
theory Blocks
  imports Inode
begin

text \<open>
  The layout of the partition and the two allocators on it: i-node numbers and data
  blocks.  Both meet the contract of a pool of identifiers.
\<close>

section \<open>Layout\<close>

text \<open>
  The bitmaps, the table of i-nodes and the data blocks follow one another on the disk;
  the bitmaps in memory have the sizes of the sectors they are written to; every block
  that may still be handed out lies within the disk, and the block of the root directory
  is in use.
\<close>

definition fs_layout :: "'a fsys_scheme \<Rightarrow> bool" where
  "fs_layout s \<longleftrightarrow> media_ok (sectors s) \<and> bitmap_wf (block_bitmap s) \<and> bitmap_wf (inode_bitmap s)
     \<and> btmp_bytes_len (block_bitmap s) = 512 * unat (block_bitmap_sects (sb s)) \<and> btmp_bytes_len (inode_bitmap s) = 512
     \<and> unat (block_bitmap_lba (sb s)) + unat (block_bitmap_sects (sb s)) \<le> unat (inode_bitmap_lba (sb s))
     \<and> unat (inode_bitmap_lba (sb s)) < unat (inode_table_lba (sb s))
     \<and> unat (inode_table_lba (sb s)) + 608 \<le> unat (data_start_lba (sb s))
     \<and> unat (data_start_lba (sb s)) < 163840 \<and> unat (data_start_lba (sb s)) \<le> unat (part_start s + part_sec_cnt s)
     \<and> unat (data_start_lba (sb s)) + bcap (block_bitmap s) < 2 ^ 32 - 1
     \<and> (\<forall>k<bcap (block_bitmap s). k \<notin> bset (block_bitmap s) \<longrightarrow> unat (data_start_lba (sb s)) + k < 163840)
     \<and> 0 \<in> bset (block_bitmap s) \<and> dir_entry_size (sb s) = 24"

definition data_lba :: "'a fsys_scheme \<Rightarrow> nat \<Rightarrow> u32" where
  "data_lba s k = data_start_lba (sb s) + of_nat k"

definition in_data :: "'a fsys_scheme \<Rightarrow> u32 \<Rightarrow> bool" where
  "in_data s l \<longleftrightarrow> unat (data_start_lba (sb s)) \<le> unat l"

definition block_used :: "'a fsys_scheme \<Rightarrow> u32 \<Rightarrow> bool" where
  "block_used s b \<longleftrightarrow> (\<exists>k\<in>bset (block_bitmap s). b = data_lba s k \<and> unat b < 163840)"

lemma fs_layoutD:
  assumes "fs_layout s"
  shows "media_ok (sectors s)" "bitmap_wf (block_bitmap s)" "bitmap_wf (inode_bitmap s)"
    "btmp_bytes_len (block_bitmap s) = 512 * unat (block_bitmap_sects (sb s))" "btmp_bytes_len (inode_bitmap s) = 512"
    "unat (block_bitmap_lba (sb s)) + unat (block_bitmap_sects (sb s)) \<le> unat (inode_bitmap_lba (sb s))"
    "unat (inode_bitmap_lba (sb s)) < unat (inode_table_lba (sb s))"
    "unat (inode_table_lba (sb s)) + 608 \<le> unat (data_start_lba (sb s))"
    "unat (data_start_lba (sb s)) < 163840" "unat (data_start_lba (sb s)) \<le> unat (part_start s + part_sec_cnt s)"
    "unat (data_start_lba (sb s)) + bcap (block_bitmap s) < 2 ^ 32 - 1"
    "k < bcap (block_bitmap s) \<Longrightarrow> k \<notin> bset (block_bitmap s) \<Longrightarrow> unat (data_start_lba (sb s)) + k < 163840"
    "0 \<in> bset (block_bitmap s)" "dir_entry_size (sb s) = 24"
  using assms unfolding fs_layout_def by blast+

lemma fs_layout_table: "fs_layout s \<Longrightarrow> table_ok s"
  by (auto simp: fs_layout_def table_ok_def)

lemma fs_layout_media [simp]: "fs_layout s \<Longrightarrow> media_ok (sectors s)"
  by (simp add: fs_layout_def)

lemma data_lba_unat:
  assumes "fs_layout s" "k < bcap (block_bitmap s)"
  shows "unat (data_lba s k) = unat (data_start_lba (sb s)) + k"
proof -
  have "data_lba s k = of_nat (unat (data_start_lba (sb s)) + k)" by (simp add: data_lba_def)
  moreover have "unat (data_start_lba (sb s)) + k < 2 ^ 32" using assms by (simp add: fs_layout_def)
  ultimately show ?thesis by (simp only: unat_of_nat_u32)
qed

lemma data_lba_inj: "fs_layout s \<Longrightarrow> inj_on (data_lba s) {..<bcap (block_bitmap s)}"
  by (rule inj_onI) (metis add_left_cancel data_lba_unat lessThan_iff)

lemma data_lba_bounds:
  assumes "fs_layout s" "k < bcap (block_bitmap s)"
  shows "data_lba s k \<noteq> 0" "data_lba s k \<noteq> - 1" "in_data s (data_lba s k)"
proof -
  note u = data_lba_unat [OF assms]
  have "0 < unat (data_lba s k)" using assms u by (simp add: fs_layout_def)
  then show "data_lba s k \<noteq> 0" by auto
  have "unat (data_lba s k) < 2 ^ 32 - 1" using assms(2) u fs_layoutD(11) [OF assms(1)] by linarith
  moreover have "unat (- 1 :: u32) = 2 ^ 32 - 1" by (simp add: unsigned_minus_1_eq_mask mask_eq_exp_minus_1)
  ultimately show "data_lba s k \<noteq> - 1" by (metis less_irrefl)
  show "in_data s (data_lba s k)" using u by (simp add: in_data_def)
qed

lemma data_lba_idx:
  assumes "fs_layout s" "k < bcap (block_bitmap s)"
  shows "data_lba s k - data_start_lba (sb s) = of_nat k" "unat (of_nat k :: u32) = k"
proof -
  have "k < 2 ^ 32" using assms by (simp add: fs_layout_def)
  then show "unat (of_nat k :: u32) = k" by (rule unat_of_nat_u32)
qed (simp add: data_lba_def)

lemma block_used_data:
  assumes "fs_layout s" "block_used s b"
  shows "in_data s b \<and> unat b < 163840 \<and> b \<noteq> 0"
proof -
  obtain k where k: "k \<in> bset (block_bitmap s)" "b = data_lba s k" "unat b < 163840" using assms(2) by (auto simp: block_used_def)
  then have "k < bcap (block_bitmap s)" using bset_subset by auto
  from data_lba_bounds [OF assms(1) this] show ?thesis using k by simp
qed

lemma block_used_io:
  assumes "fs_layout s" "block_used s b"
  shows "disk_read b 1 s = Inr (sectors s b)" "length src = 512 \<Longrightarrow> disk_write b src 1 s = Inr (s\<lparr>sectors := (sectors s)(b := src)\<rparr>)"
proof -
  have "unat b < 163840" using block_used_data [OF assms] by simp
  then have "b \<le> max_lba" "disk_range b 1" by (simp_all add: max_lba_def word_le_nat_alt disk_range_def)
  then show "disk_read b 1 s = Inr (sectors s b)" "length src = 512 \<Longrightarrow> disk_write b src 1 s = Inr (s\<lparr>sectors := (sectors s)(b := src)\<rparr>)"
    by (simp_all add: disk_read_def disk_write_def)
qed

lemma in_table_not_data: "fs_layout s \<Longrightarrow> in_table s l \<Longrightarrow> \<not> in_data s l"
proof -
  assume s: "fs_layout s" and l: "in_table s l"
  define j where "j = unat (l - inode_table_lba (sb s))"
  have "l = of_nat (unat (inode_table_lba (sb s)) + j)" by (simp add: j_def)
  moreover have "unat (inode_table_lba (sb s)) + j < 2 ^ 32" using s l by (simp add: fs_layout_def in_table_def j_def)
  ultimately have "unat l = unat (inode_table_lba (sb s)) + j" by (simp only: unat_of_nat_u32)
  then show ?thesis using s l by (simp add: fs_layout_def in_table_def in_data_def j_def)
qed

section \<open>The bitmap of blocks\<close>

lemma fs_layout_bitmap:
  assumes "fs_layout s" "bitmap_wf b" "btmp_bytes_len b = btmp_bytes_len (block_bitmap s)" "0 \<in> bset b"
    "\<And>k. k < bcap b \<Longrightarrow> k \<notin> bset b \<Longrightarrow> unat (data_start_lba (sb s)) + k < 163840"
  shows "fs_layout (s\<lparr>block_bitmap := b\<rparr>)"
  using assms by (simp add: fs_layout_def)

lemma block_bitmap_alloc_spec:
  assumes s: "fs_layout s" and free: "bset (block_bitmap s) \<noteq> {..<bcap (block_bitmap s)}"
  obtains k b where "block_bitmap_alloc s = Inr (data_lba s k, s\<lparr>block_bitmap := b\<rparr>)" "k < bcap (block_bitmap s)" "k \<notin> bset (block_bitmap s)"
    "bset b = insert k (bset (block_bitmap s))" "btmp_bytes_len b = btmp_bytes_len (block_bitmap s)" "fs_layout (s\<lparr>block_bitmap := b\<rparr>)" "0 < k"
proof -
  let ?b = "block_bitmap s"
  have wf: "bitmap_wf ?b" using s by (simp add: fs_layout_def)
  obtain k where k: "k < bcap ?b" "\<not> bused ?b k" "\<forall>j<k. bused ?b j" by (rule exists_first_free [OF free])
  obtain b where b: "bitmap_set ?b k 1 = Inr b" "bitmap_wf b" "btmp_bytes_len b = btmp_bytes_len ?b"
    "bset b = insert k (bset ?b)" by (rule bitmap_set_bset [OF wf k(1), of 1]) auto
  have "block_bitmap_alloc s = Inr (data_lba s k, s\<lparr>block_bitmap := b\<rparr>)"
    using bitmap_scan_one [OF wf k] b(1) by (simp add: block_bitmap_alloc_def data_lba_def)
  moreover have "k \<notin> bset ?b" using k(2) by (simp add: bset_def)
  moreover have "fs_layout (s\<lparr>block_bitmap := b\<rparr>)" 
    using fs_layoutD(12,13) [OF s] b by (intro fs_layout_bitmap [OF s]) simp_all
  moreover have "bused ?b 0" using s by (simp add: fs_layout_def bset_def)
  then have "0 < k" using k(2) by (metis gr0I)
  ultimately show thesis using that [of k b] k(1) b \<open>0 < k\<close> by simp
qed

lemma block_bitmap_alloc_full:
  assumes "fs_layout s" "bset (block_bitmap s) = {..<bcap (block_bitmap s)}"
  shows "block_bitmap_alloc s = Inl (Assert_fail ''bitmap_scan'')"
  using assms bitmap_scan_full [of "block_bitmap s" 1] by (simp add: block_bitmap_alloc_def fs_layout_def)

text \<open>Writing a sector in front of the data blocks, outside of the table.\<close>

lemma meta_write:
  assumes s: "fs_layout s" and l: "unat l < unat (inode_table_lba (sb s))" and len: "512 \<le> length src"
  shows "disk_write l src 1 s = Inr (s\<lparr>sectors := (sectors s)(l := take 512 src)\<rparr>)"
    "fs_layout (s\<lparr>sectors := (sectors s)(l := take 512 src)\<rparr>)" "\<not> in_data s l" "\<not> in_table s l"
proof -
  have "unat l < 163840" using s l by (simp add: fs_layout_def)
  then have "l \<le> max_lba" "disk_range l 1" by (simp_all add: max_lba_def word_le_nat_alt disk_range_def)
  then show "disk_write l src 1 s = Inr (s\<lparr>sectors := (sectors s)(l := take 512 src)\<rparr>)" using len by (simp add: disk_write_def)
  show "fs_layout (s\<lparr>sectors := (sectors s)(l := take 512 src)\<rparr>)" using s len by (simp add: fs_layout_def media_ok_def)
  show "\<not> in_data s l" using s l by (simp add: in_data_def fs_layout_def)
  have "unat (l - inode_table_lba (sb s)) = 2 ^ 32 + unat l - unat (inode_table_lba (sb s))" using l by (simp add: unat_sub_if')
  moreover have "unat (inode_table_lba (sb s)) < 163840" using s by (simp add: fs_layout_def)
  ultimately show "\<not> in_table s l" by (simp add: in_table_def)
qed

definition meta_only :: "'a fsys_scheme \<Rightarrow> media \<Rightarrow> bool" where
  "meta_only s m \<longleftrightarrow> (\<forall>l. in_data s l \<or> in_table s l \<longrightarrow> m l = sectors s l)"

lemma bitmap_sync_block:
  assumes s: "fs_layout s" and k: "k < bcap (block_bitmap s)"
  obtains m where "bitmap_sync (of_nat k) BLOCK_BITMAP s = Inr (s\<lparr>sectors := m\<rparr>)" "fs_layout (s\<lparr>sectors := m\<rparr>)" "meta_only s m"
proof -
  let ?q = "k div 4096" let ?l = "block_bitmap_lba (sb s) + of_nat ?q"
  have u: "unat (of_nat k :: u32) = k" by (rule data_lba_idx(2) [OF s k])
  note D = fs_layoutD [OF s]
  have "k < 4096 * unat (block_bitmap_sects (sb s))" using k D(4) by simp
  then have q: "?q < unat (block_bitmap_sects (sb s))" by (simp add: less_mult_imp_div_less mult.commute)
  have q2: "?q + unat (block_bitmap_lba (sb s)) < 163840" "?q < 163840" using q D(6-9) by linarith+
  have d: "of_nat k div 4096 = (of_nat ?q :: u32)"
    using u q2 by (simp add: word_unat_eq_iff unat_div unat_of_nat_u32)
  have off: "unat (of_nat ?q * BLOCK_SIZE :: u32) = 512 * ?q"
    using q2 unat_of_nat_u32 [of "512 * ?q"] by (simp add: BLOCK_SIZE_def mult.commute)
  have "unat ?l = unat (block_bitmap_lba (sb s)) + ?q"
    using q2 unat_of_nat_u32 [of "unat (block_bitmap_lba (sb s)) + ?q"] by simp
  then have l: "unat ?l < unat (inode_table_lba (sb s))" using q D(6,7) by linarith
  have "512 * ?q + 512 \<le> length (bits (block_bitmap s))" using q D(2,4) by (simp add: bitmap_wf_def)
  then have len: "512 \<le> length (drop (512 * ?q) (bits (block_bitmap s)))" by simp
  note W = meta_write [OF s l len]
  have "bitmap_sync (of_nat k) BLOCK_BITMAP s = Inr (s\<lparr>sectors := (sectors s)(?l := take 512 (drop (512 * ?q) (bits (block_bitmap s))))\<rparr>)"
    using W(1) by (simp add: bitmap_sync_def Let_def d off)
  then show thesis using that W(2,3,4) by (auto simp: meta_only_def)
qed

lemma bitmap_sync_inode:
  assumes s: "fs_layout s" and n: "n < 4096"
  obtains m where "bitmap_sync n INODE_BITMAP s = Inr (s\<lparr>sectors := m\<rparr>)" "fs_layout (s\<lparr>sectors := m\<rparr>)" "meta_only s m"
proof -
  let ?l = "inode_bitmap_lba (sb s)"
  have "unat (n div 4096) = 0" using n by (simp add: unat_div word_less_nat_alt)
  then have d: "n div 4096 = 0" by (simp only: unat_eq_zero)
  have l: "unat ?l < unat (inode_table_lba (sb s))" and len: "512 \<le> length (bits (inode_bitmap s))"
    using s by (simp_all add: fs_layout_def bitmap_wf_def)
  note W = meta_write [OF s l len]
  have "bitmap_sync n INODE_BITMAP s = Inr (s\<lparr>sectors := (sectors s)(?l := take 512 (bits (inode_bitmap s)))\<rparr>)"
    using W(1) by (simp add: bitmap_sync_def Let_def d)
  then show thesis using that W(2,3,4) by (auto simp: meta_only_def)
qed

lemma release_block_spec:
  assumes s: "fs_layout s" and k: "k \<in> bset (block_bitmap s)" "0 < k" and range: "unat (data_lba s k) < 163840"
  obtains b m where "release_block (data_lba s k) s = Inr (s\<lparr>block_bitmap := b, sectors := m\<rparr>)" "bset b = bset (block_bitmap s) - {k}"
    "btmp_bytes_len b = btmp_bytes_len (block_bitmap s)" "fs_layout (s\<lparr>block_bitmap := b, sectors := m\<rparr>)" "meta_only s m"
proof -
  let ?b = "block_bitmap s"
  have kb: "k < bcap ?b" using k(1) bset_subset by auto
  have wf: "bitmap_wf ?b" using s by (simp add: fs_layout_def)
  obtain b where b: "bitmap_set ?b k 0 = Inr b" "bitmap_wf b" "btmp_bytes_len b = btmp_bytes_len ?b" "bset b = bset ?b - {k}"
    by (rule bitmap_set_bset [OF wf kb, of 0]) auto
  have "unat (data_start_lba (sb s)) + k < 163840" using range data_lba_unat [OF s kb] by simp
  then have s1: "fs_layout (s\<lparr>block_bitmap := b\<rparr>)" 
    using fs_layoutD(12) [OF s] fs_layoutD(13) [OF s] b k(2) by (intro fs_layout_bitmap [OF s]) auto
  obtain m where m: "bitmap_sync (of_nat k) BLOCK_BITMAP (s\<lparr>block_bitmap := b\<rparr>) = Inr (s\<lparr>block_bitmap := b, sectors := m\<rparr>)"
    "fs_layout (s\<lparr>block_bitmap := b, sectors := m\<rparr>)" "meta_only (s\<lparr>block_bitmap := b\<rparr>) m"
    by (rule bitmap_sync_block [OF s1, of k]) (use kb b(3) in simp_all)
  have "(of_nat k :: u32) \<noteq> 0" using k(2) data_lba_idx(2) [OF s kb] by (metis less_irrefl unat_0)
  then have "release_block (data_lba s k) s = Inr (s\<lparr>block_bitmap := b, sectors := m\<rparr>)"
    using m(1) b(1) data_lba_idx [OF s kb] by (simp add: release_block_def word_gt_0)
  then show thesis using that b(3,4) m(2,3) by (simp add: meta_only_def in_data_def in_table_def)
qed

section \<open>I-node numbers\<close>

lemma inode_bitmap_alloc_spec:
  assumes s: "fs_layout s" and free: "bset (inode_bitmap s) \<noteq> {..<4096}"
  obtains n b where "inode_bitmap_alloc s = Inr (of_nat n, s\<lparr>inode_bitmap := b\<rparr>)" "n < 4096" "n \<notin> bset (inode_bitmap s)"
    "bset b = insert n (bset (inode_bitmap s))" "fs_layout (s\<lparr>inode_bitmap := b\<rparr>)"
proof -
  let ?b = "inode_bitmap s"
  have wf: "bitmap_wf ?b" and cap: "bcap ?b = 4096" using s by (simp_all add: fs_layout_def)
  obtain k where k: "k < bcap ?b" "\<not> bused ?b k" "\<forall>j<k. bused ?b j" using free by (auto intro: exists_first_free simp flip: cap)
  obtain b where b: "bitmap_set ?b k 1 = Inr b" "bitmap_wf b" "btmp_bytes_len b = btmp_bytes_len ?b"
    "bset b = insert k (bset ?b)" by (rule bitmap_set_bset [OF wf k(1), of 1]) auto
  have "inode_bitmap_alloc s = Inr (of_nat k, s\<lparr>inode_bitmap := b\<rparr>)"
    using bitmap_scan_one [OF wf k] b(1) by (simp add: inode_bitmap_alloc_def)
  moreover have "k \<notin> bset ?b" using k(2) by (simp add: bset_def)
  moreover have "fs_layout (s\<lparr>inode_bitmap := b\<rparr>)" using s b(2,3) unfolding fs_layout_def by simp
  ultimately show thesis using that [of k b] k(1) b(4) cap by simp
qed

section \<open>Both are pools of identifiers\<close>

definition free_idx :: "'a fsys_scheme \<Rightarrow> nat set" where
  "free_idx s = {k. 0 < k \<and> k < bcap (block_bitmap s) \<and> unat (data_start_lba (sb s)) + k < 163840}"

definition block_ids :: "'a fsys_scheme \<Rightarrow> u32 set" where
  "block_ids s = data_lba s ` free_idx s"

definition used_blocks :: "'a fsys_scheme \<Rightarrow> u32 set" where
  "used_blocks s = data_lba s ` (bset (block_bitmap s) \<inter> free_idx s)"

lemma free_idx_cap: "free_idx s \<subseteq> {..<bcap (block_bitmap s)}"
  by (auto simp: free_idx_def)

lemma unused_idx: "fs_layout s \<Longrightarrow> k < bcap (block_bitmap s) \<Longrightarrow> k \<notin> bset (block_bitmap s) \<Longrightarrow> k \<in> free_idx s"
  using fs_layoutD(12) [of s k] fs_layoutD(13) [of s] by (auto simp: free_idx_def intro: gr0I)

lemma used_blocks_all:
  assumes "fs_layout s" "used_blocks s = block_ids s"
  shows "bset (block_bitmap s) = {..<bcap (block_bitmap s)}"
proof -
  have "bset (block_bitmap s) \<inter> free_idx s = free_idx s"
    using assms(2) inj_on_image_eq_iff [OF data_lba_inj [OF assms(1)], of "bset (block_bitmap s) \<inter> free_idx s" "free_idx s"] free_idx_cap [of s]
    by (auto simp: used_blocks_def block_ids_def)
  then show ?thesis using unused_idx [OF assms(1)] bset_subset [of "block_bitmap s"] by blast
qed

interpretation blocks: slot_pool fs_layout block_ids used_blocks block_bitmap_alloc release_block
proof unfold_locales
  fix s :: "'a fsys_scheme" and r
  show "fs_layout s \<Longrightarrow> finite (block_ids s)" using finite_subset [OF free_idx_cap] by (auto simp: block_ids_def)
  show "fs_layout s \<Longrightarrow> used_blocks s \<subseteq> block_ids s" by (auto simp: used_blocks_def block_ids_def)
  show "fs_layout s \<Longrightarrow> used_blocks s = block_ids s \<Longrightarrow> \<exists>e. block_bitmap_alloc s = Inl e"
    using used_blocks_all [of s] block_bitmap_alloc_full [of s] by auto
  show "\<exists>r s'. block_bitmap_alloc s = Inr (r, s') \<and> r \<in> block_ids s - used_blocks s \<and> used_blocks s' = insert r (used_blocks s)
      \<and> block_ids s' = block_ids s \<and> fs_layout s'" if s: "fs_layout s" and n: "used_blocks s \<noteq> block_ids s"
  proof -
    have "bset (block_bitmap s) \<noteq> {..<bcap (block_bitmap s)}"
    proof
      assume "bset (block_bitmap s) = {..<bcap (block_bitmap s)}"
      then have "bset (block_bitmap s) \<inter> free_idx s = free_idx s" using free_idx_cap [of s] by auto
      then show False using n by (simp add: used_blocks_def block_ids_def)
    qed
    then obtain k b where k: "block_bitmap_alloc s = Inr (data_lba s k, s\<lparr>block_bitmap := b\<rparr>)" "k < bcap (block_bitmap s)" "k \<notin> bset (block_bitmap s)"
      "bset b = insert k (bset (block_bitmap s))" "btmp_bytes_len b = btmp_bytes_len (block_bitmap s)" "fs_layout (s\<lparr>block_bitmap := b\<rparr>)" "0 < k"
      by (rule block_bitmap_alloc_spec [OF s])
    have ki: "k \<in> free_idx s" by (rule unused_idx [OF s k(2,3)])
    have eq: "free_idx (s\<lparr>block_bitmap := b\<rparr>) = free_idx s" "data_lba (s\<lparr>block_bitmap := b\<rparr>) = data_lba s"
      using k(5) by (auto simp: free_idx_def data_lba_def fun_eq_iff)
    have "data_lba s k \<notin> used_blocks s"
      using k(2,3) inj_on_image_mem_iff [OF data_lba_inj [OF s], of k "bset (block_bitmap s) \<inter> free_idx s"] free_idx_cap [of s]
      by (auto simp: used_blocks_def)
    then show ?thesis
      using k ki by (intro exI conjI) (auto simp: block_ids_def used_blocks_def eq)
  qed
  show "\<exists>s'. release_block r s = Inr s' \<and> used_blocks s' = used_blocks s - {r} \<and> block_ids s' = block_ids s \<and> fs_layout s'"
    if s: "fs_layout s" and r: "r \<in> used_blocks s"
  proof -
    obtain k where k: "k \<in> bset (block_bitmap s)" "k \<in> free_idx s" "r = data_lba s k" using r by (auto simp: used_blocks_def)
    have kb: "k < bcap (block_bitmap s)" "0 < k" "unat (data_lba s k) < 163840"
      using k(2) data_lba_unat [OF s, of k] by (auto simp: free_idx_def)
    obtain b m where b: "release_block r s = Inr (s\<lparr>block_bitmap := b, sectors := m\<rparr>)" "bset b = bset (block_bitmap s) - {k}"
      "btmp_bytes_len b = btmp_bytes_len (block_bitmap s)" "fs_layout (s\<lparr>block_bitmap := b, sectors := m\<rparr>)"
      using release_block_spec [OF s k(1) kb(2,3)] k(3) by metis
    have eq: "free_idx (s\<lparr>block_bitmap := b, sectors := m\<rparr>) = free_idx s" "data_lba (s\<lparr>block_bitmap := b, sectors := m\<rparr>) = data_lba s"
      using b(3) by (auto simp: free_idx_def data_lba_def fun_eq_iff)
    have "(bset (block_bitmap s) - {k}) \<inter> free_idx s = bset (block_bitmap s) \<inter> free_idx s - {k}" by blast
    moreover have "bset (block_bitmap s) \<inter> free_idx s - {k} \<subseteq> {..<bcap (block_bitmap s)}" using free_idx_cap by blast
    ultimately have "data_lba s ` ((bset (block_bitmap s) - {k}) \<inter> free_idx s) = used_blocks s - {r}"
      using inj_on_image_set_diff [OF data_lba_inj [OF s], of "bset (block_bitmap s) \<inter> free_idx s" "{k}"] kb(1) k(1,2)
      by (simp add: used_blocks_def k(3))
    then show ?thesis using b by (intro exI conjI) (auto simp: block_ids_def used_blocks_def eq)
  qed
qed

end
