(* ===== verification/Dir.thy ===== *)
theory Dir
  imports Inode
begin

text \<open>
  \<^verbatim>\<open>fs/dir.c\<close>: directories as files of fixed-size entries.  An entry of 24 bytes holds a name of
  up to 16 bytes, the number of the i-node and the type; a type of 0 marks a free entry.
  Names and paths given by the caller are strings without their terminating zero.
\<close>

section \<open>Entries in a sector\<close>

definition de_name :: "bytes \<Rightarrow> bytes" where
  "de_name e = take 16 e"

definition de_ino :: "bytes \<Rightarrow> u32" where
  "de_ino e = get32 e 16"

definition de_type :: "bytes \<Rightarrow> u32" where
  "de_type e = get32 e 20"

text \<open>Copying \<open>n\<close> bytes between two buffers.\<close>

definition copy_bytes :: "nat \<Rightarrow> bytes \<Rightarrow> nat \<Rightarrow> bytes \<Rightarrow> nat \<Rightarrow> bytes kres" where
  "copy_bytes n src from dst to =
     (if from + n \<le> length src \<and> to + n \<le> length dst then Inr (overwrite to (take n (drop from src)) dst) else Inl Fault)"

text \<open>The 24 bytes of entry \<open>k\<close> of a buffer.\<close>

definition entry_at :: "bytes \<Rightarrow> nat \<Rightarrow> bytes kres" where
  "entry_at buffer k = (if 24 * k + 24 \<le> length buffer then Inr (take 24 (drop (24 * k) buffer)) else Inl Fault)"

text \<open>\<^verbatim>\<open>strcmp\<close> of the name in entry \<open>k\<close> with a string.\<close>

definition name_cmp :: "bytes \<Rightarrow> nat \<Rightarrow> bytes \<Rightarrow> int kres" where
  "name_cmp buffer k name =
     (if 24 * k < length buffer then strcmp (1 + 24 * k) (1 + length buffer) (0 # buffer @ name @ [0]) else Inl Fault)"

section \<open>Opening and closing\<close>

definition open_root_dir :: "'a fsys_scheme \<Rightarrow> 'a fsys_scheme kres" where
  "open_root_dir s =
     kbind (inode_open (root_inode_no (sb s)) s) (\<lambda>(p, s). Inr (s\<lparr>root_dir := (root_dir s)\<lparr>d_inode := p, dir_pos := 0\<rparr>\<rparr>))"

definition dir_open :: "u32 \<Rightarrow> 'a fsys_scheme \<Rightarrow> (dir_ptr \<times> 'a fsys_scheme) kres" where
  "dir_open inode_no s =
     (let (a, s) = kmalloc s
      in kbind (inode_open inode_no s) (\<lambda>(p, s).
         if a = 0 then Inl Fault
         else Inr (Dir_at a, put_dir (Dir_at a) \<lparr>d_inode = p, dir_pos = 0, dir_buf = replicate 512 0\<rparr> s)))"

definition dir_close :: "dir_ptr \<Rightarrow> 'a fsys_scheme \<Rightarrow> 'a fsys_scheme kres" where
  "dir_close dp s =
     (case dp of
        Root_dir \<Rightarrow> Inr s
      | Dir_at a \<Rightarrow> kbind (get_dir dp s) (\<lambda>d. kbind (inode_close (d_inode d) s) (\<lambda>s. Inr (s\<lparr>dirs := (dirs s)(a := None)\<rparr>))))"

definition dir_inode :: "dir_ptr \<Rightarrow> 'a fsys_scheme \<Rightarrow> (u32 \<times> inode) kres" where
  "dir_inode dp s = kbind (get_dir dp s) (\<lambda>d. kbind (get_inode (d_inode d) s) (\<lambda>i. Inr (d_inode d, i)))"

text \<open>The addresses of the blocks: 12 from the i-node, the others from its table.\<close>

definition all_blocks :: "inode \<Rightarrow> 'a fsys_scheme \<Rightarrow> u32 list kres" where
  "all_blocks i s =
     kbind (aget (i_sectors i) 12) (\<lambda>table.
     if table \<noteq> 0 then kbind (disk_read table 1 s) (\<lambda>bs. Inr (take 12 (i_sectors i) @ words_of bs))
     else Inr (take 12 (i_sectors i) @ replicate 128 0))"

section \<open>Searching\<close>

fun search_entries :: "bytes \<Rightarrow> bytes \<Rightarrow> nat list \<Rightarrow> nat option kres" where
  "search_entries buffer name [] = Inr None"
| "search_entries buffer name (k # ks) =
     kbind (name_cmp buffer k name) (\<lambda>c. if c = 0 then Inr (Some k) else search_entries buffer name ks)"

fun search_blocks :: "bytes \<Rightarrow> nat \<Rightarrow> u32 list \<Rightarrow> 'a fsys_scheme \<Rightarrow> bytes option kres" where
  "search_blocks name sz [] s = Inr None"
| "search_blocks name sz (b # bs) s =
     (if b = 0 then search_blocks name sz bs s
      else kbind (disk_read b 1 s) (\<lambda>buffer.
           kbind (search_entries buffer name [0..<512 div sz]) (\<lambda>found.
           case found of
             Some k \<Rightarrow> kbind (copy_bytes sz buffer (24 * k) (replicate 24 0) 0) (\<lambda>dir_e. Inr (Some dir_e))
           | None \<Rightarrow> search_blocks name sz bs s)))"

text \<open>The entry that is found is stored in \<^verbatim>\<open>*dir_e\<close>, here cleared before the copy.\<close>

definition search_dir_entry :: "dir_ptr \<Rightarrow> bytes \<Rightarrow> 'a fsys_scheme \<Rightarrow> (bytes option \<times> 'a fsys_scheme) kres" where
  "search_dir_entry pdir name s =
     (let (a, s) = kmalloc s
      in if a = 0 then Inr (None, s)
         else kbind (dir_inode pdir s) (\<lambda>(_, i).
              kbind (all_blocks i s) (\<lambda>blocks.
                let (b, s) = kmalloc s; sz = unat (dir_entry_size (sb s))
                in if b = 0 \<or> sz = 0 then Inl Fault
                   else kbind (search_blocks name sz blocks s) (\<lambda>found. Inr (found, s)))))"

section \<open>Adding an entry\<close>

definition create_dir_entry :: "bytes \<Rightarrow> u32 \<Rightarrow> u8 \<Rightarrow> bytes \<Rightarrow> bytes kres" where
  "create_dir_entry name inode_no file_type p_de =
     kbind (kassert ''create_dir_entry'' (length name \<le> MAX_FILE_NAME_LEN)) (\<lambda>_.
     Inr (overwrite 20 (le32 (ucast file_type)) (overwrite 16 (le32 inode_no) (overwrite 0 name p_de))))"

fun free_entry :: "bytes \<Rightarrow> nat list \<Rightarrow> nat option kres" where
  "free_entry buffer [] = Inr None"
| "free_entry buffer (k # ks) =
     kbind (entry_at buffer k) (\<lambda>e. if de_type e = FT_UNKNOWN then Inr (Some k) else free_entry buffer ks)"

definition alloc_block :: "'a fsys_scheme \<Rightarrow> (u32 \<times> 'a fsys_scheme) kres" where
  "alloc_block s =
     kbind (block_bitmap_alloc s) (\<lambda>(block_lba, s).
     if block_lba = - 1 then Inr (- 1, s)
     else let block_bitmap_idx = block_lba - data_start_lba (sb s)
          in kbind (kassert ''sync_dir_entry'' (block_bitmap_idx \<noteq> - 1)) (\<lambda>_.
             kbind (bitmap_sync block_bitmap_idx BLOCK_BITMAP s) (\<lambda>s. Inr (block_lba, s))))"

definition set_sector :: "u32 \<Rightarrow> nat \<Rightarrow> u32 \<Rightarrow> 'a fsys_scheme \<Rightarrow> 'a fsys_scheme kres" where
  "set_sector p k lba s =
     kbind (get_inode p s) (\<lambda>i. kbind (aset (i_sectors i) k lba) (\<lambda>secs. Inr (put_inode p (i\<lparr>i_sectors := secs\<rparr>) s)))"

definition grow_size :: "u32 \<Rightarrow> u32 \<Rightarrow> 'a fsys_scheme \<Rightarrow> 'a fsys_scheme kres" where
  "grow_size p n s = kbind (get_inode p s) (\<lambda>i. Inr (put_inode p (i\<lparr>i_size := i_size i + n\<rparr>) s))"

text \<open>
  A new block at index \<open>k\<close> for the entry \<open>p_de\<close>; \<open>blocks\<close> are the addresses of all blocks.
  \<open>False\<close> is the return for a full disk.
\<close>

definition add_block :: "u32 \<Rightarrow> nat \<Rightarrow> u32 list \<Rightarrow> bytes \<Rightarrow> 'a fsys_scheme \<Rightarrow> (bool \<times> 'a fsys_scheme) kres" where
  "add_block p k blocks p_de s =
     kbind (alloc_block s) (\<lambda>(block_lba, s).
     if block_lba = - 1 then Inr (False, s)
     else
       kbind (if k < 12 then kbind (set_sector p k block_lba s) (\<lambda>s. Inr (True, blocks[k := block_lba], s))
              else if k = 12 then
                kbind (set_sector p 12 block_lba s) (\<lambda>s.
                kbind (alloc_block s) (\<lambda>(lba0, s).
                if lba0 = - 1 then
                  kbind (bitmap_set (block_bitmap s) (unat (block_lba - data_start_lba (sb s))) 0) (\<lambda>b.
                  kbind (set_sector p 12 0 (s\<lparr>block_bitmap := b\<rparr>)) (\<lambda>s. Inr (False, blocks, s)))
                else kbind (disk_write block_lba (bytes_of (drop 12 (blocks[12 := lba0]))) 1 s) (\<lambda>s. Inr (True, blocks[12 := lba0], s))))
              else
                kbind (get_inode p s) (\<lambda>i. kbind (aget (i_sectors i) 12) (\<lambda>table.
                kbind (disk_write table (bytes_of (drop 12 (blocks[k := block_lba]))) 1 s) (\<lambda>s. Inr (True, blocks[k := block_lba], s))))) (\<lambda>(ok, blocks, s).
       if \<not> ok then Inr (False, s)
       else
         kbind (copy_bytes (unat (dir_entry_size (sb s))) p_de 0 (replicate 512 0) 0) (\<lambda>io_buf.
         kbind (disk_write (blocks ! k) io_buf 1 s) (\<lambda>s.
         kbind (grow_size p (dir_entry_size (sb s)) s) (\<lambda>s. Inr (True, s))))))"

fun sync_blocks :: "u32 \<Rightarrow> nat list \<Rightarrow> u32 list \<Rightarrow> bytes \<Rightarrow> 'a fsys_scheme \<Rightarrow> (bool \<times> 'a fsys_scheme) kres" where
  "sync_blocks p [] blocks p_de s = Inr (False, s)"
| "sync_blocks p (k # ks) blocks p_de s =
     (if blocks ! k = 0 then add_block p k blocks p_de s
      else kbind (disk_read (blocks ! k) 1 s) (\<lambda>io_buf.
           kbind (free_entry io_buf [0..<512 div unat (dir_entry_size (sb s))]) (\<lambda>found.
           case found of
             Some j \<Rightarrow>
               kbind (copy_bytes (unat (dir_entry_size (sb s))) p_de 0 io_buf (24 * j)) (\<lambda>io_buf.
               kbind (disk_write (blocks ! k) io_buf 1 s) (\<lambda>s.
               kbind (grow_size p (dir_entry_size (sb s)) s) (\<lambda>s. Inr (True, s))))
           | None \<Rightarrow> sync_blocks p ks blocks p_de s)))"

definition sync_dir_entry :: "dir_ptr \<Rightarrow> bytes \<Rightarrow> 'a fsys_scheme \<Rightarrow> (bool \<times> 'a fsys_scheme) kres" where
  "sync_dir_entry parent_dir p_de s =
     kbind (dir_inode parent_dir s) (\<lambda>(p, i).
     if dir_entry_size (sb s) = 0 then Inl Fault
     else kbind (kassert ''sync_dir_entry'' (i_size i mod dir_entry_size (sb s) = 0)) (\<lambda>_.
          sync_blocks p [0..<140] (take 12 (i_sectors i) @ replicate 128 0) p_de s))"

section \<open>Removing an entry\<close>

text \<open>The scan of one sector: whether it holds the entry of the directory itself, how many
  other entries are in use, and where the wanted one is.\<close>

fun scan_sector :: "u32 \<Rightarrow> bytes \<Rightarrow> nat list \<Rightarrow> bool \<times> nat \<times> nat option \<Rightarrow> (bool \<times> nat \<times> nat option) kres" where
  "scan_sector inode_no buffer [] acc = Inr acc"
| "scan_sector inode_no buffer (k # ks) acc =
     kbind (entry_at buffer k) (\<lambda>e.
       let (first, cnt, found) = acc
       in if de_type e \<noteq> FT_UNKNOWN then
            kbind (name_cmp buffer k [46]) (\<lambda>c1.
            kbind (name_cmp buffer k [46, 46]) (\<lambda>c2.
            if c1 = 0 then scan_sector inode_no buffer ks (True, cnt, found)
            else if c2 \<noteq> 0 then
              if de_ino e = inode_no then
                kbind (kassert ''delete_dir_entry'' (found = None)) (\<lambda>_. scan_sector inode_no buffer ks (first, cnt + 1, Some k))
              else scan_sector inode_no buffer ks (first, cnt + 1, found)
            else scan_sector inode_no buffer ks acc))
          else scan_sector inode_no buffer ks acc)"

text \<open>
  Freeing the block of a single entry.  For a block behind the table, the loop that
  counts the blocks of the table never advances its index.
\<close>

definition drop_block :: "u32 \<Rightarrow> nat \<Rightarrow> u32 \<Rightarrow> 'a fsys_scheme \<Rightarrow> 'a fsys_scheme kres" where
  "drop_block p k lba s =
     (let block_bitmap_idx = lba - data_start_lba (sb s)
      in kbind (bitmap_set (block_bitmap s) (unat block_bitmap_idx) 0) (\<lambda>b.
         kbind (bitmap_sync block_bitmap_idx BLOCK_BITMAP (s\<lparr>block_bitmap := b\<rparr>)) (\<lambda>s.
         if k < 12 then set_sector p k 0 s else Inl Diverges)))"

fun delete_blocks :: "u32 \<Rightarrow> u32 \<Rightarrow> nat list \<Rightarrow> u32 list \<Rightarrow> 'a fsys_scheme \<Rightarrow> (bool \<times> 'a fsys_scheme) kres" where
  "delete_blocks p inode_no [] blocks s = Inr (False, s)"
| "delete_blocks p inode_no (k # ks) blocks s =
     (if blocks ! k = 0 then delete_blocks p inode_no ks blocks s
      else kbind (disk_read (blocks ! k) 1 s) (\<lambda>io_buf.
           let sz = unat (dir_entry_size (sb s))
           in kbind (scan_sector inode_no io_buf [0..<512 div sz] (False, 0, None)) (\<lambda>(first, cnt, found).
           case found of
             None \<Rightarrow> delete_blocks p inode_no ks blocks s
           | Some j \<Rightarrow>
               kbind (kassert ''delete_dir_entry'' (cnt \<ge> 1)) (\<lambda>_.
               kbind (if cnt = 1 \<and> \<not> first then drop_block p k (blocks ! k) s
                      else kbind (copy_bytes sz (replicate sz 0) 0 io_buf (24 * j)) (\<lambda>io_buf. disk_write (blocks ! k) io_buf 1 s)) (\<lambda>s.
               kbind (get_inode p s) (\<lambda>i.
               kbind (kassert ''delete_dir_entry'' (i_size i \<ge> dir_entry_size (sb s))) (\<lambda>_.
                 let i = i\<lparr>i_size := i_size i - dir_entry_size (sb s)\<rparr>
                 in kbind (inode_sync i (put_inode p i s)) (\<lambda>s. Inr (True, s)))))))))"

definition delete_dir_entry :: "dir_ptr \<Rightarrow> u32 \<Rightarrow> 'a fsys_scheme \<Rightarrow> (bool \<times> 'a fsys_scheme) kres" where
  "delete_dir_entry pdir inode_no s =
     kbind (dir_inode pdir s) (\<lambda>(p, i).
     kbind (all_blocks i s) (\<lambda>blocks.
     if dir_entry_size (sb s) = 0 then Inl Fault else delete_blocks p inode_no [0..<140] blocks s))"

section \<open>Reading a directory\<close>

text \<open>The scan of one sector for the next entry to return: \<open>Inl\<close> the position reached, or
  \<open>Inr\<close> the index of the entry.\<close>

fun next_entry :: "u32 \<Rightarrow> u32 \<Rightarrow> bytes \<Rightarrow> nat list \<Rightarrow> u32 \<Rightarrow> (u32 + nat) kres" where
  "next_entry sz pos buffer [] cur = Inr (Inl cur)"
| "next_entry sz pos buffer (k # ks) cur =
     kbind (entry_at buffer k) (\<lambda>e.
     if de_type e \<noteq> 0 then
       if cur < pos then next_entry sz pos buffer ks (cur + sz)
       else kbind (kassert ''dir_read'' (cur = pos)) (\<lambda>_. Inr (Inr k))
     else next_entry sz pos buffer ks cur)"

fun read_blocks :: "dir_ptr \<Rightarrow> inode \<Rightarrow> u32 list \<Rightarrow> u32 \<Rightarrow> 'a fsys_scheme \<Rightarrow> (bytes option \<times> 'a fsys_scheme) kres" where
  "read_blocks dp i [] cur s = Inr (None, s)"
| "read_blocks dp i (b # bs) cur s =
     kbind (get_dir dp s) (\<lambda>d.
     if dir_pos d \<ge> i_size i then Inr (None, s)
     else if b = 0 then read_blocks dp i bs cur s
     else kbind (disk_read b 1 s) (\<lambda>buffer.
          let d = d\<lparr>dir_buf := buffer\<rparr>; sz = dir_entry_size (sb s)
          in kbind (next_entry sz (dir_pos d) buffer [0..<512 div unat sz] cur) (\<lambda>r.
             case r of
               Inl cur \<Rightarrow> read_blocks dp i bs cur (put_dir dp d s)
             | Inr k \<Rightarrow> kbind (entry_at buffer k) (\<lambda>e. Inr (Some e, put_dir dp (d\<lparr>dir_pos := dir_pos d + sz\<rparr>) s)))))"

definition dir_read :: "dir_ptr \<Rightarrow> 'a fsys_scheme \<Rightarrow> (bytes option \<times> 'a fsys_scheme) kres" where
  "dir_read dp s =
     kbind (dir_inode dp s) (\<lambda>(_, i).
     kbind (all_blocks i s) (\<lambda>blocks.
     kbind (aget (i_sectors i) 12) (\<lambda>table.
     if dir_entry_size (sb s) = 0 then Inl Fault
     else read_blocks dp i (take (if table \<noteq> 0 then 140 else 12) blocks) 0 s)))"

section \<open>Removing a directory\<close>

definition dir_is_empty :: "dir_ptr \<Rightarrow> 'a fsys_scheme \<Rightarrow> bool kres" where
  "dir_is_empty dp s = kbind (dir_inode dp s) (\<lambda>(_, i). Inr (i_size i = dir_entry_size (sb s) * 2))"

definition dir_remove :: "dir_ptr \<Rightarrow> dir_ptr \<Rightarrow> 'a fsys_scheme \<Rightarrow> (int \<times> 'a fsys_scheme) kres" where
  "dir_remove parent_dir child_dir s =
     kbind (dir_inode child_dir s) (\<lambda>(_, i).
     kbind (kassert ''dir_remove'' (list_all (\<lambda>b. b = 0) (tl (i_sectors i)))) (\<lambda>_.
       let (io_buf, s) = kmalloc s
       in if io_buf = 0 then Inr (- 1, s)
          else kbind (delete_dir_entry parent_dir (i_no i) s) (\<lambda>(_, s).
               kbind (inode_release (i_no i) s) (\<lambda>s. Inr (0, s)))))"

end
