(* ===== verification/File.thy ===== *)
theory File
  imports Blocks Dir
begin

text \<open>
  \<^verbatim>\<open>fs/file.c\<close>: the table of open files, creating, opening and closing a file, and
  reading and writing its bytes.  A file is named by its index in \<^verbatim>\<open>file_table\<close>.
\<close>

section \<open>File descriptors\<close>

definition get_free_slot_in_global :: "'a fsys_scheme \<Rightarrow> int" where
  "get_free_slot_in_global s =
     (case List.find (\<lambda>k. fd_inode (file_table s ! k) = 0) [3..<MAX_FILE_OPEN] of None \<Rightarrow> - 1 | Some k \<Rightarrow> int k)"

definition pcb_fd_install :: "int \<Rightarrow> 'a fsys_scheme \<Rightarrow> (int \<times> 'a fsys_scheme) kres" where
  "pcb_fd_install globa_fd_idx s =
     kbind (get_task (running s) s) (\<lambda>cur.
     case List.find (\<lambda>k. fd_table cur ! k = - 1) [3..<MAX_FILES_OPEN_PER_PROC] of
       None \<Rightarrow> Inr (- 1, s)
     | Some k \<Rightarrow> Inr (int k, upd_task (running s) (\<lambda>t. t\<lparr>fd_table := (fd_table t)[k := globa_fd_idx]\<rparr>) s))"

section \<open>Creating, opening, closing\<close>

text \<open>The steps of the rollback: 3 clears the slot, 2 frees the i-node, 1 gives the number back.\<close>

definition create_rollback :: "nat \<Rightarrow> nat \<Rightarrow> u32 \<Rightarrow> u32 \<Rightarrow> 'a fsys_scheme \<Rightarrow> (int \<times> 'a fsys_scheme) kres" where
  "create_rollback step fd_idx p inode_no s =
     (let s = (if step \<ge> 3 then s\<lparr>file_table := (file_table s)[fd_idx := \<lparr>fd_pos = 0, fd_flag = 0, fd_inode = 0\<rparr>]\<rparr> else s);
          s = (if step \<ge> 2 then s\<lparr>inodes := (inodes s)(p := None)\<rparr> else s)
      in kbind (bitmap_set (inode_bitmap s) (unat inode_no) 0) (\<lambda>b. Inr (- 1, s\<lparr>inode_bitmap := b\<rparr>)))"

definition file_create :: "dir_ptr \<Rightarrow> bytes \<Rightarrow> u8 \<Rightarrow> 'a fsys_scheme \<Rightarrow> (int \<times> 'a fsys_scheme) kres" where
  "file_create parent_dir name flag s =
     (let (io_buf, s) = kmalloc s
      in if io_buf = 0 then Inr (- 1, s)
         else kbind (inode_bitmap_alloc s) (\<lambda>(inode_no, s).
           if inode_no = - 1 then Inr (- 1, s)
           else
             let (p, s) = kmalloc s
             in if p = 0 then create_rollback 1 0 0 inode_no s
                else
                  let s = put_inode p (inode_init inode_no) s;
                      fd_idx = get_free_slot_in_global s
                  in if fd_idx = - 1 then create_rollback 2 0 p inode_no s
                     else
                       let s = s\<lparr>file_table := (file_table s)[nat fd_idx := \<lparr>fd_pos = 0, fd_flag = ucast flag, fd_inode = p\<rparr>]\<rparr>
                       in kbind (create_dir_entry name inode_no 1 (replicate 24 0)) (\<lambda>new_dir_entry.
                          kbind (sync_dir_entry parent_dir new_dir_entry s) (\<lambda>(ok, s).
                          if \<not> ok then create_rollback 3 (nat fd_idx) p inode_no s
                          else
                            kbind (dir_inode parent_dir s) (\<lambda>(_, parent).
                            kbind (inode_sync parent s) (\<lambda>s.
                            kbind (get_inode p s) (\<lambda>i.
                            kbind (inode_sync i s) (\<lambda>s.
                            kbind (bitmap_sync inode_no INODE_BITMAP s) (\<lambda>s.
                              let s = put_inode p (i\<lparr>i_open_cnts := 1\<rparr>) (s\<lparr>open_inodes := p # open_inodes s\<rparr>)
                              in pcb_fd_install fd_idx s)))))))))"

definition file_open :: "u32 \<Rightarrow> u8 \<Rightarrow> 'a fsys_scheme \<Rightarrow> (int \<times> 'a fsys_scheme) kres" where
  "file_open inode_no flag s =
     (let fd_idx = get_free_slot_in_global s
      in if fd_idx = - 1 then Inr (- 1, s)
         else kbind (inode_open inode_no s) (\<lambda>(p, s).
           let s = s\<lparr>file_table := (file_table s)[nat fd_idx := \<lparr>fd_pos = 0, fd_flag = ucast flag, fd_inode = p\<rparr>]\<rparr>
           in kbind (get_inode p s) (\<lambda>i.
              if flag = 1 \<or> flag = 2 then
                if \<not> write_deny i then pcb_fd_install fd_idx (put_inode p (i\<lparr>write_deny := True\<rparr>) s)
                else Inr (- 1, s)
              else pcb_fd_install fd_idx s)))"

definition file_close :: "nat \<Rightarrow> 'a fsys_scheme \<Rightarrow> (int \<times> 'a fsys_scheme) kres" where
  "file_close fd s =
     kbind (aget (file_table s) fd) (\<lambda>f.
     kbind (get_inode (fd_inode f) s) (\<lambda>i.
     kbind (inode_close (fd_inode f) (put_inode (fd_inode f) (i\<lparr>write_deny := False\<rparr>) s)) (\<lambda>s.
     Inr (0, s\<lparr>file_table := (file_table s)[fd := f\<lparr>fd_inode := 0\<rparr>]\<rparr>))))"

section \<open>Writing\<close>

text \<open>The block of a file that is written for the first time; \<open>False\<close> is a full disk.\<close>

definition first_block :: "u32 \<Rightarrow> 'a fsys_scheme \<Rightarrow> (bool \<times> 'a fsys_scheme) kres" where
  "first_block p s =
     kbind (get_inode p s) (\<lambda>i.
     kbind (aget (i_sectors i) 0) (\<lambda>b0.
     if b0 = 0 then
       kbind (block_bitmap_alloc s) (\<lambda>(block_lba, s).
       if block_lba = - 1 then Inr (False, s)
       else kbind (set_sector p 0 block_lba s) (\<lambda>s.
            let block_bitmap_idx = block_lba - data_start_lba (sb s)
            in kbind (kassert ''file_write'' (block_bitmap_idx \<noteq> 0)) (\<lambda>_.
               kbind (bitmap_sync block_bitmap_idx BLOCK_BITMAP s) (\<lambda>s. Inr (True, s)))))
     else Inr (True, s)))"

text \<open>
  The three loops that allocate the blocks with the given indices; \<open>blocks\<close> is the array
  \<^verbatim>\<open>all_blocks\<close>.  Only the addresses of the first 12 go into the i-node.
\<close>

fun alloc_blocks :: "u32 \<Rightarrow> nat list \<Rightarrow> u32 list \<Rightarrow> 'a fsys_scheme \<Rightarrow> (u32 list option \<times> 'a fsys_scheme) kres" where
  "alloc_blocks p [] blocks s = Inr (Some blocks, s)"
| "alloc_blocks p (k # ks) blocks s =
     kbind (block_bitmap_alloc s) (\<lambda>(block_lba, s).
     if block_lba = - 1 then Inr (None, s)
     else kbind (if k < 12 then
                   kbind (get_inode p s) (\<lambda>i. kbind (aget (i_sectors i) k) (\<lambda>old.
                   kbind (kassert ''file_write'' (old = 0)) (\<lambda>_. set_sector p k block_lba s)))
                 else Inr s) (\<lambda>s.
          kbind (bitmap_sync (block_lba - data_start_lba (sb s)) BLOCK_BITMAP s) (\<lambda>s.
          alloc_blocks p ks (blocks[k := block_lba]) s)))"

text \<open>The addresses of the blocks that the new bytes go to, allocating the missing ones:
  \<open>has\<close> is the number of blocks in use, \<open>will\<close> the number needed.\<close>

definition write_blocks :: "u32 \<Rightarrow> nat \<Rightarrow> nat \<Rightarrow> 'a fsys_scheme \<Rightarrow> (u32 list option \<times> 'a fsys_scheme) kres" where
  "write_blocks p has will s =
     kbind (get_inode p s) (\<lambda>i.
     kbind (aget (i_sectors i) 12) (\<lambda>table.
       if will = has then
         if has \<le> 12 then kbind (aget (i_sectors i) (has - 1)) (\<lambda>b. Inr (Some ((replicate 140 0)[has - 1 := b]), s))
         else kbind (kassert ''file_write'' (table \<noteq> 0)) (\<lambda>_.
              kbind (disk_read table 1 s) (\<lambda>bs. Inr (Some (replicate 12 0 @ words_of bs), s)))
       else if will \<le> 12 then
         kbind (aget (i_sectors i) (has - 1)) (\<lambda>b.
         kbind (kassert ''file_write'' (b \<noteq> 0)) (\<lambda>_.
         alloc_blocks p [has..<will] ((replicate 140 0)[has - 1 := b]) s))
       else if has \<le> 12 then
         kbind (aget (i_sectors i) (has - 1)) (\<lambda>b.
         kbind (block_bitmap_alloc s) (\<lambda>(table, s).
         if table = - 1 then Inr (None, s)
         else kbind (get_inode p s) (\<lambda>i. kbind (aget (i_sectors i) 12) (\<lambda>old.
              kbind (kassert ''file_write'' (old = 0)) (\<lambda>_.
              kbind (set_sector p 12 table s) (\<lambda>s.
              kbind (alloc_blocks p [has..<will] ((replicate 140 0)[has - 1 := b]) s) (\<lambda>(blocks, s).
              case blocks of
                None \<Rightarrow> Inr (None, s)
              | Some blocks \<Rightarrow> kbind (disk_write table (bytes_of (drop 12 blocks)) 1 s) (\<lambda>s. Inr (Some blocks, s)))))))))
       else
         kbind (kassert ''file_write'' (table \<noteq> 0)) (\<lambda>_.
         kbind (disk_read table 1 s) (\<lambda>bs.
         kbind (alloc_blocks p [has..<will] (replicate 12 0 @ words_of bs) s) (\<lambda>(blocks, s).
         case blocks of
           None \<Rightarrow> Inr (None, s)
         | Some blocks \<Rightarrow> kbind (disk_write table (bytes_of (drop 12 blocks)) 1 s) (\<lambda>s. Inr (Some blocks, s)))))))"

text \<open>The loop that writes sector after sector: \<open>src\<close> are the bytes still to be written, of
  which there are \<open>size_left\<close>.\<close>

function write_loop :: "nat \<Rightarrow> u32 \<Rightarrow> u32 list \<Rightarrow> bool \<Rightarrow> bytes \<Rightarrow> nat \<Rightarrow> 'a fsys_scheme \<Rightarrow> 'a fsys_scheme kres" where
  "write_loop fd p blocks first src size_left s =
     (if size_left = 0 then Inr s
      else
        kbind (get_inode p s) (\<lambda>i.
          let sec_idx = unat (i_size i div BLOCK_SIZE);
              sec_off_bytes = unat (i_size i mod BLOCK_SIZE);
              sec_left_bytes = 512 - sec_off_bytes;
              chunk_size = (if size_left < sec_left_bytes then size_left else sec_left_bytes)
          in kbind (aget blocks sec_idx) (\<lambda>sec_lba.
             kbind (if first then disk_read sec_lba 1 s else Inr (replicate 512 0)) (\<lambda>io_buf.
             kbind (copy_bytes chunk_size src 0 io_buf sec_off_bytes) (\<lambda>io_buf.
             kbind (disk_write sec_lba io_buf 1 s) (\<lambda>s.
             kbind (aget (file_table s) fd) (\<lambda>f.
               let s = put_inode p (i\<lparr>i_size := i_size i + of_nat chunk_size\<rparr>)
                         (s\<lparr>file_table := (file_table s)[fd := f\<lparr>fd_pos := fd_pos f + of_nat chunk_size\<rparr>]\<rparr>)
               in if chunk_size = 0 then Inl Diverges
                  else write_loop fd p blocks False (drop chunk_size src) (size_left - chunk_size) s)))))))"
  by pat_completeness auto
termination
  by (relation "measure (\<lambda>(fd, p, blocks, first, src, size_left, s). size_left)") auto

declare write_loop.simps [simp del]

definition file_write :: "nat \<Rightarrow> bytes \<Rightarrow> u32 \<Rightarrow> 'a fsys_scheme \<Rightarrow> (int \<times> 'a fsys_scheme) kres" where
  "file_write fd src count s =
     kbind (aget (file_table s) fd) (\<lambda>f.
     kbind (get_inode (fd_inode f) s) (\<lambda>i.
     let p = fd_inode f
     in if i_size i + count > BLOCK_SIZE * 140 then Inr (- 1, s)
        else
          let (io_buf, s) = kmalloc s
          in if io_buf = 0 then Inr (- 1, s)
             else
               let (ab, s) = kmalloc s
               in if ab = 0 then Inr (- 1, s)
                  else
                    kbind (first_block p s) (\<lambda>(ok, s).
                    if \<not> ok then Inr (- 1, s)
                    else
                      let has = i_size i div BLOCK_SIZE + 1;
                          will = (i_size i + count) div BLOCK_SIZE + 1
                      in kbind (kassert ''file_write'' (will \<le> 140)) (\<lambda>_.
                         kbind (write_blocks p (unat has) (unat will) s) (\<lambda>(blocks, s).
                         case blocks of
                           None \<Rightarrow> Inr (- 1, s)
                         | Some blocks \<Rightarrow>
                             let s = s\<lparr>file_table := (file_table s)[fd := f\<lparr>fd_pos := i_size i - 1\<rparr>]\<rparr>
                             in kbind (write_loop fd p blocks True src (unat count) s) (\<lambda>s.
                                kbind (get_inode p s) (\<lambda>i.
                                kbind (inode_sync i s) (\<lambda>s. Inr (int (unat count), s)))))))))"

section \<open>Reading\<close>

text \<open>The addresses of the blocks that hold the bytes: \<open>lo\<close> and \<open>hi\<close> are block indices.\<close>

definition read_range_blocks :: "inode \<Rightarrow> nat \<Rightarrow> nat \<Rightarrow> 'a fsys_scheme \<Rightarrow> u32 list kres" where
  "read_range_blocks i lo hi s =
     kbind (aget (i_sectors i) 12) (\<lambda>table.
     if lo = hi then
       if hi < 12 then kbind (aget (i_sectors i) hi) (\<lambda>b. Inr ((replicate 140 0)[hi := b]))
       else kbind (disk_read table 1 s) (\<lambda>bs. Inr (replicate 12 0 @ words_of bs))
     else if hi < 12 then
       Inr (map (\<lambda>k. if lo \<le> k \<and> k \<le> hi then i_sectors i ! k else 0) [0..<140])
     else if lo < 12 then
       kbind (kassert ''file_read'' (table \<noteq> 0)) (\<lambda>_.
       kbind (disk_read table 1 s) (\<lambda>bs.
       Inr (map (\<lambda>k. if lo \<le> k then i_sectors i ! k else 0) [0..<12] @ words_of bs)))
     else
       kbind (kassert ''file_read'' (table \<noteq> 0)) (\<lambda>_.
       kbind (disk_read table 1 s) (\<lambda>bs. Inr (replicate 12 0 @ words_of bs))))"

function read_loop :: "nat \<Rightarrow> bool \<Rightarrow> u32 list \<Rightarrow> nat \<Rightarrow> 'a fsys_scheme \<Rightarrow> (bytes \<times> 'a fsys_scheme) kres" where
  "read_loop fd io_ok blocks size_left s =
     (if size_left = 0 then Inr ([], s)
      else
        kbind (aget (file_table s) fd) (\<lambda>f.
          let sec_idx = unat (fd_pos f div BLOCK_SIZE);
              sec_off_bytes = unat (fd_pos f mod BLOCK_SIZE);
              sec_left_bytes = 512 - sec_off_bytes;
              chunk_size = (if size_left < sec_left_bytes then size_left else sec_left_bytes)
          in kbind (aget blocks sec_idx) (\<lambda>sec_lba.
             kbind (kassert ''memset'' io_ok) (\<lambda>_.
             kbind (disk_read sec_lba 1 s) (\<lambda>io_buf.
             kbind (copy_bytes chunk_size io_buf sec_off_bytes (replicate chunk_size 0) 0) (\<lambda>piece.
             if chunk_size = 0 then Inl Diverges
             else kbind (read_loop fd io_ok blocks (size_left - chunk_size)
                          (s\<lparr>file_table := (file_table s)[fd := f\<lparr>fd_pos := fd_pos f + of_nat chunk_size\<rparr>]\<rparr>)) (\<lambda>(rest, s).
                  Inr (piece @ rest, s))))))))"
  by pat_completeness auto
termination
  by (relation "measure (\<lambda>(fd, io_ok, blocks, size_left, s). size_left)") auto

declare read_loop.simps [simp del]

text \<open>The result is the return value with the bytes stored in \<^verbatim>\<open>buf\<close>.\<close>

definition file_read :: "nat \<Rightarrow> u32 \<Rightarrow> 'a fsys_scheme \<Rightarrow> (int \<times> bytes \<times> 'a fsys_scheme) kres" where
  "file_read fd count s =
     kbind (aget (file_table s) fd) (\<lambda>f.
     kbind (get_inode (fd_inode f) s) (\<lambda>i.
     let size = (if fd_pos f + count > i_size i then i_size i - fd_pos f else count)
     in if fd_pos f + count > i_size i \<and> size = 0 then Inr (- 1, [], s)
        else
          let (io_buf, s) = kmalloc s; (ab, s) = kmalloc s
          in if ab = 0 then Inr (- 1, [], s)
             else
               let lo = fd_pos f div BLOCK_SIZE; hi = (fd_pos f + size) div BLOCK_SIZE
               in kbind (kassert ''file_read'' (lo < 139 \<and> hi < 139)) (\<lambda>_.
                  kbind (read_range_blocks i (unat lo) (unat hi) s) (\<lambda>blocks.
                  kbind (read_loop fd (io_buf \<noteq> 0) blocks (unat size) s) (\<lambda>(bs, s).
                  kbind (kassert ''sys_free'' (io_buf \<noteq> 0)) (\<lambda>_.
                  Inr (int (unat size), bs, s)))))))"

end
