(* ===== verification/Fs_Path.thy ===== *)
theory Fs_Path
  imports File
begin

text \<open>
  Paths of \<^verbatim>\<open>fs/fs.c\<close>: taking the names out of a path and walking through the directories.  A path is a
  string without its terminating zero.

  Two local arrays of the source are not initialised: the name in \<^verbatim>\<open>path_depth_cnt\<close> and the
  directory entry in \<^verbatim>\<open>search_file\<close>.  What they contain is a parameter.
\<close>

record path_search_record =
  searched_path :: bytes
  parent_dir :: dir_ptr
  file_type :: u32

section \<open>Names of a path\<close>

fun skip_slashes :: "bytes \<Rightarrow> bytes" where
  "skip_slashes [] = []"
| "skip_slashes (c # cs) = (if c = 47 then skip_slashes cs else c # cs)"

fun store_name :: "bytes \<Rightarrow> bytes \<Rightarrow> nat \<Rightarrow> (bytes \<times> bytes) kres" where
  "store_name [] name_store k = Inr ([], name_store)"
| "store_name (c # cs) name_store k =
     (if c \<noteq> 47 then kbind (aset name_store k c) (\<lambda>name_store. store_name cs name_store (Suc k)) else Inr (c # cs, name_store))"

text \<open>The result is the rest of the path, \<open>None\<close> for \<^verbatim>\<open>NULL\<close>, and the contents of \<^verbatim>\<open>name_store\<close>.\<close>

definition path_parse :: "bytes \<Rightarrow> bytes \<Rightarrow> (bytes option \<times> bytes) kres" where
  "path_parse pathname name_store =
     (let pathname = (case pathname of [] \<Rightarrow> [] | c # cs \<Rightarrow> if c = 47 then skip_slashes cs else c # cs)
      in kbind (store_name pathname name_store 0) (\<lambda>(pathname, name_store).
         Inr (if pathname = [] then None else Some pathname, name_store)))"

lemma length_skip_slashes: "length (skip_slashes cs) \<le> length cs"
  by (induction cs) auto

lemma length_store_name: "store_name cs st k = Inr (r, st') \<Longrightarrow> length r \<le> length cs \<and> (cs \<noteq> [] \<and> cs ! 0 \<noteq> 47 \<longrightarrow> length r < length cs) \<and> length st' = length st"
  by (induction cs arbitrary: st k) (fastforce simp: aset_eq_Inr split: if_splits)+

lemma path_parse_shorter:
  assumes "path_parse p st = Inr (Some r, st')"
  shows "length r < length p"
proof (cases p)
  case Nil
  then show ?thesis using assms by (auto simp: path_parse_def)
next
  case (Cons c cs)
  then show ?thesis
    using assms length_skip_slashes [of cs] by (auto simp: path_parse_def split: if_splits dest!: length_store_name)
qed

definition read_name :: "bytes option \<Rightarrow> (bytes option \<times> bytes) kres" where
  "read_name sub_path = (case sub_path of None \<Rightarrow> Inr (None, replicate MAX_FILE_NAME_LEN 0) | Some p \<Rightarrow> path_parse p (replicate MAX_FILE_NAME_LEN 0))"

text \<open>What is left of the walk through a path: decreases with every name taken.\<close>

definition left :: "bytes option \<Rightarrow> bytes \<Rightarrow> nat" where
  "left sub_path name = (case sub_path of None \<Rightarrow> if name ! 0 = 0 then 0 else 1 | Some p \<Rightarrow> length p + 2)"

lemma read_name_left:
  assumes "read_name p = Inr (p', name')" "name ! 0 \<noteq> 0"
  shows "left p' name' < left p name"
proof (cases p)
  case None
  then have "p' = None" "name' ! 0 = 0" using assms(1) by (auto simp: read_name_def MAX_FILE_NAME_LEN_def)
  then show ?thesis using None assms(2) by (simp add: left_def)
next
  case (Some q)
  then show ?thesis using assms path_parse_shorter [of q _ _ name'] by (cases p') (auto simp: read_name_def left_def)
qed

function depth_loop :: "bytes option \<Rightarrow> bytes \<Rightarrow> u32 \<Rightarrow> u32 kres" where
  "depth_loop p name depth =
     kbind (aget name 0) (\<lambda>c.
     if c \<noteq> 0 then kbind (read_name p) (\<lambda>(p, name). depth_loop p name (depth + 1))
     else Inr depth)"
  by pat_completeness auto
termination
  by (relation "measure (\<lambda>(p, name, depth). left p name)") (auto simp: aget_eq_Inr intro: read_name_left)

declare depth_loop.simps [simp del]

text \<open>\<open>name\<close> is what the local array contains at the start.\<close>

definition path_depth_cnt :: "bytes \<Rightarrow> bytes \<Rightarrow> u32 kres" where
  "path_depth_cnt name pathname = kbind (path_parse pathname name) (\<lambda>(p, name). depth_loop p name 0)"

section \<open>Walking through the directories\<close>

text \<open>The string in the array \<^verbatim>\<open>name\<close>; without a zero it runs on behind the array.\<close>

definition cstring :: "bytes \<Rightarrow> bytes kres" where
  "cstring name = (if 0 \<in> set name then Inr (takeWhile (\<lambda>c. c \<noteq> 0) name) else Inl Fault)"

text \<open>\<^verbatim>\<open>strcat\<close> to a string in an array of \<open>n\<close> bytes.\<close>

definition cat_string :: "nat \<Rightarrow> bytes \<Rightarrow> bytes \<Rightarrow> bytes kres" where
  "cat_string n dst src = (if length dst + length src < n then Inr (dst @ src) else Inl Fault)"

function search_loop :: "bytes option \<Rightarrow> bytes \<Rightarrow> dir_ptr \<Rightarrow> path_search_record \<Rightarrow> u32 \<Rightarrow> bytes \<Rightarrow> 'a fsys_scheme \<Rightarrow>
    (u32 \<times> path_search_record \<times> 'a fsys_scheme) kres" where
  "search_loop sub_path name pdir rec parent_inode_no dir_e s =
     kbind (aget name 0) (\<lambda>c.
     if c \<noteq> 0 then
       kbind (kassert ''search_file'' (length (searched_path rec) < 512)) (\<lambda>_.
       kbind (cstring name) (\<lambda>nm.
       kbind (cat_string MAX_PATH_LEN (searched_path rec) [47]) (\<lambda>sp.
       kbind (cat_string MAX_PATH_LEN sp nm) (\<lambda>sp.
       let rec = rec\<lparr>searched_path := sp\<rparr>
       in kbind (search_dir_entry pdir nm s) (\<lambda>(found, s).
          case found of
            None \<Rightarrow> Inr (- 1, rec, s)
          | Some dir_e \<Rightarrow>
              kbind (read_name sub_path) (\<lambda>(sub_path, name).
              if de_type dir_e = FT_DIRECTORY then
                kbind (dir_inode pdir s) (\<lambda>(_, i).
                kbind (dir_close pdir s) (\<lambda>s.
                kbind (dir_open (de_ino dir_e) s) (\<lambda>(pdir, s).
                search_loop sub_path name pdir (rec\<lparr>parent_dir := pdir\<rparr>) (i_no i) dir_e s)))
              else if de_type dir_e = FT_REGULAR then Inr (de_ino dir_e, rec\<lparr>file_type := FT_REGULAR\<rparr>, s)
              else search_loop sub_path name pdir rec parent_inode_no dir_e s))))))
     else
       kbind (dir_close (parent_dir rec) s) (\<lambda>s.
       kbind (dir_open parent_inode_no s) (\<lambda>(pdir, s).
       Inr (de_ino dir_e, rec\<lparr>parent_dir := pdir, file_type := FT_DIRECTORY\<rparr>, s))))"
  by pat_completeness auto
termination
  by (relation "measure (\<lambda>(sub_path, name, pdir, rec, pno, dir_e, s). left sub_path name)") (auto simp: aget_eq_Inr intro: read_name_left)

declare search_loop.simps [simp del]

text \<open>
  The record is cleared by every caller before; its directory is set before it is used.  \<open>dir_e\<close> is
  the directory entry as it is before the first search.
\<close>

definition search_file :: "bytes \<Rightarrow> bytes \<Rightarrow> 'a fsys_scheme \<Rightarrow> (u32 \<times> path_search_record \<times> 'a fsys_scheme) kres" where
  "search_file dir_e pathname s =
     (if pathname = [47] \<or> pathname = [47, 46] \<or> pathname = [47, 46, 46]
      then Inr (0, \<lparr>searched_path = [], parent_dir = Root_dir, file_type = FT_DIRECTORY\<rparr>, s)
      else
        kbind (kassert ''search_file'' (pathname \<noteq> [] \<and> hd pathname = 47 \<and> length pathname > 1 \<and> length pathname < MAX_PATH_LEN)) (\<lambda>_.
        kbind (path_parse pathname (replicate MAX_FILE_NAME_LEN 0)) (\<lambda>(sub_path, name).
        search_loop sub_path name Root_dir \<lparr>searched_path = [], parent_dir = Root_dir, file_type = FT_UNKNOWN\<rparr> 0 dir_e s)))"

section \<open>The names of a path\<close>

fun split_path :: "bytes \<Rightarrow> bytes list" where
  "split_path [] = [[]]"
| "split_path (c # cs) = (if c = 47 then [] # split_path cs else case split_path cs of [] \<Rightarrow> [[c]] | n # ns \<Rightarrow> (c # n) # ns)"

definition names :: "bytes \<Rightarrow> bytes list" where
  "names p = filter (\<lambda>n. n \<noteq> []) (split_path p)"

definition not_slash :: "u8 \<Rightarrow> bool" where "not_slash c \<longleftrightarrow> c \<noteq> 47"

lemma not_slash_simps [simp]: "\<not> not_slash 47" "c \<noteq> 47 \<Longrightarrow> not_slash c"
  by (simp_all add: not_slash_def)

lemma names_Nil [simp]: "names [] = []"
  by (simp add: names_def)

lemma split_path_hd: "split_path p = takeWhile not_slash p # (if dropWhile not_slash p = [] then [] else split_path (tl (dropWhile not_slash p)))"
  by (induction p) auto

lemma names_slash: "names (47 # p) = names p"
  by (simp add: names_def)

lemma names_skip: "names (skip_slashes p) = names p"
  by (induction p) (auto simp: names_slash)

lemma skip_slashes_first: "skip_slashes p = c # cs \<Longrightarrow> c \<noteq> 47"
  by (induction p) (auto split: if_splits)

lemma names_first:
  assumes "p \<noteq> []" "hd p \<noteq> 47"
  shows "names p = takeWhile not_slash p # names (dropWhile not_slash p)"
proof -
  have t: "takeWhile not_slash p \<noteq> []" using assms by (cases p) auto
  show ?thesis
  proof (cases "dropWhile not_slash p")
    case Nil
    then show ?thesis using t split_path_hd [of p] by (simp add: names_def del: dropWhile_eq_Nil_conv)
  next
    case (Cons c cs)
    then have "c = 47" using hd_dropWhile [of not_slash p] by (auto simp: not_slash_def)
    then show ?thesis using t Cons split_path_hd [of p] by (simp add: names_def)
  qed
qed

lemma store_name_spec:
  "store_name p st k =
     (if k + length (takeWhile not_slash p) \<le> length st \<or> takeWhile not_slash p = []
      then Inr (dropWhile not_slash p, overwrite k (takeWhile not_slash p) st) else Inl Fault)"
proof (induction p arbitrary: st k)
  case (Cons c cs)
  show ?case
  proof (cases "c = 47 \<or> length st \<le> k")
    case True
    then show ?thesis by (auto simp: aset_def)
  next
    case False
    then show ?thesis using Cons.IH [of "st[k := c]" "Suc k"]
      by (cases "takeWhile not_slash cs = []") (auto simp: overwrite_Cons)
  qed
qed simp

lemma path_parse_spec:
  "path_parse p st =
     (let q = skip_slashes p; name = takeWhile not_slash q; rest = dropWhile not_slash q
      in if length name \<le> length st then Inr (if rest = [] then None else Some rest, overwrite 0 name st) else Inl Fault)"
proof -
  have "(case p of [] \<Rightarrow> [] | c # cs \<Rightarrow> if c = 47 then skip_slashes cs else c # cs) = skip_slashes p" by (cases p) simp_all
  then show ?thesis by (auto simp: path_parse_def store_name_spec Let_def)
qed

definition names_of :: "bytes option \<Rightarrow> bytes list" where
  "names_of p = (case p of None \<Rightarrow> [] | Some p \<Rightarrow> names p)"

lemma path_parse_names:
  assumes p: "0 \<notin> set p" "\<forall>n\<in>set (names p). length n \<le> 16" and st: "length st = 16"
  shows "\<exists>p' name. path_parse p st = Inr (p', name) \<and> length name = 16 \<and> (\<forall>q. p' = Some q \<longrightarrow> 0 \<notin> set q)
    \<and> (if names p = [] then name = st \<and> names_of p' = [] else name ! 0 \<noteq> 0 \<and> names p = takeWhile not_slash (skip_slashes p) # names_of p')"
proof -
  let ?q = "skip_slashes p"
  have sub: "set ?q \<subseteq> set p" by (induction p) auto
  show ?thesis
  proof (cases "?q")
    case Nil
    then have "names p = []" using names_skip [of p] by (simp add: names_def)
    then show ?thesis using Nil st by (simp add: path_parse_spec names_of_def)
  next
    case (Cons c cs)
    have c: "c \<noteq> 47" by (rule skip_slashes_first [OF Cons])
    let ?n = "takeWhile not_slash ?q" and ?r = "dropWhile not_slash ?q"
    have nm: "names p = ?n # names ?r" using names_first [of ?q] Cons c names_skip [of p] by simp
    have n: "?n \<noteq> []" "?n ! 0 = c" "length ?n \<le> 16" using Cons c nm p(2) by auto
    have "c \<noteq> 0" using sub Cons p(1) by auto
    then have "overwrite 0 ?n st ! 0 \<noteq> 0" using n st by (simp add: nth_overwrite)
    moreover have "0 \<notin> set ?r" using sub p(1) set_dropWhileD [of 0 not_slash ?q] by auto
    moreover have "names_of (if ?r = [] then None else Some ?r) = names ?r" by (cases "?r = []") (simp_all add: names_of_def del: dropWhile_eq_Nil_conv)
    ultimately show ?thesis using n nm st by (simp add: path_parse_spec Let_def)
  qed
qed

lemma read_name_spec:
  assumes "\<forall>q. p = Some q \<longrightarrow> 0 \<notin> set q" "\<forall>n\<in>set (names_of p). length n \<le> 16"
  shows "\<exists>p' name. read_name p = Inr (p', name) \<and> length name = 16 \<and> (\<forall>q. p' = Some q \<longrightarrow> 0 \<notin> set q)
    \<and> (if names_of p = [] then name ! 0 = 0 \<and> names_of p' = [] else name ! 0 \<noteq> 0 \<and> (\<exists>n. names_of p = n # names_of p'))"
proof (cases p)
  case None
  then show ?thesis by (simp add: read_name_def names_of_def MAX_FILE_NAME_LEN_def)
next
  case (Some q)
  then show ?thesis
    using path_parse_names [of q "replicate 16 0"] assms by (auto simp: read_name_def names_of_def MAX_FILE_NAME_LEN_def split: if_splits)
qed

lemma depth_loop_spec:
  "\<forall>q. p = Some q \<longrightarrow> 0 \<notin> set q \<Longrightarrow> \<forall>n\<in>set (names_of p). length n \<le> 16 \<Longrightarrow> length name = 16 \<Longrightarrow>
   depth_loop p name d = Inr (if name ! 0 = 0 then d else d + 1 + of_nat (length (names_of p)))"
proof (induction "left p name" arbitrary: p name d rule: less_induct)
  case less
  show ?case
  proof (cases "name ! 0 = 0")
    case True
    then show ?thesis using less.prems by (simp add: depth_loop.simps [of p])
  next
    case False
    obtain p' name' where R: "read_name p = Inr (p', name')" "length name' = 16" "\<forall>q. p' = Some q \<longrightarrow> 0 \<notin> set q"
      "if names_of p = [] then name' ! 0 = 0 \<and> names_of p' = [] else name' ! 0 \<noteq> 0 \<and> (\<exists>n. names_of p = n # names_of p')"
      using read_name_spec [OF less.prems(1,2)] by blast
    have "depth_loop p' name' (d + 1) = Inr (if name' ! 0 = 0 then d + 1 else d + 1 + 1 + of_nat (length (names_of p')))"
    proof (rule less.hyps [OF read_name_left [OF R(1) False] R(3) _ R(2)])
      show "\<forall>n\<in>set (names_of p'). length n \<le> 16" using R(4) less.prems(2) by (auto split: if_splits)
    qed
    then show ?thesis using False R(1,4) less.prems(3) by (auto simp: depth_loop.simps [of p name] split: if_splits)
  qed
qed

text \<open>C36.  The depth of a path is the number of its names, however many slashes stand between them, in
  front and at the end; this needs a first name, since otherwise the result depends on the
  uninitialised array.  A first name of more than 16 bytes is written beyond the array.\<close>

theorem path_depth_counts_names:
  assumes p: "0 \<notin> set p" and st: "length st = 16" and ne: "names p \<noteq> []"
  shows "((\<forall>n\<in>set (names p). length n \<le> 16) \<longrightarrow> path_depth_cnt st p = Inr (of_nat (length (names p))))
    \<and> (16 < length (hd (names p)) \<longrightarrow> path_depth_cnt st p = Inl Fault)"
proof (intro conjI impI)
  assume "\<forall>n\<in>set (names p). length n \<le> 16"
  then obtain p' name where P: "path_parse p st = Inr (p', name)" "length name = 16" "\<forall>q. p' = Some q \<longrightarrow> 0 \<notin> set q"
    "name ! 0 \<noteq> 0" "names p = takeWhile not_slash (skip_slashes p) # names_of p'"
    using path_parse_names [OF p _ st] ne by auto
  have "\<forall>n\<in>set (names_of p'). length n \<le> 16" using \<open>\<forall>n\<in>set (names p). length n \<le> 16\<close> P(5) by simp
  then show "path_depth_cnt st p = Inr (of_nat (length (names p)))"
    using depth_loop_spec [OF P(3) _ P(2), of 0] P by (simp add: path_depth_cnt_def)
next
  assume l: "16 < length (hd (names p))"
  obtain c cs where q: "skip_slashes p = c # cs" using ne names_skip [of p] by (cases "skip_slashes p") (auto simp: names_def)
  then have "hd (names p) = takeWhile not_slash (skip_slashes p)"
    using names_first [of "skip_slashes p"] skip_slashes_first [OF q] names_skip [of p] q by (metis list.discI list.sel(1))
  then show "path_depth_cnt st p = Inl Fault" using l st by (simp add: path_depth_cnt_def path_parse_spec Let_def)
qed

theorem path_depth_counts_names_witness:
  "path_depth_cnt (replicate 16 7) [47, 97, 47, 47, 98, 99, 47] = Inr 2
    \<and> path_depth_cnt (replicate 16 7) [47, 97, 97, 97, 97, 97, 97, 97, 97, 97, 97, 97, 97, 97, 97, 97, 97, 97] = Inl Fault"
proof -
  let ?l = "[97, 97, 97, 97, 97, 97, 97, 97, 97, 97, 97, 97, 97, 97, 97, 97, 97]"
  have "names [47, 97, 47, 47, 98, 99, 47] = [[97], [98, 99]]" "names (47 # ?l) = [?l]" by (simp_all add: names_def)
  then show ?thesis
    using path_depth_counts_names [of "[47, 97, 47, 47, 98, 99, 47]" "replicate 16 7"] path_depth_counts_names [of "47 # ?l" "replicate 16 7"]
    by simp
qed

end
