(* ===== verification/File_Bytes.thy ===== *)
theory File_Bytes
  imports File
begin

text \<open>
  A file as a string of bytes: what \<^verbatim>\<open>file_write\<close> and \<^verbatim>\<open>file_read\<close> do to the contents of
  a file, through its direct blocks and the blocks of its table.
\<close>

section \<open>Bytes of a list of sectors\<close>

definition cat :: "media \<Rightarrow> u32 list \<Rightarrow> bytes" where
  "cat m B = concat (map m B)"

lemma cat_Nil [simp]: "cat m [] = []"
  by (simp add: cat_def)

lemma cat_Cons: "cat m (b # B) = m b @ cat m B"
  by (simp add: cat_def)

lemma cat_append: "cat m (B @ C) = cat m B @ cat m C"
  by (simp add: cat_def)

lemma length_cat [simp]: "media_ok m \<Longrightarrow> length (cat m B) = 512 * length B"
  by (induction B) (simp_all add: cat_Cons)

lemma cat_cong: "(\<And>b. b \<in> set B \<Longrightarrow> m b = m' b) \<Longrightarrow> cat m B = cat m' B"
  by (induction B) (simp_all add: cat_Cons)

lemma take_cat:
  assumes "media_ok m" "j < length B" "off \<le> 512"
  shows "take (512 * j + off) (cat m B) = cat m (take j B) @ take off (m (B ! j))"
proof -
  have "cat m B = cat m (take j B) @ m (B ! j) @ cat m (drop (Suc j) B)"
    by (metis cat_append cat_Cons id_take_nth_drop [OF assms(2)])
  then show ?thesis using assms by simp
qed

lemma drop_cat:
  assumes "media_ok m" "j < length B" "off \<le> 512"
  shows "drop (512 * j + off) (cat m B) = drop off (m (B ! j)) @ cat m (drop (Suc j) B)"
proof -
  have "cat m B = cat m (take j B) @ m (B ! j) @ cat m (drop (Suc j) B)"
    by (metis cat_append cat_Cons id_take_nth_drop [OF assms(2)])
  then show ?thesis using assms by simp
qed

lemma div_mod_512: "z = 512 * (z div 512) + z mod 512" for z :: nat
  by simp

text \<open>Writing a piece into the block that holds position \<open>z\<close>: only what is in front of the
  position must be known of the old block.\<close>

lemma cat_write_chunk:
  assumes m: "media_ok m" and j: "z div 512 < length B" and c: "z mod 512 + length xs \<le> 512"
    and old: "length old = 512" "take (z mod 512) old = take (z mod 512) (m (B ! (z div 512)))"
    and dist: "\<And>k. k < z div 512 \<Longrightarrow> B ! k \<noteq> B ! (z div 512)"
  shows "take (z + length xs) (cat (m(B ! (z div 512) := overwrite (z mod 512) xs old)) B) = take z (cat m B) @ xs"
proof -
  let ?j = "z div 512" and ?o = "z mod 512"
  let ?new = "overwrite ?o xs old" let ?m = "m(B ! ?j := ?new)"
  have mo: "media_ok ?m" using m old c by (simp add: media_ok_def)
  have pre: "cat ?m (take ?j B) = cat m (take ?j B)"
  proof (rule cat_cong)
    fix b assume "b \<in> set (take ?j B)"
    then obtain k where "k < ?j" "b = B ! k" by (auto simp: in_set_conv_nth)
    then show "?m b = m b" using dist by auto
  qed
  have "z + length xs = 512 * ?j + (?o + length xs)" by simp
  then have "take (z + length xs) (cat ?m B) = cat m (take ?j B) @ take (?o + length xs) ?new"
    using take_cat [OF mo j c] pre by simp
  also have "take (?o + length xs) ?new = take ?o (m (B ! ?j)) @ xs"
    using old c m mod_less_divisor [of 512 z] by (simp add: overwrite_def)
  also have "cat m (take ?j B) @ take ?o (m (B ! ?j)) @ xs = take z (cat m B) @ xs"
    using take_cat [OF m j, of ?o] by simp
  finally show ?thesis .
qed

section \<open>The writing loop\<close>

lemma fs_layout_upd [simp]:
  "fs_layout (s\<lparr>inodes := im\<rparr>) = fs_layout s" "fs_layout (s\<lparr>file_table := ft\<rparr>) = fs_layout s" "fs_layout (s\<lparr>heap := hp\<rparr>) = fs_layout s"
  "fs_layout (s\<lparr>open_inodes := oi\<rparr>) = fs_layout s" "fs_layout (s\<lparr>root_dir := rd\<rparr>) = fs_layout s" "fs_layout (s\<lparr>dirs := ds\<rparr>) = fs_layout s"
  by (simp_all add: fs_layout_def)

lemma fs_layout_sectors: "fs_layout s \<Longrightarrow> media_ok m \<Longrightarrow> fs_layout (s\<lparr>sectors := m\<rparr>)"
  by (simp add: fs_layout_def)

lemma block_used_upd [simp]:
  "block_used (s\<lparr>inodes := im\<rparr>) b = block_used s b" "block_used (s\<lparr>file_table := ft\<rparr>) b = block_used s b" "block_used (s\<lparr>heap := hp\<rparr>) b = block_used s b"
  "block_used (s\<lparr>open_inodes := oi\<rparr>) b = block_used s b" "block_used (s\<lparr>sectors := m\<rparr>) b = block_used s b"
  by (simp_all add: block_used_def data_lba_def)

text \<open>The state after \<open>n\<close> more bytes.\<close>

definition written :: "nat \<Rightarrow> u32 \<Rightarrow> inode \<Rightarrow> open_file \<Rightarrow> nat \<Rightarrow> media \<Rightarrow> 'a fsys_scheme \<Rightarrow> 'a fsys_scheme" where
  "written fd p i f n m s = s\<lparr>sectors := m, file_table := (file_table s)[fd := f\<lparr>fd_pos := fd_pos f + of_nat n\<rparr>],
     inodes := (inodes s)(p \<mapsto> i\<lparr>i_size := i_size i + of_nat n\<rparr>)\<rparr>"

lemma written_0: "inodes s p = Some i \<Longrightarrow> fd < length (file_table s) \<Longrightarrow> file_table s ! fd = f \<Longrightarrow> written fd p i f 0 (sectors s) s = s"
  by (auto simp: written_def fun_upd_idem list_update_same_conv)

lemma written_written:
  "written fd p (i\<lparr>i_size := i_size i + of_nat n\<rparr>) (f\<lparr>fd_pos := fd_pos f + of_nat n\<rparr>) k m' (written fd p i f n m s) = written fd p i f (n + k) m' s"
  by (simp add: written_def add.assoc)

lemma unat_div_mod_block: "unat (x div BLOCK_SIZE) = unat x div 512" "unat (x mod BLOCK_SIZE) = unat x mod 512"
  by (simp_all add: BLOCK_SIZE_def unat_div unat_mod)

lemma write_loop_spec:
  assumes B: "length B = 140" "n \<le> 140" "distinct (take n B)"
  shows "fs_layout s \<Longrightarrow> \<forall>k<n. block_used s (B ! k) \<Longrightarrow> inodes s p = Some i \<Longrightarrow> fd < length (file_table s) \<Longrightarrow> file_table s ! fd = f \<Longrightarrow>
    unat (i_size i) = z \<Longrightarrow> z + r < 512 * n \<Longrightarrow> r \<le> length src \<Longrightarrow> length blocks = 140 \<Longrightarrow> \<forall>k. z div 512 \<le> k \<and> k < n \<longrightarrow> blocks ! k = B ! k \<Longrightarrow>
    first \<or> z mod 512 = 0 \<or> r = 0 \<Longrightarrow>
    \<exists>m. write_loop fd p blocks first src r s = Inr (written fd p i f r m s) \<and> media_ok m
      \<and> take (z + r) (cat m B) = take z (cat (sectors s) B) @ take r src \<and> (\<forall>l. l \<notin> set (take n B) \<longrightarrow> m l = sectors s l)"
proof (induction r arbitrary: s i f z src first rule: less_induct)
  case (less r)
  show ?case
  proof (cases "r = 0")
    case True
    have "written fd p i f 0 (sectors s) s = s" by (rule written_0 [OF less.prems(3-5)])
    then show ?thesis using True less.prems(1) by (intro exI [of _ "sectors s"]) (simp add: write_loop.simps)
  next
    case False
    define j where "j = z div 512" define off where "off = z mod 512"
    define c where "c = (if r < 512 - off then r else 512 - off)"
    have off: "off < 512" by (simp add: off_def)
    have c: "0 < c" "c \<le> r" "off + c \<le> 512" "off + c = 512 \<or> c = r" using False off by (auto simp: c_def)
    have zj: "z = 512 * j + off" by (simp add: j_def off_def)
    have jn: "j < n" using less.prems(7) zj by linarith
    have j140: "j < 140" using jn B(2) by simp
    have bj: "blocks ! j = B ! j" using less.prems(10) jn by (simp add: j_def)
    have used: "block_used s (B ! j)" using less.prems(2) jn by simp
    have mo: "media_ok (sectors s)" using less.prems(1) by simp
    define old where "old = (if first then sectors s (B ! j) else replicate 512 0)"
    have old: "length old = 512" "take off old = take off (sectors s (B ! j))"
      using mo less.prems(11) False by (auto simp: old_def off_def)
    define new where "new = overwrite off (take c src) old"
    have ln: "length (take c src) = c" using c(2) less.prems(8) by simp
    then have new: "length new = 512" using old(1) c(3) by (simp add: new_def)
    let ?m = "(sectors s)(B ! j := new)"
    let ?s = "written fd p i f c ?m s"
    let ?i = "i\<lparr>i_size := i_size i + of_nat c\<rparr>" and ?f = "f\<lparr>fd_pos := fd_pos f + of_nat c\<rparr>"
    have mo': "media_ok ?m" using mo new by (simp add: media_ok_def)
    have dist: "B ! k \<noteq> B ! j" if "k < j" for k
      using that jn B nth_eq_iff_index_eq [OF B(3), of k j] by simp
    have step: "write_loop fd p blocks first src r s = write_loop fd p blocks False (drop c src) (r - c) ?s"
    proof -
      have rd: "(if first then disk_read (B ! j) 1 s else Inr (replicate 512 0)) = Inr old"
        using block_used_io(1) [OF less.prems(1) used] by (simp add: old_def)
      have wr: "disk_write (B ! j) new 1 s = Inr (s\<lparr>sectors := ?m\<rparr>)"
        by (rule block_used_io(2) [OF less.prems(1) used new])
      have cp: "copy_bytes c src 0 old off = Inr new"
        using c less.prems(8) old(1) by (simp add: copy_bytes_def new_def)
      have gi: "get_inode p s = Inr i" using less.prems(3) by (simp add: get_inode_def)
      show ?thesis
        unfolding write_loop.simps [of fd p blocks first src r s] gi Let_def unat_div_mod_block less.prems(6) kbind_Inr
          j_def [symmetric] off_def [symmetric] c_def [symmetric]
        using False c(1) j140 less.prems(4,5,9) rd wr cp by (simp add: bj put_inode_def written_def)
    qed
    have z1: "unat (i_size ?i) = z + c"
      using less.prems(6,7) c(2) B(2) unat_of_nat_u32 [of "z + c"] by auto
    have IH: "\<exists>m. write_loop fd p blocks False (drop c src) (r - c) ?s = Inr (written fd p ?i ?f (r - c) m ?s) \<and> media_ok m
      \<and> take (z + c + (r - c)) (cat m B) = take (z + c) (cat (sectors ?s) B) @ take (r - c) (drop c src) \<and> (\<forall>l. l \<notin> set (take n B) \<longrightarrow> m l = sectors ?s l)"
    proof (rule less.IH [of "r - c" ?s ?i ?f "z + c" "drop c src" False])
      show "r - c < r" using c by simp
      show "fs_layout ?s" using less.prems(1) mo' by (simp add: written_def fs_layout_sectors)
      show "\<forall>k<n. block_used ?s (B ! k)" using less.prems(2) by (simp add: written_def)
      show "inodes ?s p = Some ?i" "fd < length (file_table ?s)" "file_table ?s ! fd = ?f" using less.prems(4) by (simp_all add: written_def)
      show "unat (i_size ?i) = z + c" by (rule z1)
      show "z + c + (r - c) < 512 * n" "r - c \<le> length (drop c src)" using c(2) less.prems(7,8) by simp_all
      show "length blocks = 140" by (rule less.prems(9))
      have "j \<le> (z + c) div 512" using zj by simp
      then show "\<forall>k. (z + c) div 512 \<le> k \<and> k < n \<longrightarrow> blocks ! k = B ! k" using less.prems(10) by (simp add: j_def)
      have "z + c = 512 * Suc j \<or> c = r" using c(4) zj by auto
      then show "False \<or> (z + c) mod 512 = 0 \<or> r - c = 0" by (auto simp del: mult_Suc_right)
    qed
    then obtain m where m: "write_loop fd p blocks False (drop c src) (r - c) ?s = Inr (written fd p ?i ?f (r - c) m ?s)" "media_ok m"
      "take (z + r) (cat m B) = take (z + c) (cat ?m B) @ take (r - c) (drop c src)" "\<forall>l. l \<notin> set (take n B) \<longrightarrow> m l = ?m l"
      using c(2) by (auto simp: written_def)
    have "take (z + c) (cat ?m B) = take z (cat (sectors s) B) @ take c src"
      using cat_write_chunk [OF mo, of z B "take c src" old] j140 B(1) c(3) ln old dist
      by (simp add: j_def [symmetric] off_def [symmetric] new_def)
    then have "take (z + r) (cat m B) = take z (cat (sectors s) B) @ take r src"
      using m(3) c(2) take_add [of c "r - c" src] by simp
    moreover have "B ! j \<in> set (take n B)" using jn B(1,2) by (auto simp: in_set_conv_nth)
    then have "\<forall>l. l \<notin> set (take n B) \<longrightarrow> m l = sectors s l" using m(4) by auto
    ultimately show ?thesis using m(1,2) step c(2) by (intro exI [of _ m]) (simp add: written_written)
  qed
qed

section \<open>Allocation\<close>

text \<open>The state after blocks have been taken for the file: new bitmap, i-node and sectors.\<close>

definition grown :: "u32 \<Rightarrow> inode \<Rightarrow> bitmap \<Rightarrow> media \<Rightarrow> 'a fsys_scheme \<Rightarrow> 'a fsys_scheme" where
  "grown p i b m s = s\<lparr>block_bitmap := b, inodes := (inodes s)(p \<mapsto> i), sectors := m\<rparr>"

lemma grown_grown [simp]: "grown p i' b' m' (grown p i b m s) = grown p i' b' m' s"
  by (simp add: grown_def)

lemma grown_sel [simp]:
  "inodes (grown p i b m s) p = Some i" "block_bitmap (grown p i b m s) = b" "sectors (grown p i b m s) = m" "sb (grown p i b m s) = sb s"
  "data_lba (grown p i b m s) = data_lba s" "in_data (grown p i b m s) l = in_data s l" "in_table (grown p i b m s) l = in_table s l"
  "file_table (grown p i b m s) = file_table s" "heap (grown p i b m s) = heap s" "get_inode p (grown p i b m s) = Inr i"
  by (simp_all add: grown_def data_lba_def in_data_def in_table_def fun_eq_iff get_inode_def)

lemma grown_self: "inodes s p = Some i \<Longrightarrow> grown p i (block_bitmap s) (sectors s) s = s"
  by (auto simp: grown_def fun_upd_idem)

lemma disk_write_inodes: "disk_write l src n (s\<lparr>inodes := im\<rparr>) = kbind (disk_write l src n s) (\<lambda>s. Inr (s\<lparr>inodes := im\<rparr>))"
  by (cases "l \<le> max_lba"; cases "disk_range l n"; cases "0 < n"; simp add: disk_write_def)

lemma bitmap_sync_inodes:
  "bitmap_sync k t (s\<lparr>inodes := im\<rparr>) = kbind (bitmap_sync k t s) (\<lambda>s. Inr (s\<lparr>inodes := im\<rparr>))"
  by (cases t) (simp_all add: bitmap_sync_def Let_def disk_write_inodes)

definition free_count :: "'a fsys_scheme \<Rightarrow> nat" where
  "free_count s = card ({..<bcap (block_bitmap s)} - bset (block_bitmap s))"

text \<open>One block from the bitmap, with the bitmap written back; the i-node may have been
  changed in between.\<close>

lemma take_block:
  assumes s: "fs_layout s" and i: "inodes s p = Some i" and free: "0 < free_count s"
  obtains k b m where "block_bitmap_alloc s = Inr (data_lba s k, s\<lparr>block_bitmap := b\<rparr>)"
    "\<And>i'. bitmap_sync (data_lba s k - data_start_lba (sb s)) BLOCK_BITMAP (put_inode p i' (s\<lparr>block_bitmap := b\<rparr>)) = Inr (grown p i' b m s)"
    "k < bcap (block_bitmap s)" "k \<notin> bset (block_bitmap s)" "bset b = insert k (bset (block_bitmap s))"
    "btmp_bytes_len b = btmp_bytes_len (block_bitmap s)" "\<And>i'. fs_layout (grown p i' b m s)" "meta_only s m" "0 < k"
    "\<And>i'. free_count (grown p i' b m s) = free_count s - 1"
proof -
  have "bset (block_bitmap s) \<noteq> {..<bcap (block_bitmap s)}"
  proof
    assume "bset (block_bitmap s) = {..<bcap (block_bitmap s)}"
    then have "free_count s = 0" unfolding free_count_def by (simp only: Diff_cancel card.empty)
    then show False using free by simp
  qed
  then obtain k b where k: "block_bitmap_alloc s = Inr (data_lba s k, s\<lparr>block_bitmap := b\<rparr>)" "k < bcap (block_bitmap s)" "k \<notin> bset (block_bitmap s)"
    "bset b = insert k (bset (block_bitmap s))" "btmp_bytes_len b = btmp_bytes_len (block_bitmap s)" "fs_layout (s\<lparr>block_bitmap := b\<rparr>)" "0 < k"
    by (rule block_bitmap_alloc_spec [OF s])
  obtain m where m: "bitmap_sync (of_nat k) BLOCK_BITMAP (s\<lparr>block_bitmap := b\<rparr>) = Inr (s\<lparr>block_bitmap := b, sectors := m\<rparr>)"
    "fs_layout (s\<lparr>block_bitmap := b, sectors := m\<rparr>)" "meta_only (s\<lparr>block_bitmap := b\<rparr>) m"
    by (rule bitmap_sync_block [OF k(6), of k]) (use k(2,5) in simp_all)
  have sy: "bitmap_sync (data_lba s k - data_start_lba (sb s)) BLOCK_BITMAP (put_inode p i' (s\<lparr>block_bitmap := b\<rparr>)) = Inr (grown p i' b m s)" for i'
    using m(1) by (simp add: put_inode_def bitmap_sync_inodes data_lba_def grown_def)
  have ly: "fs_layout (grown p i' b m s)" for i'
  proof -
    have "grown p i' b m s = s\<lparr>block_bitmap := b, sectors := m, inodes := (inodes s)(p \<mapsto> i')\<rparr>" by (simp add: grown_def)
    then show ?thesis using m(2) by (simp only: fs_layout_upd)
  qed
  have "{..<bcap (block_bitmap s)} - bset b = ({..<bcap (block_bitmap s)} - bset (block_bitmap s)) - {k}" using k(4) by auto
  then have fc: "free_count (grown p i' b m s) = free_count s - 1" for i'
    using k(2,3,5) by (simp add: free_count_def)
  show thesis by (rule that [OF k(1) sy k(2,3,4,5) ly _ k(7) fc]) (use m(3) in \<open>simp add: meta_only_def in_data_def in_table_def\<close>)
qed

lemma meta_only_trans: "meta_only s m \<Longrightarrow> meta_only (grown p i b m s) m' \<Longrightarrow> meta_only s m'"
  by (simp add: meta_only_def)

end
