(* ===== verification/File_Ops.thy ===== *)
theory File_Ops
  imports File_Bytes
begin

text \<open>
  What \<^verbatim>\<open>file_write\<close> and \<^verbatim>\<open>file_read\<close> do to a file as a string of bytes: writing appends,
  reading returns a part.
\<close>

section \<open>Allocating the blocks of a file\<close>

text \<open>The state in which the blocks with the indices \<open>K\<close> have been taken for the file.\<close>

definition allocated :: "u32 \<Rightarrow> nat list \<Rightarrow> bitmap \<Rightarrow> media \<Rightarrow> 'a fsys_scheme \<Rightarrow> bool" where
  "allocated p K b m s \<longleftrightarrow> distinct K \<and> set K \<subseteq> {0<..<bcap (block_bitmap s)} - bset (block_bitmap s)
     \<and> bset b = bset (block_bitmap s) \<union> set K \<and> btmp_bytes_len b = btmp_bytes_len (block_bitmap s)
     \<and> (\<forall>i'. fs_layout (grown p i' b m s)) \<and> meta_only s m \<and> (\<forall>i'. free_count (grown p i' b m s) = free_count s - length K)"

lemma grown_state: "fs_layout (grown p i b m s) \<longleftrightarrow> fs_layout (s\<lparr>block_bitmap := b, sectors := m\<rparr>)"
proof -
  have "grown p i b m s = s\<lparr>block_bitmap := b, sectors := m, inodes := (inodes s)(p \<mapsto> i)\<rparr>" by (simp add: grown_def)
  then show ?thesis by (simp only: fs_layout_upd)
qed

lemma allocated_Nil:
  assumes "fs_layout s"
  shows "allocated p [] (block_bitmap s) (sectors s) s"
proof -
  have "s\<lparr>block_bitmap := block_bitmap s, sectors := sectors s\<rparr> = s" by simp
  then have "fs_layout (grown p i (block_bitmap s) (sectors s) s)" for i using assms by (simp only: grown_state)
  moreover have "free_count (grown p i (block_bitmap s) (sectors s) s) = free_count s" for i by (simp add: free_count_def)
  ultimately show ?thesis by (simp add: allocated_def meta_only_def)
qed

lemma take_block_allocated:
  assumes "fs_layout s" "inodes s p = Some i" "0 < free_count s"
  shows "\<exists>k b m. block_bitmap_alloc s = Inr (data_lba s k, s\<lparr>block_bitmap := b\<rparr>) \<and> allocated p [k] b m s
    \<and> (\<forall>i'. bitmap_sync (data_lba s k - data_start_lba (sb s)) BLOCK_BITMAP (put_inode p i' (s\<lparr>block_bitmap := b\<rparr>)) = Inr (grown p i' b m s))"
  by (rule take_block [OF assms]) (auto simp: allocated_def)

lemma allocated_Cons:
  assumes "allocated p [k] b m s" "allocated p K b2 m2 (grown p i b m s)"
  shows "allocated p (k # K) b2 m2 s"
  using assms meta_only_trans [of s m p i b m2] unfolding allocated_def by (simp, blast)

lemma allocated_used:
  assumes s: "fs_layout s" and K: "allocated p K b m s" and k: "k \<in> set K"
  shows "block_used (grown p i b m' s) (data_lba s k)" "\<not> block_used s (data_lba s k)" "data_lba s k \<noteq> 0" "data_lba s k \<noteq> - 1"
    "in_data s (data_lba s k)"
proof -
  have kb: "k < bcap (block_bitmap s)" "k \<notin> bset (block_bitmap s)" "k \<in> bset b" using K k by (auto simp: allocated_def)
  have u: "unat (data_lba s k) < 163840" using fs_layoutD(12) [OF s kb(1,2)] data_lba_unat [OF s kb(1)] by simp
  then show "block_used (grown p i b m' s) (data_lba s k)" using kb(3) unfolding block_used_def by auto
  have "\<not> (\<exists>j\<in>bset (block_bitmap s). data_lba s k = data_lba s j)"
    using kb data_lba_inj [OF s] bset_subset [of "block_bitmap s"] by (metis inj_onD lessThan_iff subsetD)
  then show "\<not> block_used s (data_lba s k)" unfolding block_used_def by blast
  show "data_lba s k \<noteq> 0" "data_lba s k \<noteq> - 1" "in_data s (data_lba s k)" by (rule data_lba_bounds [OF s kb(1)])+
qed

lemma allocated_distinct: "fs_layout s \<Longrightarrow> allocated p K b m s \<Longrightarrow> distinct (map (data_lba s) K)"
  unfolding allocated_def by (auto simp: distinct_map intro!: inj_on_subset [OF data_lba_inj])

lemma alloc_blocks_spec:
  "a \<le> n \<Longrightarrow> n \<le> 140 \<Longrightarrow> fs_layout s \<Longrightarrow> inodes s p = Some i \<Longrightarrow> length (i_sectors i) = 13 \<Longrightarrow>
   \<forall>k. a \<le> k \<and> k < 12 \<longrightarrow> i_sectors i ! k = 0 \<Longrightarrow> n - a \<le> free_count s \<Longrightarrow> length blocks = 140 \<Longrightarrow>
   \<exists>K b m. alloc_blocks p [a..<n] blocks s = Inr (Some (overwrite a (map (data_lba s) K) blocks),
        grown p (i\<lparr>i_sectors := overwrite a (take (12 - a) (map (data_lba s) K)) (i_sectors i)\<rparr>) b m s)
     \<and> length K = n - a \<and> allocated p K b m s"
proof (induction "n - a" arbitrary: a s i blocks)
  case 0
  have "i\<lparr>i_sectors := i_sectors i\<rparr> = i" by (cases i) simp
  then have "grown p (i\<lparr>i_sectors := i_sectors i\<rparr>) (block_bitmap s) (sectors s) s = s" using grown_self [OF 0(5)] by (simp only:)
  then show ?case using 0(1,2) allocated_Nil [OF 0(4)]
    by (intro exI [of _ "[]"] exI [of _ "block_bitmap s"] exI [of _ "sectors s"]) simp
next
  case (Suc d)
  have an: "a < n" using Suc(2) by simp
  have f: "0 < free_count s" using Suc(9) an by simp
  obtain k b m where T: "block_bitmap_alloc s = Inr (data_lba s k, s\<lparr>block_bitmap := b\<rparr>)" "allocated p [k] b m s"
    "\<forall>i'. bitmap_sync (data_lba s k - data_start_lba (sb s)) BLOCK_BITMAP (put_inode p i' (s\<lparr>block_bitmap := b\<rparr>)) = Inr (grown p i' b m s)"
    using take_block_allocated [OF Suc(5,6) f] by blast
  let ?l = "data_lba s k"
  define i1 where "i1 = (if a < 12 then i\<lparr>i_sectors := (i_sectors i)[a := ?l]\<rparr> else i)"
  let ?s1 = "grown p i1 b m s"
  have l: "?l \<noteq> - 1" by (rule allocated_used [OF Suc(5) T(2)]) simp
  have step: "alloc_blocks p [a..<n] blocks s = alloc_blocks p [Suc a..<n] (blocks[a := ?l]) ?s1"
  proof -
    have gi: "get_inode p (s\<lparr>block_bitmap := b\<rparr>) = Inr i" using Suc(6) by (simp add: get_inode_def)
    have "(if a < 12 then kbind (get_inode p (s\<lparr>block_bitmap := b\<rparr>)) (\<lambda>i. kbind (aget (i_sectors i) a) (\<lambda>old.
        kbind (kassert ''file_write'' (old = 0)) (\<lambda>_. set_sector p a ?l (s\<lparr>block_bitmap := b\<rparr>)))) else Inr (s\<lparr>block_bitmap := b\<rparr>))
      = Inr (put_inode p i1 (s\<lparr>block_bitmap := b\<rparr>))"
    proof (cases "a < 12")
      case True
      then show ?thesis using Suc(7,8) by (simp add: gi i1_def set_sector_def)
    next
      case False
      have "inodes s = (inodes s)(p \<mapsto> i)" using Suc(6) by (simp add: fun_upd_idem)
      then show ?thesis using False by (simp add: i1_def put_inode_def)
    qed
    moreover have "sb (put_inode p i1 (s\<lparr>block_bitmap := b\<rparr>)) = sb s" by (simp add: put_inode_def)
    ultimately show ?thesis using T(1,3) l by (simp add: upt_conv_Cons [OF an])
  qed
  have H: "d = n - Suc a" "Suc a \<le> n" "n - Suc a \<le> free_count ?s1"
    using Suc(2,9) an T(2) by (simp_all add: allocated_def)
  have H2: "length (i_sectors i1) = 13" "\<forall>k. Suc a \<le> k \<and> k < 12 \<longrightarrow> i_sectors i1 ! k = 0"
    using Suc(7,8) by (auto simp: i1_def)
  have s1: "fs_layout ?s1" using T(2) by (simp add: allocated_def)
  obtain K b2 m2 where I: "alloc_blocks p [Suc a..<n] (blocks[a := ?l]) ?s1 = Inr (Some (overwrite (Suc a) (map (data_lba s) K) (blocks[a := ?l])),
        grown p (i1\<lparr>i_sectors := overwrite (Suc a) (take (12 - Suc a) (map (data_lba s) K)) (i_sectors i1)\<rparr>) b2 m2 s)"
    "length K = n - Suc a" "allocated p K b2 m2 ?s1"
    using Suc(1) [OF H(1,2) Suc(4) s1 _ H2 H(3), of "blocks[a := ?l]"] Suc(10) unfolding grown_sel grown_grown by auto
  have "i1\<lparr>i_sectors := overwrite (Suc a) (take (12 - Suc a) (map (data_lba s) K)) (i_sectors i1)\<rparr>
      = i\<lparr>i_sectors := overwrite a (take (12 - a) (map (data_lba s) (k # K))) (i_sectors i)\<rparr>"
  proof (cases "a < 12")
    case True
    have e: "12 - a = Suc (12 - Suc a)" using True by simp
    have "a + min (length K) (12 - Suc a) \<le> 12" using True by simp
    then show ?thesis using True Suc(7) overwrite_Cons [of a ?l "take (12 - Suc a) (map (data_lba s) K)" "i_sectors i"]
      unfolding e by (simp add: i1_def)
  next
    case False
    then show ?thesis by (simp add: i1_def)
  qed
  moreover have "overwrite (Suc a) (map (data_lba s) K) (blocks[a := ?l]) = overwrite a (map (data_lba s) (k # K)) blocks"
    using overwrite_Cons [of a ?l "map (data_lba s) K" blocks] Suc(4,10) I(2) an by simp
  ultimately have "alloc_blocks p [a..<n] blocks s = Inr (Some (overwrite a (map (data_lba s) (k # K)) blocks),
        grown p (i\<lparr>i_sectors := overwrite a (take (12 - a) (map (data_lba s) (k # K))) (i_sectors i)\<rparr>) b2 m2 s)"
    using step I(1) by (simp only:)
  moreover have "length (k # K) = n - a" using I(2) an by simp
  ultimately show ?case using allocated_Cons [OF T(2) I(3)] by blast
qed

section \<open>The blocks of a file\<close>

text \<open>The array of the 140 block addresses of a file: 12 in the i-node, the others in the
  block the i-node names last.\<close>

definition file_map :: "media \<Rightarrow> inode \<Rightarrow> u32 list" where
  "file_map m i = take 12 (i_sectors i) @ words_of (m (i_sectors i ! 12))"

lemma length_file_map [simp]: "media_ok m \<Longrightarrow> length (i_sectors i) = 13 \<Longrightarrow> length (file_map m i) = 140"
  by (simp add: file_map_def)

lemma nth_file_map:
  assumes "length (i_sectors i) = 13"
  shows "k < 12 \<Longrightarrow> file_map m i ! k = i_sectors i ! k" "12 \<le> k \<Longrightarrow> file_map m i ! k = words_of (m (i_sectors i ! 12)) ! (k - 12)"
  using assms by (simp_all add: file_map_def nth_append)

text \<open>The first \<open>n\<close> blocks belong to the file, each once; the other entries of the i-node
  are zero.\<close>

definition blocks_ok :: "'a fsys_scheme \<Rightarrow> inode \<Rightarrow> nat \<Rightarrow> bool" where
  "blocks_ok s i n \<longleftrightarrow> n \<le> 140 \<and> length (i_sectors i) = 13
     \<and> list_all (block_used s) (take n (file_map (sectors s) i)) \<and> distinct (take n (file_map (sectors s) i))
     \<and> (\<forall>k. n \<le> k \<and> k < 12 \<longrightarrow> i_sectors i ! k = 0)
     \<and> (if n \<le> 12 then i_sectors i ! 12 = 0
        else block_used s (i_sectors i ! 12) \<and> i_sectors i ! 12 \<notin> set (take n (file_map (sectors s) i)))"

lemma block_used_grown:
  assumes "block_used s l" "bset (block_bitmap s) \<subseteq> bset b"
  shows "block_used (grown p i b m s) l"
  using assms unfolding block_used_def by auto

text \<open>The result of \<^verbatim>\<open>file_write\<close> collecting the blocks for its data.\<close>

definition got :: "u32 \<Rightarrow> inode \<Rightarrow> nat \<Rightarrow> nat \<Rightarrow> 'a fsys_scheme \<Rightarrow> u32 list \<Rightarrow> inode \<Rightarrow> bitmap \<Rightarrow> media \<Rightarrow> bool" where
  "got p i has will s blocks i' b m \<longleftrightarrow> length blocks = 140
     \<and> (\<forall>k. has - 1 \<le> k \<and> k < will \<longrightarrow> blocks ! k = file_map m i' ! k) \<and> i' = i\<lparr>i_sectors := i_sectors i'\<rparr>
     \<and> fs_layout (grown p i' b m s) \<and> blocks_ok (grown p i' b m s) i' will
     \<and> take has (file_map m i') = take has (file_map (sectors s) i) \<and> bset (block_bitmap s) \<subseteq> bset b
     \<and> (\<forall>l\<in>set (take will (file_map m i')). l \<in> set (take has (file_map (sectors s) i)) \<or> \<not> block_used s l)
     \<and> (\<forall>l. block_used s l \<and> l \<noteq> i_sectors i ! 12 \<or> in_table s l \<longrightarrow> m l = sectors s l)"

lemma gotI:
  assumes s: "fs_layout s" and ok: "blocks_ok s i has" and w: "has \<le> will" "will \<le> 140" and K: "allocated p K b m s"
    and X: "take will (file_map m' i') = take has (file_map (sectors s) i) @ X" "distinct X" "set X \<subseteq> data_lba s ` set K"
    and i': "length (i_sectors i') = 13" "i' = i\<lparr>i_sectors := i_sectors i'\<rparr>" "\<forall>k. will \<le> k \<and> k < 12 \<longrightarrow> i_sectors i' ! k = 0"
    and m': "media_ok m'" "\<forall>l. l \<noteq> i_sectors i' ! 12 \<longrightarrow> m' l = m l"
    and t: "if will \<le> 12 then i_sectors i' ! 12 = 0 \<and> m' = m
            else if has \<le> 12 then i_sectors i' ! 12 \<in> data_lba s ` set K - set X else i_sectors i' ! 12 = i_sectors i ! 12"
    and B: "length blocks = 140" "\<forall>k. has - 1 \<le> k \<and> k < will \<longrightarrow> blocks ! k = file_map m' i' ! k"
  shows "got p i has will s blocks i' b m'"
proof -
  let ?s = "grown p i' b m' s" let ?F = "take has (file_map (sectors s) i)" let ?t = "i_sectors i' ! 12"
  have mono: "bset (block_bitmap s) \<subseteq> bset b" and mo: "meta_only s m" using K by (simp_all add: allocated_def)
  have new: "block_used ?s l \<and> \<not> block_used s l \<and> in_data s l" if "l \<in> data_lba s ` set K" for l
    using that allocated_used [OF s K] by auto
  have old: "list_all (block_used s) ?F" "distinct ?F" using ok by (simp_all add: blocks_ok_def)
  have lay: "fs_layout ?s"
  proof -
    have "fs_layout (grown p i' b m s)" using K by (simp add: allocated_def)
    then have "fs_layout ((grown p i' b m s)\<lparr>sectors := m'\<rparr>)" using m'(1) by (rule fs_layout_sectors)
    then show ?thesis by (simp add: grown_def)
  qed
  have used: "list_all (block_used ?s) (?F @ X)"
    using old(1) new X(3) block_used_grown [OF _ mono, of _ p i' m'] by (auto simp: list_all_iff)
  have disj: "\<not> block_used s l" if "l \<in> set X" for l using that new X(3) by blast
  have dist: "distinct (?F @ X)" using old disj X(2) by (auto simp: list_all_iff)
  have tab: "if will \<le> 12 then ?t = 0 else block_used ?s ?t \<and> ?t \<notin> set (?F @ X)"
  proof (cases "12 < has")
    case True
    then have h: "block_used s (i_sectors i ! 12)" "i_sectors i ! 12 \<notin> set ?F" using ok by (simp_all add: blocks_ok_def)
    moreover have "i_sectors i ! 12 \<notin> set X" using h(1) disj by blast
    ultimately show ?thesis using True t w block_used_grown [OF _ mono, of _ p i' m'] by simp
  next
    case False
    then show ?thesis using t new [of ?t] old(1) by (auto simp: list_all_iff split: if_splits)
  qed
  have ok': "blocks_ok ?s i' will" using w(2) i'(1,3) used dist tab unfolding blocks_ok_def grown_sel X(1) by blast
  have frame: "m' l = sectors s l" if "block_used s l \<and> l \<noteq> i_sectors i ! 12 \<or> in_table s l" for l
  proof -
    have d: "in_data s l \<or> in_table s l" using that block_used_data [OF s] by auto
    have "l \<noteq> ?t \<or> m' = m"
    proof (cases "will \<le> 12")
      case True then show ?thesis using t by simp
    next
      case False
      have "block_used s l \<Longrightarrow> l \<noteq> ?t" using that t new False in_table_not_data [OF s] block_used_data [OF s] by (auto split: if_splits)
      moreover have "in_data s ?t" using False t new ok block_used_data [OF s] by (auto simp: blocks_ok_def split: if_splits)
      ultimately show ?thesis using that in_table_not_data [OF s] by blast
    qed
    then have "m' l = m l" using m'(2) by auto
    then show ?thesis using mo d unfolding meta_only_def by metis
  qed
  have "length ?F = has" using s ok w by (simp add: blocks_ok_def)
  then have "take has (file_map m' i') = ?F" using X(1) w(1) by (metis append_eq_conv_conj min.absorb1 take_take)
  moreover have "\<forall>l\<in>set (take will (file_map m' i')). l \<in> set ?F \<or> \<not> block_used s l" using disj unfolding X(1) by auto
  ultimately show ?thesis using B i'(2) lay ok' mono frame by (simp add: got_def)
qed

lemma take_table_block:
  assumes s: "fs_layout s" and free: "0 < free_count s"
  shows "\<exists>k b. block_bitmap_alloc s = Inr (data_lba s k, s\<lparr>block_bitmap := b\<rparr>) \<and> allocated p [k] b (sectors s) s"
proof -
  have "bset (block_bitmap s) \<noteq> {..<bcap (block_bitmap s)}"
    using free unfolding free_count_def by (metis Diff_cancel card.empty less_irrefl)
  then obtain k b where k: "block_bitmap_alloc s = Inr (data_lba s k, s\<lparr>block_bitmap := b\<rparr>)" "k < bcap (block_bitmap s)" "k \<notin> bset (block_bitmap s)"
    "bset b = insert k (bset (block_bitmap s))" "btmp_bytes_len b = btmp_bytes_len (block_bitmap s)" "fs_layout (s\<lparr>block_bitmap := b\<rparr>)" "0 < k"
    by (rule block_bitmap_alloc_spec [OF s])
  have "s\<lparr>block_bitmap := b, sectors := sectors s\<rparr> = s\<lparr>block_bitmap := b\<rparr>" by simp
  then have "fs_layout (grown p i b (sectors s) s)" for i using k(6) by (simp only: grown_state)
  moreover have "{..<bcap (block_bitmap s)} - bset b = ({..<bcap (block_bitmap s)} - bset (block_bitmap s)) - {k}" using k(4) by auto
  then have "free_count (grown p i b (sectors s) s) = free_count s - 1" for i
    using k(2,3,5) by (simp add: free_count_def)
  ultimately have "allocated p [k] b (sectors s) s" using k(2-5,7) by (simp add: allocated_def meta_only_def)
  then show ?thesis using k(1) by blast
qed

lemma write_blocks_same:
  assumes s: "fs_layout s" and i: "inodes s p = Some i" and ok: "blocks_ok s i has" and h: "0 < has"
  shows "\<exists>blocks. write_blocks p has has s = Inr (Some blocks, s) \<and> got p i has has s blocks i (block_bitmap s) (sectors s)"
proof -
  have L: "length (i_sectors i) = 13" "has \<le> 140" using ok by (simp_all add: blocks_ok_def)
  have gi: "get_inode p s = Inr i" using i by (simp add: get_inode_def)
  define blocks where "blocks = (if has \<le> 12 then (replicate 140 0)[has - 1 := i_sectors i ! (has - 1)]
     else replicate 12 0 @ words_of (sectors s (i_sectors i ! 12)))"
  have "write_blocks p has has s = Inr (Some blocks, s)"
  proof (cases "has \<le> 12")
    case True
    then show ?thesis using L h by (simp add: write_blocks_def gi blocks_def)
  next
    case False
    then have u: "block_used s (i_sectors i ! 12)" using ok by (simp add: blocks_ok_def)
    then show ?thesis using False L block_used_io(1) [OF s u] block_used_data [OF s u] by (simp add: write_blocks_def gi blocks_def)
  qed
  moreover have "got p i has has s blocks i (block_bitmap s) (sectors s)"
  proof (rule gotI [OF s ok le_refl L(2) allocated_Nil [OF s], where X = "[]"])
    show "length blocks = 140" using s by (simp add: blocks_def)
    show "\<forall>k. has - 1 \<le> k \<and> k < has \<longrightarrow> blocks ! k = file_map (sectors s) i ! k"
    proof (intro allI impI)
      fix k assume "has - 1 \<le> k \<and> k < has"
      then have k: "k = has - 1" "k < has" by linarith+
      then show "blocks ! k = file_map (sectors s) i ! k"
        using L by (cases "has \<le> 12") (auto simp: nth_file_map blocks_def nth_append)
    qed
    show "i = i\<lparr>i_sectors := i_sectors i\<rparr>" by (cases i) simp
  qed (use s ok L in \<open>auto simp: blocks_ok_def split: if_splits\<close>)
  ultimately show ?thesis by blast
qed

text \<open>Splitting the array of block addresses at the blocks in use.\<close>

lemma take_file_map_append:
  assumes "length F = 140" "length F' = 140" "has \<le> will" "will \<le> 140" "length X = will - has"
    "\<And>k. k < has \<Longrightarrow> F' ! k = F ! k" "\<And>k. has \<le> k \<Longrightarrow> k < will \<Longrightarrow> F' ! k = X ! (k - has)"
  shows "take will F' = take has F @ X"
  using assms by (intro list_eq_nthI) (auto simp: nth_append)

lemma write_blocks_direct:
  assumes s: "fs_layout s" and i: "inodes s p = Some i" and ok: "blocks_ok s i has" and h: "0 < has" "has < will" "will \<le> 12"
    and free: "will - has \<le> free_count s"
  shows "\<exists>blocks i' b m. write_blocks p has will s = Inr (Some blocks, grown p i' b m s) \<and> got p i has will s blocks i' b m"
proof -
  have L: "length (i_sectors i) = 13" "has \<le> 140" and z: "\<forall>k. has \<le> k \<and> k < 12 \<longrightarrow> i_sectors i ! k = 0" "i_sectors i ! 12 = 0"
    using ok h by (simp_all add: blocks_ok_def)
  have F: "length (file_map (sectors s) i) = 140" using s L by simp
  have gi: "get_inode p s = Inr i" using i by (simp add: get_inode_def)
  let ?b0 = "(replicate 140 0)[has - 1 := i_sectors i ! (has - 1)]"
  obtain K b m where A: "alloc_blocks p [has..<will] ?b0 s = Inr (Some (overwrite has (map (data_lba s) K) ?b0),
        grown p (i\<lparr>i_sectors := overwrite has (take (12 - has) (map (data_lba s) K)) (i_sectors i)\<rparr>) b m s)"
    "length K = will - has" "allocated p K b m s"
    using alloc_blocks_spec [of has will s p i ?b0] h s i L z free by auto
  let ?X = "map (data_lba s) K" let ?i = "i\<lparr>i_sectors := overwrite has ?X (i_sectors i)\<rparr>"
  have tk: "take (12 - has) ?X = ?X" using A(2) h by simp
  have "i_sectors i ! (has - 1) \<in> set (take has (file_map (sectors s) i))"
    using h F nth_file_map(1) [OF L(1), of "has - 1" "sectors s"] by (auto simp: in_set_conv_nth intro!: exI [of _ "has - 1"])
  then have "i_sectors i ! (has - 1) \<noteq> 0" using ok block_used_data [OF s] by (auto simp: blocks_ok_def list_all_iff)
  then have "write_blocks p has will s = Inr (Some (overwrite has ?X ?b0), grown p ?i b m s)"
    using A(1) h L unfolding tk by (simp add: write_blocks_def gi)
  moreover have lx: "length (i_sectors ?i) = 13" and mo: "media_ok m"
    using L A h fs_layout_media [of "grown p i b m s"] by (auto simp: allocated_def)
  have "got p i has will s (overwrite has ?X ?b0) ?i b m"
  proof (rule gotI [OF s ok _ _ A(3), where X = ?X])
    show "take will (file_map m ?i) = take has (file_map (sectors s) i) @ ?X"
      using h A(2) F lx mo L by (intro take_file_map_append) (simp_all add: nth_file_map nth_overwrite)
    show "\<forall>k. has - 1 \<le> k \<and> k < will \<longrightarrow> overwrite has ?X ?b0 ! k = file_map m ?i ! k"
    proof (intro allI impI)
      fix k assume k: "has - 1 \<le> k \<and> k < will"
      then have "k = has - 1 \<or> has \<le> k" by linarith
      then show "overwrite has ?X ?b0 ! k = file_map m ?i ! k" using k h A(2) L lx by (auto simp: nth_file_map nth_overwrite)
    qed
    show "distinct ?X" by (rule allocated_distinct [OF s A(3)])
  qed (use h A(2) L z mo in \<open>auto simp: nth_overwrite\<close>)
  ultimately show ?thesis by blast
qed

text \<open>Writing the table of blocks back.\<close>

lemma table_write:
  assumes "fs_layout (grown p i b m s)" "block_used (grown p i b m s) t" "length blocks = 140"
  shows "disk_write t (bytes_of (drop 12 blocks)) 1 (grown p i b m s) = Inr (grown p i b (m(t := bytes_of (drop 12 blocks))) s)"
    "media_ok (m(t := bytes_of (drop 12 blocks)))"
  using block_used_io(2) [OF assms(1,2), of "bytes_of (drop 12 blocks)"] fs_layout_media [OF assms(1)] assms(3)
  by (simp_all add: grown_def media_ok_def)

lemma file_map_table:
  assumes "length (i_sectors i) = 13" "length blocks = 140"
  shows "k < 12 \<Longrightarrow> file_map (m(i_sectors i ! 12 := bytes_of (drop 12 blocks))) i ! k = i_sectors i ! k"
    "12 \<le> k \<Longrightarrow> k < 140 \<Longrightarrow> file_map (m(i_sectors i ! 12 := bytes_of (drop 12 blocks))) i ! k = blocks ! k"
  using assms by (simp_all add: nth_file_map)

lemma write_blocks_indirect:
  assumes s: "fs_layout s" and i: "inodes s p = Some i" and ok: "blocks_ok s i has" and h: "12 < has" "has < will" "will \<le> 140"
    and free: "will - has \<le> free_count s"
  shows "\<exists>blocks b m. write_blocks p has will s = Inr (Some blocks, grown p i b m s) \<and> got p i has will s blocks i b m"
proof -
  let ?t = "i_sectors i ! 12"
  have L: "length (i_sectors i) = 13" "has \<le> 140" and u: "block_used s ?t" using ok h by (simp_all add: blocks_ok_def)
  have F: "length (file_map (sectors s) i) = 140" using s L by simp
  have gi: "get_inode p s = Inr i" using i by (simp add: get_inode_def)
  let ?b0 = "replicate 12 0 @ words_of (sectors s ?t)"
  have b0: "length ?b0 = 140" using s by simp
  have zv: "\<forall>k. has \<le> k \<and> k < 12 \<longrightarrow> i_sectors i ! k = 0" using h by auto
  obtain K b m where A0: "alloc_blocks p [has..<will] ?b0 s = Inr (Some (overwrite has (map (data_lba s) K) ?b0),
        grown p (i\<lparr>i_sectors := overwrite has (take (12 - has) (map (data_lba s) K)) (i_sectors i)\<rparr>) b m s)"
    "length K = will - has" "allocated p K b m s"
    using alloc_blocks_spec [of has will s p i ?b0] h s i L b0 free zv by auto
  let ?X = "map (data_lba s) K" let ?B = "overwrite has ?X ?b0" let ?m = "m(?t := bytes_of (drop 12 ?B))"
  have "i\<lparr>i_sectors := overwrite has (take (12 - has) ?X) (i_sectors i)\<rparr> = i" using h by simp
  then have A: "alloc_blocks p [has..<will] ?b0 s = Inr (Some ?B, grown p i b m s)" using A0(1) by (simp only:)
  have B: "length ?B = 140" using b0 A0(2) h by simp
  have lay: "fs_layout (grown p i b m s)" and mono: "bset (block_bitmap s) \<subseteq> bset b" using A0(3) by (simp_all add: allocated_def)
  note W = table_write [OF lay block_used_grown [OF u mono] B]
  have "write_blocks p has will s = Inr (Some ?B, grown p i b ?m s)"
    using A W(1) h L block_used_io(1) [OF s u] block_used_data [OF s u] by (simp add: write_blocks_def gi)
  moreover have "got p i has will s ?B i b ?m"
  proof (rule gotI [OF s ok _ _ A0(3), where X = ?X])
    have FM: "file_map ?m i ! k = (if k < 12 then i_sectors i ! k else ?B ! k)" if "k < 140" for k
      using that file_map_table [OF L(1) B] by simp
    show "take will (file_map ?m i) = take has (file_map (sectors s) i) @ ?X"
    proof (rule take_file_map_append)
      fix k assume "k < has"
      then show "file_map ?m i ! k = file_map (sectors s) i ! k"
        using FM [of k] L b0 A0(2) h nth_file_map [OF L(1), of k "sectors s"] by (simp add: nth_overwrite nth_append)
    next
      fix k assume "has \<le> k" "k < will"
      then show "file_map ?m i ! k = ?X ! (k - has)" using FM [of k] b0 A0(2) h by (simp add: nth_overwrite)
    qed (use F L W(2) A0(2) h in simp_all)
    show "\<forall>k. has - 1 \<le> k \<and> k < will \<longrightarrow> ?B ! k = file_map ?m i ! k" using FM h by auto
    show "distinct ?X" by (rule allocated_distinct [OF s A0(3)])
    show "length ?B = 140" by (rule B)
    show "i = i\<lparr>i_sectors := i_sectors i\<rparr>" by (cases i) simp
  qed (use h L W(2) in auto)
  ultimately show ?thesis by blast
qed

lemma write_blocks_new_table:
  assumes s: "fs_layout s" and i: "inodes s p = Some i" and ok: "blocks_ok s i has" and h: "0 < has" "has \<le> 12" "12 < will" "will \<le> 140"
    and free: "will - has < free_count s"
  shows "\<exists>blocks i' b m. write_blocks p has will s = Inr (Some blocks, grown p i' b m s) \<and> got p i has will s blocks i' b m"
proof -
  have L: "length (i_sectors i) = 13" "has \<le> 140" and z: "\<forall>k. has \<le> k \<and> k < 12 \<longrightarrow> i_sectors i ! k = 0" "i_sectors i ! 12 = 0"
    using ok h by (simp_all add: blocks_ok_def)
  have F: "length (file_map (sectors s) i) = 140" using s L by simp
  have gi: "get_inode p s = Inr i" using i by (simp add: get_inode_def)
  obtain kt bt where T: "block_bitmap_alloc s = Inr (data_lba s kt, s\<lparr>block_bitmap := bt\<rparr>)" "allocated p [kt] bt (sectors s) s"
    using take_table_block [OF s, of p] free by auto
  let ?t = "data_lba s kt" let ?i1 = "i\<lparr>i_sectors := (i_sectors i)[12 := ?t]\<rparr>"
  let ?s1 = "grown p ?i1 bt (sectors s) s"
  have s1: "fs_layout ?s1" "free_count ?s1 = free_count s - 1" using T(2) by (simp_all add: allocated_def)
  have f1: "will - has \<le> free_count ?s1" using free s1(2) by linarith
  have put: "set_sector p 12 ?t (s\<lparr>block_bitmap := bt\<rparr>) = Inr ?s1" "get_inode p (s\<lparr>block_bitmap := bt\<rparr>) = Inr i"
    using L i by (simp_all add: set_sector_def get_inode_def put_inode_def grown_def)
  let ?b0 = "(replicate 140 0)[has - 1 := i_sectors i ! (has - 1)]"
  obtain K b m where A0: "alloc_blocks p [has..<will] ?b0 ?s1 = Inr (Some (overwrite has (map (data_lba s) K) ?b0),
        grown p (?i1\<lparr>i_sectors := overwrite has (take (12 - has) (map (data_lba s) K)) (i_sectors ?i1)\<rparr>) b m s)"
    "length K = will - has" "allocated p K b m ?s1"
    using alloc_blocks_spec [of has will ?s1 p ?i1 ?b0] h s1(1) f1 L z(1) unfolding grown_sel grown_grown by auto
  let ?X = "map (data_lba s) K" let ?i = "i\<lparr>i_sectors := overwrite has (take (12 - has) ?X) ((i_sectors i)[12 := ?t])\<rparr>"
  let ?B = "overwrite has ?X ?b0" let ?m = "m(?t := bytes_of (drop 12 ?B))"
  note KK = allocated_Cons [OF T(2) A0(3)]
  have A: "alloc_blocks p [has..<will] ?b0 ?s1 = Inr (Some ?B, grown p ?i b m s)" using A0(1) by simp
  have B: "length ?B = 140" using A0(2) h by simp
  have lx: "length (take (12 - has) ?X) = 12 - has" using A0(2) h by simp
  have li: "length (i_sectors ?i) = 13" and t12: "i_sectors ?i ! 12 = ?t" using L lx h by (simp_all add: nth_overwrite)
  have lay: "fs_layout (grown p ?i b m s)" using KK by (simp add: allocated_def)
  have ut: "block_used (grown p ?i b m s) ?t" by (rule allocated_used [OF s KK]) simp
  note W = table_write [OF lay ut B]
  have nb: "?t \<noteq> - 1" by (rule allocated_used [OF s T(2)]) simp
  have "write_blocks p has will s = Inr (Some ?B, grown p ?i b ?m s)"
    using A W(1) h L T(1) put nb z by (simp add: write_blocks_def gi)
  moreover have "got p i has will s ?B ?i b ?m"
  proof (rule gotI [OF s ok _ _ KK, where X = ?X])
    have FM: "file_map ?m ?i ! k = (if k < has then i_sectors i ! k else ?B ! k)" if "k < will" for k
      using that h L lx A0(2) file_map_table [OF li B, of k m] unfolding t12 by (cases "k < 12") (auto simp: nth_overwrite)
    show "take will (file_map ?m ?i) = take has (file_map (sectors s) i) @ ?X"
    proof (rule take_file_map_append)
      fix k assume "k < has"
      then show "file_map ?m ?i ! k = file_map (sectors s) i ! k" using FM [of k] h L by (simp add: nth_file_map)
    next
      fix k assume "has \<le> k" "k < will"
      then show "file_map ?m ?i ! k = ?X ! (k - has)" using FM [of k] A0(2) h by (simp add: nth_overwrite)
    qed (use F li W(2) A0(2) h in simp_all)
    show "\<forall>k. has - 1 \<le> k \<and> k < will \<longrightarrow> ?B ! k = file_map ?m ?i ! k"
    proof (intro allI impI)
      fix k assume k: "has - 1 \<le> k \<and> k < will"
      then have "k = has - 1 \<or> has \<le> k" by linarith
      then show "?B ! k = file_map ?m ?i ! k" using k h A0(2) FM [of k] by (auto simp: nth_overwrite)
    qed
    have d: "distinct (map (data_lba s) (kt # K))" by (rule allocated_distinct [OF s KK])
    then show "distinct ?X" by simp
    show "if will \<le> 12 then i_sectors ?i ! 12 = 0 \<and> ?m = m
            else if has \<le> 12 then i_sectors ?i ! 12 \<in> data_lba s ` set (kt # K) - set ?X else i_sectors ?i ! 12 = i_sectors i ! 12"
      using h d unfolding t12 by simp
    show "\<forall>l. l \<noteq> i_sectors ?i ! 12 \<longrightarrow> ?m l = m l" unfolding t12 by simp
  qed (use h li W(2) B in auto)
  ultimately show ?thesis by blast
qed

lemma write_blocks_spec:
  assumes s: "fs_layout s" and i: "inodes s p = Some i" and ok: "blocks_ok s i has" and h: "0 < has" "has \<le> will" "will \<le> 140"
    and free: "will - has + (if has \<le> 12 \<and> 12 < will then 1 else 0) \<le> free_count s"
  shows "\<exists>blocks i' b m. write_blocks p has will s = Inr (Some blocks, grown p i' b m s) \<and> got p i has will s blocks i' b m"
proof -
  consider "will = has" | "has < will" "will \<le> 12" | "has < will" "12 < has" | "has \<le> 12" "12 < will" using h by linarith
  then show ?thesis
  proof cases
    case 1
    then show ?thesis using write_blocks_same [OF s i ok h(1)] grown_self [OF i] by metis
  next
    case 2
    then show ?thesis using write_blocks_direct [OF s i ok h(1)] free by simp
  next
    case 3
    then show ?thesis using write_blocks_indirect [OF s i ok _ _ h(3)] free by auto
  next
    case 4
    then show ?thesis using write_blocks_new_table [OF s i ok h(1) _ _ h(3)] free by simp
  qed
qed

lemma first_block_spec:
  assumes s: "fs_layout s" and i: "inodes s p = Some i" and ok: "blocks_ok s i 0" and free: "0 < free_count s"
  shows "\<exists>i' b m. first_block p s = Inr (True, grown p i' b m s) \<and> got p i 0 1 s (file_map m i') i' b m
    \<and> free_count (grown p i' b m s) = free_count s - 1 \<and> i_sectors i' ! 12 = i_sectors i ! 12"
proof -
  have L: "length (i_sectors i) = 13" and z: "\<forall>k<12. i_sectors i ! k = 0" "i_sectors i ! 12 = 0"
    using ok by (simp_all add: blocks_ok_def)
  have z0: "i_sectors i ! 0 = 0" using z(1) by simp
  obtain k b m where T: "block_bitmap_alloc s = Inr (data_lba s k, s\<lparr>block_bitmap := b\<rparr>)" "allocated p [k] b m s"
    "\<forall>i'. bitmap_sync (data_lba s k - data_start_lba (sb s)) BLOCK_BITMAP (put_inode p i' (s\<lparr>block_bitmap := b\<rparr>)) = Inr (grown p i' b m s)"
    using take_block_allocated [OF s i free] by blast
  let ?l = "data_lba s k" let ?i = "i\<lparr>i_sectors := (i_sectors i)[0 := ?l]\<rparr>"
  have k: "0 < k" "k < bcap (block_bitmap s)" using T(2) by (simp_all add: allocated_def)
  have "of_nat k \<noteq> (0 :: u32)" using k data_lba_idx(2) [OF s k(2)] by (metis less_irrefl unat_0)
  then have nz: "?l - data_start_lba (sb s) \<noteq> 0" using data_lba_idx(1) [OF s k(2)] by simp
  have l: "?l \<noteq> - 1" by (rule allocated_used [OF s T(2)]) simp
  have "get_inode p s = Inr i" "get_inode p (s\<lparr>block_bitmap := b\<rparr>) = Inr i" using i by (simp_all add: get_inode_def)
  moreover have "sb (put_inode p ?i (s\<lparr>block_bitmap := b\<rparr>)) = sb s" by (simp add: put_inode_def)
  ultimately have "first_block p s = Inr (True, grown p ?i b m s)"
    using T(1,3) L z0 l nz by (simp add: first_block_def set_sector_def)
  moreover have mo: "media_ok m" using T(2) fs_layout_media [of "grown p i b m s"] by (simp add: allocated_def)
  have "got p i 0 1 s (file_map m ?i) ?i b m"
  proof (rule gotI [OF s ok _ _ T(2), where X = "[?l]"])
    show "take 1 (file_map m ?i) = take 0 (file_map (sectors s) i) @ [?l]"
      using L mo by (intro list_eq_nthI) (simp_all add: nth_file_map)
  qed (use L z mo in auto)
  moreover have "free_count (grown p ?i b m s) = free_count s - 1" "i_sectors ?i ! 12 = i_sectors i ! 12"
    using T(2) by (simp_all add: allocated_def)
  ultimately show ?thesis by blast
qed

lemma got_trans:
  assumes s: "fs_layout s" and g1: "got p i a c s bl i1 b1 m1" and g2: "got p i1 c d (grown p i1 b1 m1 s) blocks i2 b2 m2"
    and a: "a \<le> c" "a - 1 = c - 1" "i_sectors i1 ! 12 = i_sectors i ! 12"
  shows "got p i a d s blocks i2 b2 m2"
proof -
  have 1: "i1 = i\<lparr>i_sectors := i_sectors i1\<rparr>" "bset (block_bitmap s) \<subseteq> bset b1"
    "take a (file_map m1 i1) = take a (file_map (sectors s) i)" and f1: "\<forall>l. block_used s l \<and> l \<noteq> i_sectors i ! 12 \<or> in_table s l \<longrightarrow> m1 l = sectors s l"
    using g1 by (simp_all add: got_def)
  have 2: "i2 = i1\<lparr>i_sectors := i_sectors i2\<rparr>" "bset b1 \<subseteq> bset b2" "take c (file_map m2 i2) = take c (file_map m1 i1)"
    and f2: "\<forall>l. block_used (grown p i1 b1 m1 s) l \<and> l \<noteq> i_sectors i1 ! 12 \<or> in_table s l \<longrightarrow> m2 l = m1 l"
    using g2 by (simp_all add: got_def)
  have "i2 = i\<lparr>i_sectors := i_sectors i2\<rparr>" using 1(1) 2(1) by (cases i; cases i1; cases i2) simp
  moreover have "take a (file_map m2 i2) = take a (file_map (sectors s) i)" using 2(3) 1(3) a(1) by (metis min.absorb1 take_take)
  moreover have "\<forall>l. block_used s l \<and> l \<noteq> i_sectors i ! 12 \<or> in_table s l \<longrightarrow> m2 l = sectors s l"
    using f1 f2 block_used_grown [OF _ 1(2), of _ p i1 m1] a(3) by metis
  moreover have "\<forall>l\<in>set (take d (file_map m2 i2)). l \<in> set (take a (file_map (sectors s) i)) \<or> \<not> block_used s l"
    using g1 g2 block_used_grown [OF _ 1(2), of _ p i1 m1] unfolding got_def grown_sel by metis
  ultimately show ?thesis using g2 1(2) 2(2) a(2) by (simp add: got_def)
qed

text \<open>A file: either without blocks and empty, or with one block more than its size fills.\<close>

definition blocks_of :: "inode \<Rightarrow> nat" where
  "blocks_of i = (if i_sectors i ! 0 = 0 then 0 else unat (i_size i) div 512 + 1)"

definition file_ok :: "'a fsys_scheme \<Rightarrow> inode \<Rightarrow> bool" where
  "file_ok s i \<longleftrightarrow> blocks_ok s i (blocks_of i) \<and> (i_sectors i ! 0 = 0 \<longrightarrow> i_size i = 0)"

definition contents :: "'a fsys_scheme \<Rightarrow> inode \<Rightarrow> bytes" where
  "contents s i = take (unat (i_size i)) (cat (sectors s) (file_map (sectors s) i))"

lemma collect_blocks:
  assumes s: "fs_layout s" and i: "inodes s p = Some i" and ok: "file_ok s i"
    and w: "unat (i_size i) div 512 + 1 \<le> will" "will \<le> 140"
    and free: "will - blocks_of i + (if blocks_of i \<le> 12 \<and> 12 < will then 1 else 0) \<le> free_count s"
  shows "\<exists>s1 blocks i2 b2 m2. first_block p s = Inr (True, s1) \<and> write_blocks p (unat (i_size i) div 512 + 1) will s1 = Inr (Some blocks, grown p i2 b2 m2 s)
    \<and> got p i (blocks_of i) will s blocks i2 b2 m2 \<and> (\<forall>k. unat (i_size i) div 512 \<le> k \<and> k < will \<longrightarrow> blocks ! k = file_map m2 i2 ! k)"
proof (cases "i_sectors i ! 0 = 0")
  case True
  then have z: "i_size i = 0" and n0: "blocks_of i = 0" and ok0: "blocks_ok s i 0" using ok by (simp_all add: file_ok_def blocks_of_def)
  have f0: "0 < free_count s" using free w n0 by simp
  obtain i1 b1 m1 where F: "first_block p s = Inr (True, grown p i1 b1 m1 s)" "got p i 0 1 s (file_map m1 i1) i1 b1 m1"
    "free_count (grown p i1 b1 m1 s) = free_count s - 1" "i_sectors i1 ! 12 = i_sectors i ! 12"
    using first_block_spec [OF s i ok0 f0] by blast
  have s1: "fs_layout (grown p i1 b1 m1 s)" "blocks_ok (grown p i1 b1 m1 s) i1 1" using F(2) by (simp_all add: got_def)
  have f1: "will - 1 + (if 1 \<le> (12::nat) \<and> 12 < will then 1 else 0) \<le> free_count (grown p i1 b1 m1 s)" using free n0 F(3) w by auto
  obtain blocks i2 b2 m2 where W: "write_blocks p 1 will (grown p i1 b1 m1 s) = Inr (Some blocks, grown p i2 b2 m2 s)"
    "got p i1 1 will (grown p i1 b1 m1 s) blocks i2 b2 m2"
    using write_blocks_spec [OF s1(1) grown_sel(1) s1(2) _ _ w(2) f1] w unfolding grown_grown by auto
  have "got p i 0 will s blocks i2 b2 m2" using got_trans [OF s F(2) W(2) _ _ F(4)] by simp
  then show ?thesis using F(1) W(1) z n0 by (auto simp: got_def)
next
  case False
  then have n0: "blocks_of i = unat (i_size i) div 512 + 1" and okn: "blocks_ok s i (unat (i_size i) div 512 + 1)"
    using ok by (simp_all add: file_ok_def blocks_of_def)
  have L: "length (i_sectors i) = 13" using okn by (simp add: blocks_ok_def)
  have "first_block p s = Inr (True, s)" using False i L by (simp add: first_block_def get_inode_def)
  moreover obtain blocks i2 b2 m2 where W: "write_blocks p (unat (i_size i) div 512 + 1) will s = Inr (Some blocks, grown p i2 b2 m2 s)"
    "got p i (unat (i_size i) div 512 + 1) will s blocks i2 b2 m2"
    using write_blocks_spec [OF s i okn _ w] free n0 by auto
  ultimately show ?thesis unfolding n0 by (auto simp: got_def)
qed

section \<open>Writing\<close>

lemma file_map_cong: "m' (i_sectors i ! 12) = m (i_sectors i ! 12) \<Longrightarrow> i_sectors i' = i_sectors i \<Longrightarrow> file_map m' i' = file_map m i"
  by (simp add: file_map_def)

lemma blocks_ok_cong:
  assumes "block_bitmap s' = block_bitmap s" "sb s' = sb s" "i_sectors i' = i_sectors i" "sectors s' (i_sectors i ! 12) = sectors s (i_sectors i ! 12)"
  shows "blocks_ok s' i' n = blocks_ok s i n"
proof -
  have "block_used s' = block_used s" using assms(1,2) by (simp add: block_used_def data_lba_def fun_eq_iff)
  moreover have "file_map (sectors s') i' = file_map (sectors s) i" using assms(3,4) by (simp add: file_map_def)
  ultimately show ?thesis using assms(3) by (simp add: blocks_ok_def)
qed

lemma disk_inode_cong:
  assumes "sb s' = sb s" "\<And>l. in_table s l \<Longrightarrow> sectors s' l = sectors s l"
  shows "disk_inode s' n = disk_inode s n"
proof -
  have "itable s' = itable s" unfolding itable_def assms(1)
    by (rule read_secs_cong, rule assms(2)) (simp add: in_table_def unat_of_nat_u32)
  then show ?thesis by (simp add: disk_inode_def)
qed

text \<open>The second half of \<^verbatim>\<open>file_write\<close>: the data and the i-node reach the disk.\<close>

lemma table_not_block:
  assumes "fs_layout s" "blocks_ok s i n"
  shows "i_sectors i ! 12 \<notin> set (take n (file_map (sectors s) i))" "\<not> in_table s (i_sectors i ! 12) \<or> n \<le> 12"
    "l \<in> set (take n (file_map (sectors s) i)) \<Longrightarrow> block_used s l \<and> in_data s l \<and> \<not> in_table s l"
proof -
  show "l \<in> set (take n (file_map (sectors s) i)) \<Longrightarrow> block_used s l \<and> in_data s l \<and> \<not> in_table s l" for l
    using assms block_used_data [OF assms(1), of l] in_table_not_data [OF assms(1), of l] by (auto simp: blocks_ok_def list_all_iff)
  then show "i_sectors i ! 12 \<notin> set (take n (file_map (sectors s) i))"
    using assms block_used_data [OF assms(1), of 0] by (auto simp: blocks_ok_def split: if_splits)
  show "\<not> in_table s (i_sectors i ! 12) \<or> n \<le> 12"
    using assms block_used_data [OF assms(1)] in_table_not_data [OF assms(1)] by (auto simp: blocks_ok_def split: if_splits)
qed

lemma sector0_not_table: "fs_layout s \<Longrightarrow> \<not> in_table s 0"
  using meta_write(4) [of s 0 "replicate 512 0"] fs_layoutD(7) [of s] by simp

lemma write_data:
  assumes s: "fs_layout s" and i: "inodes s p = Some i" "i_no i < 4096" and ok: "blocks_ok s i n"
    and fd: "fd < length (file_table s)" "file_table s ! fd = f" and z: "unat (i_size i) = z" "z + r < 512 * n" "r \<le> length src"
    and B: "length blocks = 140" "\<forall>k. z div 512 \<le> k \<and> k < n \<longrightarrow> blocks ! k = file_map (sectors s) i ! k"
  shows "\<exists>m1 m. write_loop fd p blocks True src r s = Inr (written fd p i f r m1 s)
    \<and> inode_sync (i\<lparr>i_size := i_size i + of_nat r\<rparr>) (written fd p i f r m1 s) = Inr (written fd p i f r m s)
    \<and> fs_layout (written fd p i f r m s) \<and> m (i_sectors i ! 12) = sectors s (i_sectors i ! 12)
    \<and> take (z + r) (cat m (file_map (sectors s) i)) = take z (cat (sectors s) (file_map (sectors s) i)) @ take r src
    \<and> disk_inode (written fd p i f r m s) (i_no i) = i\<lparr>i_size := i_size i + of_nat r, i_open_cnts := 0, write_deny := False\<rparr>
    \<and> (\<forall>n'<4096. n' \<noteq> i_no i \<longrightarrow> disk_inode (written fd p i f r m s) n' = disk_inode s n')
    \<and> (\<forall>l. l \<notin> set (take n (file_map (sectors s) i)) \<and> \<not> in_table s l \<longrightarrow> m l = sectors s l)"
proof -
  let ?F = "file_map (sectors s) i"
  have n: "n \<le> 140" and L: "length (i_sectors i) = 13" and d: "distinct (take n ?F)" and u: "list_all (block_used s) (take n ?F)"
    using ok by (simp_all add: blocks_ok_def)
  have F: "length ?F = 140" using s L by simp
  have "\<forall>k<n. block_used s (?F ! k)" using u n F by (simp add: list_all_length)
  then obtain m1 where M1: "write_loop fd p blocks True src r s = Inr (written fd p i f r m1 s)" "media_ok m1"
    "take (z + r) (cat m1 ?F) = take z (cat (sectors s) ?F) @ take r src" "\<forall>l. l \<notin> set (take n ?F) \<longrightarrow> m1 l = sectors s l"
    using write_loop_spec [OF F n d s _ i(1) fd z(1,2,3) B] by blast
  let ?i = "i\<lparr>i_size := i_size i + of_nat r\<rparr>" let ?s1 = "written fd p i f r m1 s"
  have s1: "fs_layout ?s1" using s M1(2) by (simp add: written_def fs_layout_sectors)
  have no: "i_no ?i < 4096" and Li: "length (i_sectors ?i) = 13" using i(2) L by simp_all
  obtain m where M: "inode_sync ?i ?s1 = Inr (?s1\<lparr>sectors := m\<rparr>)" "table_ok (?s1\<lparr>sectors := m\<rparr>)"
    "disk_inode (?s1\<lparr>sectors := m\<rparr>) (i_no ?i) = ?i\<lparr>i_open_cnts := 0, write_deny := False\<rparr>"
    "\<forall>n'<4096. n' \<noteq> i_no ?i \<longrightarrow> disk_inode (?s1\<lparr>sectors := m\<rparr>) n' = disk_inode ?s1 n'"
    "\<forall>l. \<not> in_table ?s1 l \<longrightarrow> m l = sectors ?s1 l"
    by (rule inode_sync_spec [OF fs_layout_table [OF s1] no Li])
  have e: "?s1\<lparr>sectors := m\<rparr> = written fd p i f r m s" by (simp add: written_def)
  have sel: "in_table ?s1 l = in_table s l" "sectors ?s1 = m1" "sb ?s1 = sb s" for l by (simp_all add: written_def in_table_def)
  have mo: "media_ok m" using M(2) by (simp add: table_ok_def)
  have mB: "m l = m1 l" if "l \<in> set ?F \<and> l \<in> set (take n ?F)" for l using that M(5) table_not_block(3) [OF s ok] sel by auto
  have "take (z + r) (cat m ?F) = take (z + r) (cat m1 ?F)"
  proof -
    have "cat m (take n ?F) = cat m1 (take n ?F)" by (rule cat_cong) (use mB in \<open>auto dest: in_set_takeD\<close>)
    moreover have "take (z + r) (cat x ?F) = take (z + r) (cat x (take n ?F))" if "media_ok x" for x
    proof -
      have "cat x ?F = cat x (take n ?F) @ cat x (drop n ?F)" by (metis append_take_drop_id cat_append)
      then show ?thesis using that z(2) n F by simp
    qed
    ultimately show ?thesis using mo M1(2) by simp
  qed
  moreover have "m (i_sectors i ! 12) = sectors s (i_sectors i ! 12)"
  proof -
    have "n \<le> 12 \<Longrightarrow> i_sectors i ! 12 = 0" using ok by (simp add: blocks_ok_def)
    then have "\<not> in_table s (i_sectors i ! 12)" using table_not_block(2) [OF s ok] sector0_not_table [OF s] by metis
    then show ?thesis using M(5) M1(4) table_not_block(1) [OF s ok] sel by simp
  qed
  moreover have "disk_inode ?s1 n' = disk_inode s n'" for n'
    by (rule disk_inode_cong) (use sel M1(4) table_not_block(3) [OF s ok] in auto)
  moreover have "fs_layout (written fd p i f r m s)" using fs_layout_sectors [OF s1 mo] unfolding e .
  moreover have "\<forall>l. l \<notin> set (take n ?F) \<and> \<not> in_table s l \<longrightarrow> m l = sectors s l" using M(5) M1(4) sel by auto
  ultimately show ?thesis using M1(1,3) M(1,3,4) unfolding e by (intro exI [of _ m1] exI [of _ m]) simp
qed

text \<open>A file of five bytes in the first free block, open under the number 3 of the table of
  open files.\<close>

definition small_inode :: inode where
  "small_inode = \<lparr>i_no = 3, i_size = 5, i_open_cnts = 1, write_deny = False, i_sectors = 2662 # replicate 12 0\<rparr>"

definition small_open :: open_file where
  "small_open = \<lparr>fd_pos = 1, fd_flag = 2, fd_inode = 0xC0301000\<rparr>"

definition small_file :: fsys where
  "small_file = small_fs\<lparr>sectors := (\<lambda>_. replicate 512 0)(2662 := [104, 101, 108, 108, 111] @ replicate 507 0),
     block_bitmap := \<lparr>btmp_bytes_len = 1024, bits = 3 # replicate 1024 0\<rparr>, inodes := [0xC0300000 \<mapsto> small_root, 0xC0301000 \<mapsto> small_inode],
     file_table := (replicate 32 \<lparr>fd_pos = 0, fd_flag = 0, fd_inode = 0\<rparr>)[3 := small_open],
     heap := [0xC0303000, 0xC0304000, 0xC0305000]\<rparr>"

lemma small_bits: "0 \<in> bset (block_bitmap small_file)" "1 \<in> bset (block_bitmap small_file)" "2 \<notin> bset (block_bitmap small_file)"
  by (simp_all add: small_file_def small_fs_def bset_def bused_def bit_numeral_rec)

lemma small_media: "media_ok (sectors small_file)"
  by (simp add: media_ok_def small_file_def)

lemma small_layout: "fs_layout small_file"
  using small_bits(1) small_media unfolding fs_layout_def
  by (simp add: small_file_def small_fs_def small_sb_def bitmap_wf_def)

lemma small_free: "0 < free_count small_file"
proof -
  have "2 \<in> {..<bcap (block_bitmap small_file)} - bset (block_bitmap small_file)" using small_bits(3) by (simp add: small_file_def)
  then show ?thesis unfolding free_count_def by (metis card_gt_0_iff empty_iff finite_Diff finite_lessThan)
qed

lemma small_map: "take 1 (file_map (sectors small_file) small_inode) = [2662]"
  by (simp add: file_map_def small_inode_def)

lemma small_used: "block_used small_file 2662"
proof -
  have "data_lba small_file 1 = 2662" by (simp add: data_lba_def small_file_def small_fs_def small_sb_def)
  then show ?thesis using small_bits(2) unfolding block_used_def by (intro bexI [of _ 1]) simp_all
qed

lemma small_file_ok: "file_ok small_file small_inode"
proof -
  have "blocks_ok small_file small_inode 1" unfolding blocks_ok_def small_map
    using small_used by (auto simp: small_inode_def nth_Cons')
  then show ?thesis by (simp add: file_ok_def blocks_of_def small_inode_def)
qed

lemma small_contents: "contents small_file small_inode = [104, 101, 108, 108, 111]"
  by (simp add: contents_def file_map_def cat_def small_inode_def small_file_def)

lemma unat_block_count: "unat (x div BLOCK_SIZE + 1) = unat x div 512 + 1"
proof -
  have "x div BLOCK_SIZE + 1 = of_nat (unat x div 512 + 1)" by (simp flip: unat_div_mod_block)
  moreover have "unat x div 512 + 1 < 2 ^ 32" using unsigned_less [of x, where ?'a = nat] by simp
  ultimately show ?thesis by (simp only: unat_of_nat_u32)
qed

lemma take_cat_cong:
  assumes m: "media_ok m" "media_ok m'" and z: "z \<le> 512 * n" and F: "n \<le> length F" "take n F' = take n F" "\<And>l. l \<in> set (take n F) \<Longrightarrow> m' l = m l"
  shows "take z (cat m' F') = take z (cat m F)"
proof -
  have *: "take z (cat x G) = take z (cat x (take n G))" if "media_ok x" "length (take n G) = n" for x G
  proof -
    have "cat x G = cat x (take n G) @ cat x (drop n G)" by (metis append_take_drop_id cat_append)
    then show ?thesis using that z by simp
  qed
  have "cat m' (take n F') = cat m (take n F)" unfolding F(2) by (rule cat_cong) (rule F(3))
  then show ?thesis using * [of m' F'] * [of m F] m F(1,2) by simp
qed

lemma contents_kept:
  assumes s: "fs_layout s" and ok: "file_ok s i" and m: "media_ok m"
    and F: "take (blocks_of i) F = take (blocks_of i) (file_map (sectors s) i)"
    and frame: "\<forall>l. block_used s l \<and> l \<noteq> i_sectors i ! 12 \<longrightarrow> m l = sectors s l"
  shows "take (unat (i_size i)) (cat m F) = contents s i"
proof -
  have bo: "blocks_ok s i (blocks_of i)" using ok by (simp add: file_ok_def)
  have L: "length (i_sectors i) = 13" "blocks_of i \<le> 140" using bo by (simp_all add: blocks_ok_def)
  have "unat (i_size i) \<le> 512 * blocks_of i"
    using ok dividend_less_times_div [of 512 "unat (i_size i)"] by (auto simp: file_ok_def blocks_of_def)
  moreover have "m l = sectors s l" if "l \<in> set (take (blocks_of i) (file_map (sectors s) i))" for l
    using that frame table_not_block(1,3) [OF s bo] by metis
  ultimately show ?thesis unfolding contents_def using take_cat_cong [OF _ m _ _ F] s L by simp
qed



section \<open>Reading\<close>

lemma read_loop_spec:
  assumes s: "media_ok (sectors s)" and B: "length B = 140" "n \<le> 140" "length blocks = 140"
    and used: "\<And>k. k < n \<Longrightarrow> disk_read (B ! k) 1 s = Inr (sectors s (B ! k))"
  shows "fd < length ft \<Longrightarrow> ft ! fd = f \<Longrightarrow> unat (fd_pos f) = z \<Longrightarrow> z + r \<le> 512 * n \<Longrightarrow>
    \<forall>k. z div 512 \<le> k \<and> 512 * k < z + r \<longrightarrow> blocks ! k = B ! k \<Longrightarrow>
    read_loop fd True blocks r (s\<lparr>file_table := ft\<rparr>) =
      Inr (take r (drop z (cat (sectors s) B)), s\<lparr>file_table := ft[fd := f\<lparr>fd_pos := fd_pos f + of_nat r\<rparr>]\<rparr>)"
proof (induction r arbitrary: ft f z rule: less_induct)
  case (less r)
  show ?case
  proof (cases "r = 0")
    case True
    have "ft[fd := f] = ft" using less.prems(2) by auto
    then show ?thesis using True by (simp add: read_loop.simps [of fd True blocks 0])
  next
    case False
    define j where "j = z div 512" define off where "off = z mod 512"
    define c where "c = (if r < 512 - off then r else 512 - off)"
    have off: "off < 512" by (simp add: off_def)
    have c: "0 < c" "c \<le> r" "off + c \<le> 512" "off + c = 512 \<or> c = r" using False off by (auto simp: c_def)
    have zj: "z = 512 * j + off" by (simp add: j_def off_def)
    have jn: "j < n" "512 * j < z + r" using less.prems(4) zj False by linarith+
    have j140: "j < 140" using jn B(2) by simp
    have bj: "blocks ! j = B ! j" using less.prems(5) jn by (simp add: j_def)
    let ?sec = "sectors s (B ! j)" let ?f = "f\<lparr>fd_pos := fd_pos f + of_nat c\<rparr>" let ?ft = "ft[fd := ?f]"
    have rd: "disk_read (B ! j) 1 (s\<lparr>file_table := ft\<rparr>) = Inr ?sec" using used [OF jn(1)] by (simp add: disk_read_def)
    have cp: "copy_bytes c ?sec off (replicate c 0) 0 = Inr (take c (drop off ?sec))"
      using c(3) s by (simp add: copy_bytes_def overwrite_def)
    have z1: "unat (fd_pos ?f) = z + c"
      using less.prems(3,4) c(2) B(2) unat_of_nat_u32 [of "z + c"] by auto
    have step: "read_loop fd True blocks r (s\<lparr>file_table := ft\<rparr>) =
        kbind (read_loop fd True blocks (r - c) (s\<lparr>file_table := ?ft\<rparr>)) (\<lambda>(rest, s). Inr (take c (drop off ?sec) @ rest, s))"
    proof -
      have gf: "aget (file_table (s\<lparr>file_table := ft\<rparr>)) fd = Inr f" using less.prems(1,2) by simp
      show ?thesis
        unfolding read_loop.simps [of fd True blocks r] gf kbind_Inr Let_def unat_div_mod_block less.prems(3)
          j_def [symmetric] off_def [symmetric] c_def [symmetric]
        using False j140 B(3) rd cp c(1) by (simp add: bj)
    qed
    have "read_loop fd True blocks (r - c) (s\<lparr>file_table := ?ft\<rparr>) =
        Inr (take (r - c) (drop (z + c) (cat (sectors s) B)), s\<lparr>file_table := ?ft[fd := ?f\<lparr>fd_pos := fd_pos ?f + of_nat (r - c)\<rparr>]\<rparr>)"
    proof (rule less.IH)
      show "r - c < r" "fd < length ?ft" "?ft ! fd = ?f" "z + c + (r - c) \<le> 512 * n" using c less.prems by simp_all
      show "unat (fd_pos ?f) = z + c" by (rule z1)
      have "j \<le> (z + c) div 512" using zj by simp
      then show "\<forall>k. (z + c) div 512 \<le> k \<and> 512 * k < z + c + (r - c) \<longrightarrow> blocks ! k = B ! k" using less.prems(5) c(2) by (simp add: j_def)
    qed
    moreover have "take r (drop z (cat (sectors s) B)) = take c (drop off ?sec) @ take (r - c) (drop (z + c) (cat (sectors s) B))"
    proof -
      have "take r (drop z (cat (sectors s) B)) = take c (drop z (cat (sectors s) B)) @ take (r - c) (drop (z + c) (cat (sectors s) B))"
        using take_add [of c "r - c" "drop z (cat (sectors s) B)"] c(2) by (simp add: add.commute)
      moreover have "drop z (cat (sectors s) B) = drop off ?sec @ cat (sectors s) (drop (Suc j) B)"
        using drop_cat [OF s, of j B off] j140 B(1) off zj by simp
      ultimately show ?thesis using c(3) s by simp
    qed
    ultimately show ?thesis using step c(2) by (simp add: add.assoc flip: of_nat_add)
  qed
qed

lemma read_range_blocks_spec:
  assumes s: "fs_layout s" and ok: "blocks_ok s i n" and h: "lo \<le> hi" "hi < n"
  shows "\<exists>blocks. read_range_blocks i lo hi s = Inr blocks \<and> length blocks = 140 \<and> (\<forall>k. lo \<le> k \<and> k \<le> hi \<longrightarrow> blocks ! k = file_map (sectors s) i ! k)"
proof -
  have L: "length (i_sectors i) = 13" "n \<le> 140" using ok by (simp_all add: blocks_ok_def)
  have rd: "disk_read (i_sectors i ! 12) 1 s = Inr (sectors s (i_sectors i ! 12)) \<and> i_sectors i ! 12 \<noteq> 0" if "12 \<le> hi"
  proof -
    have u: "block_used s (i_sectors i ! 12)" using ok h that by (simp add: blocks_ok_def)
    show ?thesis using block_used_io(1) [OF s u] block_used_data [OF s u] by simp
  qed
  have mo: "media_ok (sectors s)" using s by simp
  consider "lo = hi" "hi < 12" | "lo = hi" "12 \<le> hi" | "lo < hi" "hi < 12" | "lo < 12" "12 \<le> hi" | "12 \<le> lo" "lo < hi" using h(1) by linarith
  then show ?thesis
  proof cases
    case 1 then show ?thesis using L mo by (auto simp: read_range_blocks_def nth_file_map dest: le_antisym)
  next
    case 2 then show ?thesis using rd L mo by (simp add: read_range_blocks_def nth_file_map nth_append)
  next
    case 3 then show ?thesis using L mo by (simp add: read_range_blocks_def nth_file_map)
  next
    case 4 then show ?thesis using rd L mo by (simp add: read_range_blocks_def nth_file_map nth_append)
  next
    case 5 then show ?thesis using rd L mo by (simp add: read_range_blocks_def nth_file_map nth_append)
  qed
qed

text \<open>C32.  Reading returns a part of the contents: as many bytes as asked for or as there are, from the
  position of the open file on, which advances by that number; nothing else changes.  The
  last block of a file of maximal size cannot be read, so the part must end in front of it.\<close>

theorem file_read_returns:
  assumes s: "fs_layout s" and fd: "fd < length (file_table s)" "file_table s ! fd = f"
    and i: "inodes s (fd_inode f) = Some i" and ok: "file_ok s i" and heap: "heap s = a # b # hs" "a \<noteq> 0" "b \<noteq> 0"
    and pos: "unat (fd_pos f) < unat (i_size i)" and count: "unat (fd_pos f) + unat count < 2 ^ 32"
    and n: "n = min (unat count) (unat (i_size i) - unat (fd_pos f))" "unat (fd_pos f) + n < 71168"
  shows "file_read fd count s = Inr (int n, take n (drop (unat (fd_pos f)) (contents s i)),
    s\<lparr>heap := hs, file_table := (file_table s)[fd := f\<lparr>fd_pos := fd_pos f + of_nat n\<rparr>]\<rparr>)"
proof -
  let ?z = "unat (fd_pos f)" and ?e = "unat (i_size i)" and ?s = "s\<lparr>heap := hs\<rparr>"
  define size where "size = (if fd_pos f + count > i_size i then i_size i - fd_pos f else count)"
  have uc: "unat (fd_pos f + count) = ?z + unat count" using count unat_of_nat_u32 [of "?z + unat count"] by simp
  have "unat (i_size i - fd_pos f) = ?e - ?z" using pos by (simp add: unat_sub word_le_nat_alt)
  then have un: "unat size = n" using n(1) uc by (auto simp: size_def word_less_nat_alt)
  have sz: "\<not> (fd_pos f + count > i_size i \<and> size = 0)"
    using un n(1) pos uc by (auto simp: word_less_nat_alt unat_eq_zero)
  have "fd_pos f + size = of_nat (?z + n)" "?z + n < 2 ^ 32" using n(2) by (simp_all add: un [symmetric])
  then have uz: "unat (fd_pos f + size) = ?z + n" by (simp only: unat_of_nat_u32)
  have bo: "blocks_of i = ?e div 512 + 1" and bok: "blocks_ok s i (?e div 512 + 1)"
    using ok pos by (auto simp: file_ok_def blocks_of_def)
  have L: "length (i_sectors i) = 13" "?e div 512 + 1 \<le> 140" using bok by (simp_all add: blocks_ok_def)
  have s0: "fs_layout ?s" "blocks_ok ?s i (?e div 512 + 1)" using s bok blocks_ok_cong [of ?s s i i] by simp_all
  have zn: "?z + n \<le> ?e" using n(1) pos by simp
  have le: "?z div 512 \<le> (?z + n) div 512" "(?z + n) div 512 < ?e div 512 + 1" using zn by (simp_all add: div_le_mono less_Suc_eq_le)
  obtain blocks where B: "read_range_blocks i (?z div 512) ((?z + n) div 512) ?s = Inr blocks" "length blocks = 140"
    "\<forall>k. ?z div 512 \<le> k \<and> k \<le> (?z + n) div 512 \<longrightarrow> blocks ! k = file_map (sectors s) i ! k"
    using read_range_blocks_spec [OF s0 le] by auto
  let ?F = "file_map (sectors s) i"
  have F: "length ?F = 140" using s L by simp
  have rl: "read_loop fd True blocks n (?s\<lparr>file_table := file_table s\<rparr>) =
      Inr (take n (drop ?z (cat (sectors ?s) ?F)), ?s\<lparr>file_table := (file_table s)[fd := f\<lparr>fd_pos := fd_pos f + of_nat n\<rparr>]\<rparr>)"
  proof (rule read_loop_spec [where n = "?e div 512 + 1"])
    show "disk_read (?F ! k) 1 ?s = Inr (sectors ?s (?F ! k))" if "k < ?e div 512 + 1" for k
    proof -
      have "block_used ?s (?F ! k)" using that s0(2) F L(2) by (simp add: blocks_ok_def list_all_length)
      then show ?thesis by (rule block_used_io(1) [OF s0(1)])
    qed
    show "?z + n \<le> 512 * (?e div 512 + 1)" using zn dividend_less_times_div [of 512 ?e] by simp
    show "\<forall>k. ?z div 512 \<le> k \<and> 512 * k < ?z + n \<longrightarrow> blocks ! k = ?F ! k" using B(3) by auto
  qed (use s F L B(2) fd in simp_all)
  have con: "take n (drop ?z (cat (sectors s) ?F)) = take n (drop ?z (contents s i))"
    using zn by (simp add: contents_def drop_take)
  have as: "(fd_pos f div BLOCK_SIZE < 139 \<and> (fd_pos f + size) div BLOCK_SIZE < 139)"
    using n(2) uz by (simp add: word_less_nat_alt unat_div_mod_block div_less_iff_less_mult)
  have gi: "get_inode (fd_inode f) s = Inr i" using i by (simp add: get_inode_def)
  have "?s\<lparr>file_table := file_table s\<rparr> = ?s" by simp
  then show ?thesis
    using fd heap gi sz as B(1) rl con un uz unfolding file_read_def Let_def size_def [symmetric]
    by (simp add: kmalloc_def unat_div_mod_block size_def [symmetric])
qed

theorem file_read_returns_witness:
  "\<exists>s'. file_read 3 9 small_file = Inr (4, [101, 108, 108, 111], s')"
proof -
  have F: "3 < length (file_table small_file)" "file_table small_file ! 3 = small_open"
    "inodes small_file 0xC0301000 = Some small_inode" "heap small_file = [0xC0303000, 0xC0304000, 0xC0305000]" by (simp_all add: small_file_def)
  have z: "unat (i_size small_inode) = 5" by (simp add: small_inode_def)
  have P: "unat (fd_pos small_open) = 1" "inodes small_file (fd_inode small_open) = Some small_inode"
    using F(3) by (simp_all add: small_open_def)
  have "file_read 3 9 small_file = Inr (int 4, take 4 (drop 1 (contents small_file small_inode)),
      small_file\<lparr>heap := [0xC0305000], file_table := (file_table small_file)[3 := small_open\<lparr>fd_pos := fd_pos small_open + of_nat 4\<rparr>]\<rparr>)"
    by (rule file_read_returns [OF small_layout F(1,2) P(2) small_file_ok F(4), of 9 4, unfolded P(1)]) (simp_all add: z)
  then show ?thesis unfolding small_contents by simp
qed



end
