(* ===== verification/Pipe.thy ===== *)
theory Pipe
  imports File_Ops
begin

text \<open>
  \<^verbatim>\<open>shell/pipe.c\<close>: pipes.  A pipe is a ring buffer on a page of its own; its slot in the table of
  open files holds the address of the page, a mark in place of the flags, and the number of
  descriptors in place of the position.  The translation of descriptors comes from \<^verbatim>\<open>fs/fs.c\<close>.
\<close>

definition PIPE_FLAG :: u32 where "PIPE_FLAG = 0xFFFF"

text \<open>A descriptor outside of the table of the task reads beyond the array.\<close>

definition fd_local2global :: "int \<Rightarrow> 'a fsys_scheme \<Rightarrow> nat kres" where
  "fd_local2global local_fd s =
     kbind (get_task (running s) s) (\<lambda>cur.
     kbind (if local_fd \<ge> 0 then aget (fd_table cur) (nat local_fd) else Inl Fault) (\<lambda>global_fd.
     kbind (kassert ''fd_local2global'' (global_fd \<ge> 0 \<and> global_fd < int MAX_FILE_OPEN)) (\<lambda>_.
     Inr (nat global_fd))))"

definition is_pipe :: "int \<Rightarrow> 'a fsys_scheme \<Rightarrow> bool kres" where
  "is_pipe local_fd s =
     kbind (fd_local2global local_fd s) (\<lambda>g. kbind (aget (file_table s) g) (\<lambda>f. Inr (fd_flag f = PIPE_FLAG)))"

definition get_pipe :: "u32 \<Rightarrow> 'a fsys_scheme \<Rightarrow> ioqueue kres" where
  "get_pipe p s = (case pipes s p of None \<Rightarrow> Inl Fault | Some ioq \<Rightarrow> Inr ioq)"

definition put_pipe :: "u32 \<Rightarrow> ioqueue \<Rightarrow> 'a fsys_scheme \<Rightarrow> 'a fsys_scheme" where
  "put_pipe p ioq s = s\<lparr>pipes := (pipes s)(p \<mapsto> ioq)\<rparr>"

text \<open>
  A new pipe: the page comes from \<^verbatim>\<open>get_kernel_pages\<close>, cleared; the ring buffer is initialised
  before the address is tested, so that address 0 is a fault.  The result are the return value
  and the two descriptors.
\<close>

definition sys_pipe :: "'a fsys_scheme \<Rightarrow> (int \<times> int \<times> int \<times> 'a fsys_scheme) kres" where
  "sys_pipe s =
     (let global_fd = get_free_slot_in_global s; (page, s) = kmalloc s
      in if global_fd < 0 \<or> page = 0 then Inl Fault
         else
           let ioq = ioqueue_init \<lparr>ioq_lock = lock_init, producer = 0, consumer = 0, buf = replicate bufsize 0, head = 0, tail = 0\<rparr>;
               s = put_pipe page ioq (s\<lparr>file_table := (file_table s)[nat global_fd := \<lparr>fd_pos = 2, fd_flag = PIPE_FLAG, fd_inode = page\<rparr>]\<rparr>)
           in kbind (pcb_fd_install global_fd s) (\<lambda>(fd0, s).
              kbind (pcb_fd_install global_fd s) (\<lambda>(fd1, s). Inr (0, fd0, fd1, s))))"

definition pipe_read :: "int \<Rightarrow> nat \<Rightarrow> 'a fsys_scheme \<Rightarrow> (bytes \<times> 'a fsys_scheme) kres" where
  "pipe_read fd count s =
     kbind (fd_local2global fd s) (\<lambda>global_fd.
     kbind (aget (file_table s) global_fd) (\<lambda>f.
     kbind (get_pipe (fd_inode f) s) (\<lambda>ioq.
       let ioq_len = ioq_length ioq;
           size = (if ioq_len > count then count else ioq_len)
       in kbind (get_many ioq_getchar size (ioq, s)) (\<lambda>(bs, ioq, s). Inr (bs, put_pipe (fd_inode f) ioq s)))))"

definition pipe_write :: "int \<Rightarrow> bytes \<Rightarrow> nat \<Rightarrow> 'a fsys_scheme \<Rightarrow> (nat \<times> 'a fsys_scheme) kres" where
  "pipe_write fd src count s =
     kbind (fd_local2global fd s) (\<lambda>global_fd.
     kbind (aget (file_table s) global_fd) (\<lambda>f.
     kbind (get_pipe (fd_inode f) s) (\<lambda>ioq.
       let ioq_left = bufsize - ioq_length ioq;
           size = (if ioq_left > count then count else ioq_left)
       in if length src < size then Inl Fault
          else kbind (put_many ioq_putchar (take size src) (ioq, s)) (\<lambda>(ioq, s). Inr (size, put_pipe (fd_inode f) ioq s)))))"

definition sys_fd_redirect :: "nat \<Rightarrow> nat \<Rightarrow> 'a fsys_scheme \<Rightarrow> 'a fsys_scheme kres" where
  "sys_fd_redirect old_local_fd new_local_fd s =
     kbind (get_task (running s) s) (\<lambda>cur.
     kbind (if new_local_fd < 3 then Inr (int new_local_fd) else aget (fd_table cur) new_local_fd) (\<lambda>new_fd.
     kbind (aset (fd_table cur) old_local_fd new_fd) (\<lambda>tab.
     Inr (upd_task (running s) (\<lambda>t. t\<lparr>fd_table := tab\<rparr>) s))))"

section \<open>A pipe nobody waits for\<close>

definition quiet :: "'a sched_scheme \<Rightarrow> ioqueue \<times> 'a sched_scheme \<Rightarrow> bool" where
  "quiet s0 = (\<lambda>(q, s). ioq_wf q \<and> producer q = 0 \<and> consumer q = 0 \<and> s = s0 \<and> intr_get_status (flags s) = INTR_OFF)"

interpretation quiet: bounded_queue "quiet s0" "\<lambda>(q, s). ioq_contents q" "bufsize - 1" ioq_putchar ioq_getchar for s0
proof unfold_locales
  fix q :: "ioqueue \<times> 'a sched_scheme" and x
  obtain i s where q: "q = (i, s)" by (cases q)
  assume inv: "quiet s0 q"
  then have I: "ioq_wf i" "producer i = 0" "consumer i = 0" "s = s0" "intr_get_status (flags s) = INTR_OFF"
    by (auto simp: quiet_def q)
  show "length (case q of (q, s) \<Rightarrow> ioq_contents q) \<le> bufsize - 1" using ioq_length_less [OF I(1)] by (simp add: q)
  show "\<exists>q'. ioq_putchar x q = Inr q' \<and> quiet s0 q' \<and> (case q' of (q, s) \<Rightarrow> ioq_contents q) = (case q of (q, s) \<Rightarrow> ioq_contents q) @ [x]"
    if "length (case q of (q, s) \<Rightarrow> ioq_contents q) < bufsize - 1"
  proof -
    have nf: "next_pos (head i) \<noteq> tail i" using that I(1) by (simp add: q ioq_length_full_iff)
    have h: "head i < length (buf i)" using I(1) by (simp add: ioq_wf_def)
    show ?thesis using ioq_put_contents [OF I(1) nf, of x] I nf h
      by (auto simp: q ioq_putchar_def ioq_putchar_test_def ioq_full_def quiet_def)
  qed
  show "\<exists>q'. ioq_getchar q = Inr (x, q') \<and> quiet s0 q' \<and> (case q' of (q, s) \<Rightarrow> ioq_contents q) = xs"
    if c: "(case q of (q, s) \<Rightarrow> ioq_contents q) = x # xs" for xs
  proof -
    have "ioq_length i \<noteq> 0" using c length_ioq_contents [of i] by (auto simp: q)
    then have ne: "head i \<noteq> tail i" using I(1) by (simp add: ioq_length_0_iff)
    have h: "tail i < length (buf i)" using I(1) by (simp add: ioq_wf_def)
    show ?thesis using ioq_get_contents [OF I(1) ne] I ne h c
      by (auto simp: q ioq_getchar_def ioq_getchar_test_def ioq_empty_def quiet_def)
  qed
  show "\<exists>e. ioq_putchar x q = Inl e" if "length (case q of (q, s) \<Rightarrow> ioq_contents q) = bufsize - 1"
    using that I(1,5) by (auto simp: q ioq_putchar_def ioq_putchar_test_def ioq_full_def ioq_length_full_iff kbind_def split: sum.splits)
  show "\<exists>e. ioq_getchar q = Inl e" if "(case q of (q, s) \<Rightarrow> ioq_contents q) = []"
    using that I(1,5) length_ioq_contents [of i]
    by (auto simp: q ioq_getchar_def ioq_getchar_test_def ioq_empty_def ioq_length_0_iff kbind_def split: sum.splits)
qed

text \<open>The open end of a pipe without waiting threads.\<close>

definition open_pipe :: "int \<Rightarrow> u32 \<Rightarrow> ioqueue \<Rightarrow> 'a fsys_scheme \<Rightarrow> bool" where
  "open_pipe fd p q s \<longleftrightarrow> (\<exists>g<length (file_table s). fd_local2global fd s = Inr g \<and> fd_inode (file_table s ! g) = p)
     \<and> pipes s p = Some q \<and> quiet s (q, s)"

lemma open_pipe_put: "open_pipe fd p q s \<Longrightarrow> ioq_wf q' \<Longrightarrow> producer q' = 0 \<Longrightarrow> consumer q' = 0 \<Longrightarrow> open_pipe fd p q' (put_pipe p q' s)"
  by (auto simp: open_pipe_def put_pipe_def quiet_def fd_local2global_def get_task_def)

lemma pipe_write_spec:
  assumes o: "open_pipe fd p q s" and n: "ioq_length q + n \<le> 2047" "n \<le> length src"
  shows "\<exists>q'. pipe_write fd src n s = Inr (n, put_pipe p q' s) \<and> open_pipe fd p q' (put_pipe p q' s) \<and> ioq_contents q' = ioq_contents q @ take n src"
proof -
  obtain g where g: "g < length (file_table s)" "fd_local2global fd s = Inr g" "fd_inode (file_table s ! g) = p" "pipes s p = Some q"
    and Q: "quiet s (q, s)" using o by (auto simp: open_pipe_def)
  obtain r where r: "put_many ioq_putchar (take n src) (q, s) = Inr r" "quiet s r" "(case r of (q, s) \<Rightarrow> ioq_contents q) = ioq_contents q @ take n src"
    using quiet.put_many_law [OF Q, of "take n src"] n by (auto simp: bufsize_def)
  obtain q' where q': "r = (q', s)" "ioq_wf q'" "producer q' = 0" "consumer q' = 0" using r(2) by (cases r) (auto simp: quiet_def)
  have "\<not> n > bufsize - ioq_length q" "bufsize - ioq_length q > n" using n(1) by (simp_all add: bufsize_def)
  then have "pipe_write fd src n s = Inr (n, put_pipe p q' s)"
    using g r(1) q'(1) n(2) by (simp add: pipe_write_def get_pipe_def)
  then show ?thesis using open_pipe_put [OF o q'(2-4)] r(3) q'(1) by auto
qed

lemma pipe_read_spec:
  assumes o: "open_pipe fd p q s" and k: "k = min n (ioq_length q)"
  shows "\<exists>q'. pipe_read fd n s = Inr (take k (ioq_contents q), put_pipe p q' s) \<and> open_pipe fd p q' (put_pipe p q' s)
    \<and> ioq_contents q' = drop k (ioq_contents q)"
proof -
  obtain g where g: "g < length (file_table s)" "fd_local2global fd s = Inr g" "fd_inode (file_table s ! g) = p" "pipes s p = Some q"
    and Q: "quiet s (q, s)" using o by (auto simp: open_pipe_def)
  obtain r where r: "get_many ioq_getchar k (q, s) = Inr (take k (ioq_contents q), r)" "quiet s r" "(case r of (q, s) \<Rightarrow> ioq_contents q) = drop k (ioq_contents q)"
    using quiet.get_many_law [OF Q, of "take k (ioq_contents q)" "drop k (ioq_contents q)"] k by auto
  obtain q' where q': "r = (q', s)" "ioq_wf q'" "producer q' = 0" "consumer q' = 0" using r(2) by (cases r) (auto simp: quiet_def)
  have "(if ioq_length q > n then n else ioq_length q) = k" using k by simp
  then have "pipe_read fd n s = Inr (take k (ioq_contents q), put_pipe p q' s)"
    using g r(1) q'(1) unfolding pipe_read_def by (simp add: get_pipe_def)
  then show ?thesis using open_pipe_put [OF o q'(2-4)] r(3) q'(1) by auto
qed

text \<open>C37.  A pipe passes bytes on: what is written comes out at the other end in the same order, after
  what was in the pipe before, as long as no more than 2047 bytes are in it.  Writing more than
  there is room for does not write less, as intended, but leaves the writer waiting in the
  full ring: the ring of 2048 bytes holds one byte less.\<close>

theorem pipe_transfers:
  assumes w: "open_pipe wr p q s" and rd: "fd_local2global rd s = fd_local2global wr s" and n: "n \<le> length src"
  shows "(ioq_length q + n \<le> 2047 \<longrightarrow>
      (\<exists>s1 s2. pipe_write wr src n s = Inr (n, s1) \<and> pipe_read rd (ioq_length q + n) s1 = Inr (ioq_contents q @ take n src, s2)))
    \<and> (2048 \<le> ioq_length q + n \<longrightarrow> (\<exists>e. pipe_write wr src n s = Inl e))"
proof (intro conjI impI)
  assume len: "ioq_length q + n \<le> 2047"
  obtain q1 where q1: "pipe_write wr src n s = Inr (n, put_pipe p q1 s)" "open_pipe wr p q1 (put_pipe p q1 s)" "ioq_contents q1 = ioq_contents q @ take n src"
    using pipe_write_spec [OF w len n] by blast
  have "fd_local2global fd (put_pipe p q1 s) = fd_local2global fd s" for fd by (simp add: fd_local2global_def put_pipe_def get_task_def)
  then have r: "open_pipe rd p q1 (put_pipe p q1 s)" using q1(2) rd by (simp add: open_pipe_def)
  have l: "ioq_length q1 = ioq_length q + n" using arg_cong [OF q1(3), of length] n by simp
  then show "\<exists>s1 s2. pipe_write wr src n s = Inr (n, s1) \<and> pipe_read rd (ioq_length q + n) s1 = Inr (ioq_contents q @ take n src, s2)"
    using pipe_read_spec [OF r, of "ioq_length q + n" "ioq_length q + n"] q1 n by auto
next
  assume len: "2048 \<le> ioq_length q + n"
  obtain g where g: "g < length (file_table s)" "fd_local2global wr s = Inr g" "fd_inode (file_table s ! g) = p" "pipes s p = Some q"
    and Q: "quiet s (q, s)" using w by (auto simp: open_pipe_def)
  have lt: "ioq_length q < bufsize" using Q by (intro ioq_length_less) (simp add: quiet_def)
  have "bufsize - 1 < length (case (q, s) of (q, s) \<Rightarrow> ioq_contents q) + length (take (bufsize - ioq_length q) src)"
    using len n lt by (simp add: bufsize_def)
  then obtain e where "put_many ioq_putchar (take (bufsize - ioq_length q) src) (q, s) = Inl e"
    using quiet.put_many_overflow [OF Q] by blast
  moreover have "\<not> bufsize - ioq_length q > n" "\<not> length src < bufsize - ioq_length q" using len n by (simp_all add: bufsize_def)
  ultimately have "pipe_write wr src n s = Inl e" using g by (simp add: pipe_write_def get_pipe_def)
  then show "\<exists>e. pipe_write wr src n s = Inl e" by blast
qed

text \<open>A task with a pipe under the descriptors 3 and 4.\<close>

definition small_pipe :: fsys where
  "small_pipe = small_fs\<lparr>tasks := [0x1000 \<mapsto> (kthread 1 TASK_RUNNING 10)\<lparr>fd_table := [0, 1, 2, 3, 3, - 1, - 1, - 1]\<rparr>],
     file_table := (file_table small_fs)[3 := \<lparr>fd_pos = 2, fd_flag = PIPE_FLAG, fd_inode = 0xC0400000\<rparr>],
     pipes := [0xC0400000 \<mapsto> \<lparr>ioq_lock = lock_init, producer = 0, consumer = 0, buf = replicate 2048 7, head = 2047, tail = 2046\<rparr>]\<rparr>"

theorem pipe_transfers_witness:
  "(\<exists>s1 s2. pipe_write 4 [104, 105] 2 small_pipe = Inr (2, s1) \<and> pipe_read 3 3 s1 = Inr ([7, 104, 105], s2))
    \<and> (\<exists>e. pipe_write 4 (replicate 2047 0) 2047 small_pipe = Inl e)"
proof -
  let ?q = "\<lparr>ioq_lock = lock_init, producer = 0, consumer = 0, buf = replicate 2048 7, head = 2047, tail = 2046\<rparr>"
  have g: "fd_local2global 3 small_pipe = Inr 3" "fd_local2global 4 small_pipe = Inr 3"
    by (simp_all add: fd_local2global_def small_pipe_def small_fs_def get_task_def MAX_FILE_OPEN_def)
  have f: "length (file_table small_pipe) = 32" "fd_inode (file_table small_pipe ! 3) = 0xC0400000" "pipes small_pipe 0xC0400000 = Some ?q"
    "intr_get_status (flags small_pipe) = INTR_OFF"
    by (simp_all add: small_pipe_def small_fs_def intr_get_status_def EFLAGS_IF_def)
  have o: "open_pipe 4 0xC0400000 ?q small_pipe"
    unfolding open_pipe_def quiet_def using g f by (simp add: ioq_wf_def bufsize_def)
  have c: "ioq_contents ?q = [7]" "ioq_length ?q = 1" by (simp_all add: ioq_contents_def ioq_length_def bufsize_def)
  show ?thesis using pipe_transfers [OF o, of 3 2 "[104, 105]"] pipe_transfers [OF o, of 3 2047 "replicate 2047 0"] g c by (simp add: numeral_3_eq_3)
qed

end
