(* ===== verification/Fs.thy ===== *)
theory Fs
  imports Fs_Path Pipe
begin

text \<open>
  The system calls of \<^verbatim>\<open>fs/fs.c\<close> on the mounted partition.  Paths are strings without their
  terminating zero; descriptors and the numbers returned are integers, -1 for an error.

  \<open>stale\<close> is what the local variables contain that the calls do not initialise: the name in the
  two calls of \<^verbatim>\<open>path_depth_cnt\<close>, and the directory entry in \<^verbatim>\<open>search_file\<close>.
\<close>

record stale =
  name_buf :: bytes
  name_buf2 :: bytes
  entry_buf :: bytes

section \<open>Opening and closing\<close>

text \<open>\<^verbatim>\<open>strrchr(s, '/') + 1\<close>: what follows the last slash.\<close>

definition after_slash :: "bytes \<Rightarrow> bytes kres" where
  "after_slash s = (if 47 \<in> set s then Inr (rev (takeWhile (\<lambda>c. c \<noteq> 47) (rev s))) else Inl Fault)"

definition O_CREAT :: u8 where "O_CREAT = 4"

definition sys_open :: "stale \<Rightarrow> bytes \<Rightarrow> u8 \<Rightarrow> 'a fsys_scheme \<Rightarrow> (int \<times> 'a fsys_scheme) kres" where
  "sys_open st pathname oflags s =
     (if pathname = [] then Inl Fault
      else if last pathname = 47 then Inr (- 1, s)
      else
        kbind (kassert ''sys_open'' (oflags \<le> 7)) (\<lambda>_.
        kbind (path_depth_cnt (name_buf st) pathname) (\<lambda>pathname_depth.
        kbind (search_file (entry_buf st) pathname s) (\<lambda>(inode_no, rec, s).
        let found = (inode_no \<noteq> - 1)
        in if file_type rec = FT_DIRECTORY then kbind (dir_close (parent_dir rec) s) (\<lambda>s. Inr (- 1, s))
           else
             kbind (path_depth_cnt (name_buf2 st) (searched_path rec)) (\<lambda>path_searched_depth.
             if pathname_depth \<noteq> path_searched_depth then kbind (dir_close (parent_dir rec) s) (\<lambda>s. Inr (- 1, s))
             else if \<not> found \<and> oflags AND O_CREAT = 0 then kbind (dir_close (parent_dir rec) s) (\<lambda>s. Inr (- 1, s))
             else if found \<and> oflags AND O_CREAT \<noteq> 0 then kbind (dir_close (parent_dir rec) s) (\<lambda>s. Inr (- 1, s))
             else if oflags AND O_CREAT = O_CREAT then
               kbind (after_slash pathname) (\<lambda>name.
               kbind (file_create (parent_dir rec) name oflags s) (\<lambda>(fd, s).
               kbind (dir_close (parent_dir rec) s) (\<lambda>s. Inr (fd, s))))
             else file_open inode_no oflags s)))))"

text \<open>The last descriptor of a pipe gives the page of its ring back (\<^verbatim>\<open>mfree_page\<close>).\<close>

definition sys_close :: "int \<Rightarrow> 'a fsys_scheme \<Rightarrow> (int \<times> 'a fsys_scheme) kres" where
  "sys_close fd s =
     (if fd > 2 then
        kbind (fd_local2global fd s) (\<lambda>global_fd.
        kbind (is_pipe fd s) (\<lambda>pipe.
        kbind (aget (file_table s) global_fd) (\<lambda>f.
        kbind (if pipe then
                 let f' = f\<lparr>fd_pos := fd_pos f - 1\<rparr>
                 in if fd_pos f' = 0
                    then Inr (0, s\<lparr>pipes := (pipes s)(fd_inode f := None), file_table := (file_table s)[global_fd := f'\<lparr>fd_inode := 0\<rparr>]\<rparr>)
                    else Inr (0, s\<lparr>file_table := (file_table s)[global_fd := f']\<rparr>)
               else file_close global_fd s) (\<lambda>(ret, s).
        Inr (ret, upd_task (running s) (\<lambda>t. t\<lparr>fd_table := (fd_table t)[nat fd := - 1]\<rparr>) s)))))
      else Inr (- 1, s))"

section \<open>Reading and writing\<close>

definition O_WRONLY :: u32 where "O_WRONLY = 1"
definition O_RDWR :: u32 where "O_RDWR = 2"

text \<open>The result of \<^verbatim>\<open>sys_write\<close> is the return value and the text handed to \<^verbatim>\<open>printk\<close>; the array on the
  stack that the text is copied to has 1024 bytes, and the text ends at its first zero.\<close>

definition sys_write :: "int \<Rightarrow> bytes \<Rightarrow> u32 \<Rightarrow> 'a fsys_scheme \<Rightarrow> (int \<times> bytes \<times> 'a fsys_scheme) kres" where
  "sys_write fd src count s =
     (if fd < 0 then Inr (- 1, [], s)
      else
        kbind (is_pipe fd s) (\<lambda>pipe.
        if pipe then kbind (pipe_write fd src (unat count) s) (\<lambda>(n, s). Inr (int n, [], s))
        else if fd = 1 then
          kbind (copy_bytes (unat count) src 0 (replicate 1024 0) 0) (\<lambda>tmp_buf.
          kbind (cstring tmp_buf) (\<lambda>text. Inr (int (unat count), text, s)))
        else
          kbind (fd_local2global fd s) (\<lambda>g.
          kbind (aget (file_table s) g) (\<lambda>wr_file.
          if fd_flag wr_file AND O_WRONLY \<noteq> 0 \<or> fd_flag wr_file AND O_RDWR \<noteq> 0
          then kbind (file_write g src count s) (\<lambda>(n, s). Inr (n, [], s))
          else Inr (- 1, [], s)))))"

definition read_keys :: "nat \<Rightarrow> 'a fsys_scheme \<Rightarrow> (bytes \<times> 'a fsys_scheme) kres" where
  "read_keys n s = kbind (get_many ioq_getchar n (kbdq s, s)) (\<lambda>(bs, q, s). Inr (bs, s\<lparr>kbdq := q\<rparr>))"

text \<open>The result is the return value and the bytes stored in \<^verbatim>\<open>buf\<close>; \<open>nonnull\<close>: the pointer is not
  \<^verbatim>\<open>NULL\<close>.\<close>

definition sys_read :: "int \<Rightarrow> bool \<Rightarrow> u32 \<Rightarrow> 'a fsys_scheme \<Rightarrow> (int \<times> bytes \<times> 'a fsys_scheme) kres" where
  "sys_read fd nonnull count s =
     kbind (kassert ''sys_read'' nonnull) (\<lambda>_.
     if fd < 0 \<or> fd = 1 \<or> fd = 2 then Inr (- 1, [], s)
     else
       kbind (is_pipe fd s) (\<lambda>pipe.
       if pipe then kbind (pipe_read fd (unat count) s) (\<lambda>(bs, s). Inr (int (length bs), bs, s))
       else if fd = 0 then
         kbind (read_keys (unat count) s) (\<lambda>(bs, s). Inr (if count = 0 then - 1 else int (unat count), bs, s))
       else
         kbind (fd_local2global fd s) (\<lambda>g. file_read g count s)))"

text \<open>Positions and offsets are signed 32-bit numbers; sums wrap.\<close>

definition sys_lseek :: "int \<Rightarrow> u32 \<Rightarrow> u8 \<Rightarrow> 'a fsys_scheme \<Rightarrow> (int \<times> 'a fsys_scheme) kres" where
  "sys_lseek fd offset whence s =
     (if fd < 0 then Inr (- 1, s)
      else
        kbind (kassert ''sys_lseek'' (whence > 0 \<and> whence < 4)) (\<lambda>_.
        kbind (fd_local2global fd s) (\<lambda>g.
        kbind (aget (file_table s) g) (\<lambda>pf.
        kbind (get_inode (fd_inode pf) s) (\<lambda>i.
          let file_size = i_size i;
              new_pos = (if whence = 1 then offset else if whence = 2 then fd_pos pf + offset else file_size + offset)
          in if sint new_pos < 0 \<or> sint new_pos > sint (file_size - 1) then Inr (- 1, s)
             else Inr (sint new_pos, s\<lparr>file_table := (file_table s)[g := pf\<lparr>fd_pos := new_pos\<rparr>]\<rparr>))))))"

section \<open>Removing files\<close>

text \<open>The number at the start of what an open file points to: an i-node, or the lock of a ring, whose
  first word is the thread that holds it.\<close>

definition open_no :: "u32 \<Rightarrow> 'a fsys_scheme \<Rightarrow> u32 kres" where
  "open_no p s =
     (case inodes s p of Some i \<Rightarrow> Inr (i_no i) | None \<Rightarrow> (case pipes s p of Some q \<Rightarrow> Inr (holder (ioq_lock q)) | None \<Rightarrow> Inl Fault))"

fun in_use :: "u32 \<Rightarrow> open_file list \<Rightarrow> 'a fsys_scheme \<Rightarrow> bool kres" where
  "in_use inode_no [] s = Inr False"
| "in_use inode_no (f # fs) s =
     (if fd_inode f \<noteq> 0 then kbind (open_no (fd_inode f) s) (\<lambda>n. if n = inode_no then Inr True else in_use inode_no fs s)
      else in_use inode_no fs s)"

definition sys_unlink :: "stale \<Rightarrow> bytes \<Rightarrow> 'a fsys_scheme \<Rightarrow> (int \<times> 'a fsys_scheme) kres" where
  "sys_unlink st pathname s =
     kbind (kassert ''sys_unlink'' (length pathname < MAX_PATH_LEN)) (\<lambda>_.
     kbind (search_file (entry_buf st) pathname s) (\<lambda>(inode_no, rec, s).
     kbind (kassert ''sys_unlink'' (inode_no \<noteq> 0)) (\<lambda>_.
     if inode_no = - 1 \<or> file_type rec = FT_DIRECTORY then kbind (dir_close (parent_dir rec) s) (\<lambda>s. Inr (- 1, s))
     else
       kbind (in_use inode_no (take MAX_FILE_OPEN (file_table s)) s) (\<lambda>used.
       if used then kbind (dir_close (parent_dir rec) s) (\<lambda>s. Inr (- 1, s))
       else
         let (io_buf, s) = kmalloc s
         in if io_buf = 0 then kbind (dir_close (parent_dir rec) s) (\<lambda>s. Inr (- 1, s))
            else
              kbind (delete_dir_entry (parent_dir rec) inode_no s) (\<lambda>(_, s).
              kbind (inode_release inode_no s) (\<lambda>s.
              kbind (dir_close (parent_dir rec) s) (\<lambda>s. Inr (0, s))))))))"

section \<open>Directories\<close>

text \<open>The sector with the entries \<^verbatim>\<open>.\<close> and \<^verbatim>\<open>..\<close> of a directory.\<close>

definition dot_entries :: "u32 \<Rightarrow> u32 \<Rightarrow> bytes" where
  "dot_entries self parent =
     overwrite 44 (le32 FT_DIRECTORY) (overwrite 40 (le32 parent) (overwrite 24 [46, 46]
       (overwrite 20 (le32 FT_DIRECTORY) (overwrite 16 (le32 self) (overwrite 0 [46] (replicate 512 0))))))"

text \<open>The steps of the rollback: 2 gives the i-node number back, 1 closes the directory.\<close>

definition mkdir_rollback :: "nat \<Rightarrow> path_search_record \<Rightarrow> u32 \<Rightarrow> 'a fsys_scheme \<Rightarrow> (int \<times> 'a fsys_scheme) kres" where
  "mkdir_rollback step rec inode_no s =
     kbind (if step \<ge> 2 then kbind (bitmap_set (inode_bitmap s) (unat inode_no) 0) (\<lambda>b. Inr (s\<lparr>inode_bitmap := b\<rparr>)) else Inr s) (\<lambda>s.
     kbind (dir_close (parent_dir rec) s) (\<lambda>s. Inr (- 1, s)))"

text \<open>The new directory: its block, its i-node and its entry in the parent.\<close>

definition make_directory :: "path_search_record \<Rightarrow> bytes \<Rightarrow> u32 \<Rightarrow> 'a fsys_scheme \<Rightarrow> (int \<times> 'a fsys_scheme) kres" where
  "make_directory rec dirname inode_no s =
     kbind (block_bitmap_alloc s) (\<lambda>(block_lba, s).
     if block_lba = - 1 then mkdir_rollback 2 rec inode_no s
     else
       let block_bitmap_idx = block_lba - data_start_lba (sb s)
       in kbind (kassert ''sys_mkdir'' (block_bitmap_idx \<noteq> 0)) (\<lambda>_.
          kbind (bitmap_sync block_bitmap_idx BLOCK_BITMAP s) (\<lambda>s.
          kbind (dir_inode (parent_dir rec) s) (\<lambda>(_, parent).
          kbind (disk_write block_lba (dot_entries inode_no (i_no parent)) 1 s) (\<lambda>s.
          let new_dir_inode = (inode_init inode_no)\<lparr>i_size := 2 * dir_entry_size (sb s), i_sectors := block_lba # replicate 12 0\<rparr>
          in kbind (create_dir_entry dirname inode_no (ucast FT_DIRECTORY) (replicate 24 0)) (\<lambda>new_dir_entry.
             kbind (sync_dir_entry (parent_dir rec) new_dir_entry s) (\<lambda>(ok, s).
             if \<not> ok then mkdir_rollback 2 rec inode_no s
             else
               kbind (dir_inode (parent_dir rec) s) (\<lambda>(_, parent).
               kbind (inode_sync parent s) (\<lambda>s.
               kbind (inode_sync new_dir_inode s) (\<lambda>s.
               kbind (bitmap_sync inode_no INODE_BITMAP s) (\<lambda>s.
               kbind (dir_close (parent_dir rec) s) (\<lambda>s. Inr (0, s)))))))))))))"

definition sys_mkdir :: "stale \<Rightarrow> bytes \<Rightarrow> 'a fsys_scheme \<Rightarrow> (int \<times> 'a fsys_scheme) kres" where
  "sys_mkdir st pathname s =
     (let (io_buf, s) = kmalloc s
      in if io_buf = 0 then Inr (- 1, s)
         else
           kbind (search_file (entry_buf st) pathname s) (\<lambda>(inode_no, rec, s).
           if inode_no \<noteq> - 1 then mkdir_rollback 1 rec inode_no s
           else
             kbind (path_depth_cnt (name_buf st) pathname) (\<lambda>pathname_depth.
             kbind (path_depth_cnt (name_buf2 st) (searched_path rec)) (\<lambda>path_searched_depth.
             if pathname_depth \<noteq> path_searched_depth then mkdir_rollback 1 rec inode_no s
             else
               kbind (after_slash (searched_path rec)) (\<lambda>dirname.
               kbind (inode_bitmap_alloc s) (\<lambda>(inode_no, s).
               if inode_no = - 1 then mkdir_rollback 1 rec inode_no s
               else make_directory rec dirname inode_no s))))))"

text \<open>\<open>None\<close> is \<^verbatim>\<open>NULL\<close>.  The second test of the root path in the source compares the first character twice.\<close>

definition sys_opendir :: "stale \<Rightarrow> bytes \<Rightarrow> 'a fsys_scheme \<Rightarrow> (dir_ptr option \<times> 'a fsys_scheme) kres" where
  "sys_opendir st pathname s =
     kbind (kassert ''sys_opendir'' (length pathname < MAX_PATH_LEN)) (\<lambda>_.
     if pathname \<noteq> [] \<and> hd pathname = 47 \<and> (length pathname = 1 \<or> hd pathname = 46) then Inr (Some Root_dir, s)
     else
       kbind (search_file (entry_buf st) pathname s) (\<lambda>(inode_no, rec, s).
       kbind (if inode_no \<noteq> - 1 \<and> file_type rec \<noteq> FT_REGULAR \<and> file_type rec = FT_DIRECTORY
              then kbind (dir_open inode_no s) (\<lambda>(dp, s). Inr (Some dp, s)) else Inr (None, s)) (\<lambda>(ret, s).
       kbind (dir_close (parent_dir rec) s) (\<lambda>s. Inr (ret, s)))))"

definition sys_closedir :: "dir_ptr option \<Rightarrow> 'a fsys_scheme \<Rightarrow> (int \<times> 'a fsys_scheme) kres" where
  "sys_closedir dp s = (case dp of None \<Rightarrow> Inr (- 1, s) | Some dp \<Rightarrow> kbind (dir_close dp s) (\<lambda>s. Inr (0, s)))"

definition sys_readdir :: "dir_ptr option \<Rightarrow> 'a fsys_scheme \<Rightarrow> (bytes option \<times> 'a fsys_scheme) kres" where
  "sys_readdir dp s = (case dp of None \<Rightarrow> Inl (Assert_fail ''sys_readdir'') | Some dp \<Rightarrow> dir_read dp s)"

definition sys_rewinddir :: "dir_ptr \<Rightarrow> 'a fsys_scheme \<Rightarrow> 'a fsys_scheme kres" where
  "sys_rewinddir dp s = kbind (get_dir dp s) (\<lambda>d. Inr (put_dir dp (d\<lparr>dir_pos := 0\<rparr>) s))"

definition sys_rmdir :: "stale \<Rightarrow> bytes \<Rightarrow> 'a fsys_scheme \<Rightarrow> (int \<times> 'a fsys_scheme) kres" where
  "sys_rmdir st pathname s =
     kbind (search_file (entry_buf st) pathname s) (\<lambda>(inode_no, rec, s).
     kbind (kassert ''sys_rmdir'' (inode_no \<noteq> 0)) (\<lambda>_.
     kbind (if inode_no = - 1 \<or> file_type rec = FT_REGULAR then Inr (- 1, s)
            else
              kbind (dir_open inode_no s) (\<lambda>(dp, s).
              kbind (dir_is_empty dp s) (\<lambda>empty.
              kbind (if \<not> empty then Inr (- 1, s)
                     else kbind (dir_remove (parent_dir rec) dp s) (\<lambda>(r, s). Inr (if r = 0 then 0 else - 1, s))) (\<lambda>(retval, s).
              kbind (dir_close dp s) (\<lambda>s. Inr (retval, s)))))) (\<lambda>(retval, s).
     kbind (dir_close (parent_dir rec) s) (\<lambda>s. Inr (retval, s)))))"

section \<open>The working directory\<close>

definition get_parent_dir_inode_nr :: "u32 \<Rightarrow> 'a fsys_scheme \<Rightarrow> (u32 \<times> 'a fsys_scheme) kres" where
  "get_parent_dir_inode_nr child_inode_nr s =
     kbind (inode_open child_inode_nr s) (\<lambda>(p, s).
     kbind (get_inode p s) (\<lambda>child_dir_inode.
     kbind (aget (i_sectors child_dir_inode) 0) (\<lambda>block_lba.
     kbind (kassert ''get_parent_dir_inode_nr'' (block_lba \<ge> data_start_lba (sb s))) (\<lambda>_.
     kbind (inode_close p s) (\<lambda>s.
     kbind (disk_read block_lba 1 s) (\<lambda>io_buf.
     kbind (entry_at io_buf 1) (\<lambda>e.
     kbind (kassert ''get_parent_dir_inode_nr'' (de_ino e < 4096 \<and> de_type e = FT_DIRECTORY)) (\<lambda>_.
     Inr (de_ino e, s)))))))))"

text \<open>The name in entry \<open>k\<close> of a sector runs on to the next zero.\<close>

fun child_in_sector :: "u32 \<Rightarrow> bytes \<Rightarrow> nat list \<Rightarrow> bytes \<Rightarrow> bytes option kres" where
  "child_in_sector c_inode_nr io_buf [] path = Inr None"
| "child_in_sector c_inode_nr io_buf (k # ks) path =
     kbind (entry_at io_buf k) (\<lambda>e.
     if de_ino e = c_inode_nr then
       kbind (cat_string MAX_PATH_LEN path [47]) (\<lambda>path.
       kbind (cstring (drop (24 * k) io_buf)) (\<lambda>nm.
       kbind (cat_string MAX_PATH_LEN path nm) (\<lambda>path. Inr (Some path))))
     else child_in_sector c_inode_nr io_buf ks path)"

fun child_in_blocks :: "u32 \<Rightarrow> u32 list \<Rightarrow> bytes \<Rightarrow> 'a fsys_scheme \<Rightarrow> bytes option kres" where
  "child_in_blocks c_inode_nr [] path s = Inr None"
| "child_in_blocks c_inode_nr (b # bs) path s =
     (if b \<noteq> 0 then
        kbind (disk_read b 1 s) (\<lambda>io_buf.
        kbind (child_in_sector c_inode_nr io_buf [0..<512 div unat (dir_entry_size (sb s))] path) (\<lambda>r.
        case r of Some path \<Rightarrow> Inr (Some path) | None \<Rightarrow> child_in_blocks c_inode_nr bs path s))
      else child_in_blocks c_inode_nr bs path s)"

text \<open>The path with the name added, or \<open>None\<close> for the return value -1.\<close>

definition get_child_dir_name :: "u32 \<Rightarrow> u32 \<Rightarrow> bytes \<Rightarrow> 'a fsys_scheme \<Rightarrow> (bytes option \<times> 'a fsys_scheme) kres" where
  "get_child_dir_name p_inode_nr c_inode_nr path s =
     kbind (inode_open p_inode_nr s) (\<lambda>(p, s).
     kbind (get_inode p s) (\<lambda>parent_dir_inode.
     kbind (all_blocks parent_dir_inode s) (\<lambda>blocks.
     kbind (aget (i_sectors parent_dir_inode) 12) (\<lambda>table.
     kbind (inode_close p s) (\<lambda>s.
     if dir_entry_size (sb s) = 0 then Inl Fault
     else kbind (child_in_blocks c_inode_nr (take (if table \<noteq> 0 then 140 else 12) blocks) path s) (\<lambda>r. Inr (r, s)))))))"

lemma child_in_sector_longer: "child_in_sector c bs ks path = Inr (Some path') \<Longrightarrow> length path < length path' \<and> length path' < 512"
  by (induction ks) (auto simp: cat_string_def MAX_PATH_LEN_def split: if_splits)

lemma child_in_blocks_longer: "child_in_blocks c bs path s = Inr (Some path') \<Longrightarrow> length path < length path' \<and> length path' < 512"
  by (induction bs) (auto split: if_splits option.splits dest: child_in_sector_longer)

lemma child_name_longer: "get_child_dir_name p c path s = Inr (Some path', s') \<Longrightarrow> length path < length path' \<and> length path' < 512"
  by (auto simp: get_child_dir_name_def split: if_splits dest!: child_in_blocks_longer)

text \<open>The walk up to the root ends: every step makes the path in the array of 512 bytes longer.\<close>

function cwd_loop :: "u32 \<Rightarrow> bytes \<Rightarrow> 'a fsys_scheme \<Rightarrow> (bytes option \<times> 'a fsys_scheme) kres" where
  "cwd_loop child_inode_nr path s =
     (if child_inode_nr \<noteq> 0 then
        kbind (get_parent_dir_inode_nr child_inode_nr s) (\<lambda>(parent_inode_nr, s).
        kbind (get_child_dir_name parent_inode_nr child_inode_nr path s) (\<lambda>(r, s).
        case r of None \<Rightarrow> Inr (None, s) | Some path \<Rightarrow> cwd_loop parent_inode_nr path s))
      else Inr (Some path, s))"
  by pat_completeness auto
termination
  by (relation "measure (\<lambda>(c, path, s). 512 - length path)") (auto dest!: child_name_longer)

declare cwd_loop.simps [simp del]

text \<open>\<^verbatim>\<open>/c/b/a\<close> becomes \<^verbatim>\<open>/a/b/c\<close>: the part from the last slash on is moved to the result.\<close>

function reverse_path :: "bytes \<Rightarrow> bytes \<Rightarrow> bytes" where
  "reverse_path full_path_reverse acc =
     (if 47 \<in> set full_path_reverse then
        let last_part = rev (takeWhile (\<lambda>c. c \<noteq> 47) (rev full_path_reverse))
        in reverse_path (take (length full_path_reverse - length last_part - 1) full_path_reverse) (acc @ 47 # last_part)
      else acc)"
  by pat_completeness auto
termination
  by (relation "measure (\<lambda>(p, acc). length p)") (auto simp: length_pos_if_in_set intro!: diff_less)

declare reverse_path.simps [simp del]

text \<open>\<open>buf_len\<close> is the size of the buffer of the caller, \<open>nonnull\<close>: its pointer is not \<^verbatim>\<open>NULL\<close>.  The result is the
  string in the buffer, \<open>None\<close> for \<^verbatim>\<open>NULL\<close>.\<close>

definition sys_getcwd :: "bool \<Rightarrow> nat \<Rightarrow> 'a fsys_scheme \<Rightarrow> (bytes option \<times> 'a fsys_scheme) kres" where
  "sys_getcwd nonnull buf_len s =
     kbind (kassert ''sys_getcwd'' nonnull) (\<lambda>_.
      let (io_buf, s) = kmalloc s
      in if io_buf = 0 then Inr (None, s)
         else
           kbind (get_task (running s) s) (\<lambda>cur_thread.
           kbind (kassert ''sys_getcwd'' (0 \<le> sint (cwd_inode_nr cur_thread) \<and> sint (cwd_inode_nr cur_thread) < 4096)) (\<lambda>_.
           if cwd_inode_nr cur_thread = 0 then if buf_len < 2 then Inl Fault else Inr (Some [47], s)
           else
             kbind (cwd_loop (cwd_inode_nr cur_thread) [] s) (\<lambda>(r, s).
             case r of
               None \<Rightarrow> Inr (None, s)
             | Some path \<Rightarrow>
                 kbind (kassert ''sys_getcwd'' (length path \<le> buf_len)) (\<lambda>_.
                 if length path < buf_len then Inr (Some (reverse_path path []), s) else Inl Fault)))))"

definition sys_chdir :: "stale \<Rightarrow> bytes \<Rightarrow> 'a fsys_scheme \<Rightarrow> (int \<times> 'a fsys_scheme) kres" where
  "sys_chdir st path s =
     kbind (search_file (entry_buf st) path s) (\<lambda>(inode_no, rec, s).
       let (ret, s) = (if inode_no \<noteq> - 1 \<and> file_type rec = FT_DIRECTORY
                       then (0, upd_task (running s) (\<lambda>t. t\<lparr>cwd_inode_nr := inode_no\<rparr>) s) else (- 1, s))
       in kbind (dir_close (parent_dir rec) s) (\<lambda>s. Inr (ret, s)))"

section \<open>File attributes\<close>

record stat =
  st_ino :: u32
  st_size :: u32
  st_filetype :: u32

text \<open>\<open>st_buf\<close> is the structure the caller provides.\<close>

definition sys_stat :: "stale \<Rightarrow> bytes \<Rightarrow> stat \<Rightarrow> 'a fsys_scheme \<Rightarrow> (int \<times> stat \<times> 'a fsys_scheme) kres" where
  "sys_stat st path st_buf s =
     (if path = [47] \<or> path = [47, 46] \<or> path = [47, 46, 46] then
        kbind (dir_inode Root_dir s) (\<lambda>(_, i). Inr (0, \<lparr>st_ino = 0, st_size = i_size i, st_filetype = FT_DIRECTORY\<rparr>, s))
      else
        kbind (search_file (entry_buf st) path s) (\<lambda>(inode_no, rec, s).
        kbind (if inode_no \<noteq> - 1 then
                 kbind (inode_open inode_no s) (\<lambda>(p, s).
                 kbind (get_inode p s) (\<lambda>obj_inode.
                 kbind (inode_close p s) (\<lambda>s.
                 Inr (0, \<lparr>st_ino = inode_no, st_size = i_size obj_inode, st_filetype = file_type rec\<rparr>, s))))
               else Inr (- 1, st_buf, s)) (\<lambda>(ret, st_buf, s).
        kbind (dir_close (parent_dir rec) s) (\<lambda>s. Inr (ret, st_buf, s)))))"

end
