(* ===== verification/Fs_Format.thy ===== *)
theory Fs_Format
  imports Fs
begin

text \<open>
  The creation and the mounting of a file system, \<^verbatim>\<open>partition_format\<close>, \<^verbatim>\<open>mount_partition\<close>
  and \<^verbatim>\<open>filesys_init\<close> of \<^verbatim>\<open>fs/fs.c\<close>.

  \<^verbatim>\<open>filesys_init\<close> skips the first disk of every channel and never resets \<^verbatim>\<open>part_idx\<close>, so
  only the partitions of the second disk of the first channel are looked at; \<^verbatim>\<open>sdb1\<close>, the
  partition that is mounted, is on that disk as well.  \<open>sectors\<close> is this disk.

  Two things the source does not initialise are parameters: \<open>pad\<close>, the 460 bytes at the
  end of the super block on the stack, and the bytes that lie in memory behind the two
  bitmaps, \<open>behind\<close>.
\<close>

section \<open>Formatting\<close>

definition sb_bytes :: "super_block \<Rightarrow> bytes \<Rightarrow> bytes" where
  "sb_bytes b pad =
     bytes_of [magic b, sb_sec_cnt b, inode_cnt b, part_lba_base b, block_bitmap_lba b, block_bitmap_sects b, inode_bitmap_lba b,
       inode_bitmap_sects b, inode_table_lba b, inode_table_sects b, data_start_lba b, root_inode_no b, dir_entry_size b] @ pad"

definition sb_of_bytes :: "bytes \<Rightarrow> super_block" where
  "sb_of_bytes bs =
     \<lparr>magic = get32 bs 0, sb_sec_cnt = get32 bs 4, inode_cnt = get32 bs 8, part_lba_base = get32 bs 12, block_bitmap_lba = get32 bs 16,
      block_bitmap_sects = get32 bs 20, inode_bitmap_lba = get32 bs 24, inode_bitmap_sects = get32 bs 28, inode_table_lba = get32 bs 32,
      inode_table_sects = get32 bs 36, data_start_lba = get32 bs 40, root_inode_no = get32 bs 44, dir_entry_size = get32 bs 48\<rparr>"

text \<open>The number of data blocks of a partition of \<open>cnt\<close> sectors.\<close>

definition block_bitmap_bit_len :: "u32 \<Rightarrow> u32" where
  "block_bitmap_bit_len cnt =
     (let used_sects = 1 + 1 + DIV_ROUND_UP MAX_FILES_PER_PART BITS_PER_SECTOR + DIV_ROUND_UP (76 * MAX_FILES_PER_PART) 512;
          free_sects = cnt - used_sects
      in free_sects - DIV_ROUND_UP free_sects BITS_PER_SECTOR)"

definition format_sb :: "u32 \<Rightarrow> u32 \<Rightarrow> super_block" where
  "format_sb start cnt =
     (let bb_lba = start + 2;
          bb_sects = DIV_ROUND_UP (block_bitmap_bit_len cnt) BITS_PER_SECTOR;
          ib_lba = bb_lba + bb_sects;
          ib_sects = DIV_ROUND_UP MAX_FILES_PER_PART BITS_PER_SECTOR;
          it_lba = ib_lba + ib_sects;
          it_sects = DIV_ROUND_UP (76 * MAX_FILES_PER_PART) 512
      in \<lparr>magic = SUPER_MAGIC, sb_sec_cnt = cnt, inode_cnt = MAX_FILES_PER_PART, part_lba_base = start,
          block_bitmap_lba = bb_lba, block_bitmap_sects = bb_sects, inode_bitmap_lba = ib_lba, inode_bitmap_sects = ib_sects,
          inode_table_lba = it_lba, inode_table_sects = it_sects, data_start_lba = it_lba + it_sects, root_inode_no = 0,
          dir_entry_size = 24\<rparr>)"

text \<open>The loop that clears the bits \<open>bit_idx\<close> to \<open>last_bit\<close> of a byte; \<open>n\<close> counts the steps left.\<close>

fun clear_bits :: "nat \<Rightarrow> nat \<Rightarrow> u8 \<Rightarrow> u8" where
  "clear_bits 0 bit_idx x = x"
| "clear_bits (Suc n) bit_idx x = clear_bits n (Suc bit_idx) (x AND NOT (push_bit bit_idx 1))"

text \<open>
  The image of the block bitmap in the cleared buffer: bit 0 is the block of the root
  directory; the bytes from the last one to the end of its sector are set, and the bits of
  the last byte cleared again, up to \<^verbatim>\<open>block_bitmap_last_bit\<close> inclusive.
\<close>

definition block_bitmap_image :: "u32 \<Rightarrow> nat \<Rightarrow> bytes kres" where
  "block_bitmap_image bit_len buf_size =
     (let last_byte = unat (bit_len div 8);
          last_bit = unat (bit_len mod 8);
          last_size = 512 - last_byte mod 512
      in kbind (aset (replicate buf_size 0) 0 1) (\<lambda>img.
         if last_byte + last_size \<le> buf_size then
           let img = overwrite last_byte (replicate last_size 0xFF) img
           in kbind (aget img last_byte) (\<lambda>x. aset img last_byte (clear_bits (Suc last_bit) 0 x))
         else Inl Fault))"

definition partition_format :: "bytes \<Rightarrow> u32 \<Rightarrow> u32 \<Rightarrow> 'a fsys_scheme \<Rightarrow> 'a fsys_scheme kres" where
  "partition_format pad start cnt s =
     (let b = format_sb start cnt
      in kbind (disk_write (start + 1) (sb_bytes b pad) 1 s) (\<lambda>s.
           let m = (if block_bitmap_sects b \<ge> inode_bitmap_sects b then block_bitmap_sects b else inode_bitmap_sects b);
               buf_size = unat ((if m \<ge> inode_table_sects b then m else inode_table_sects b) * 512);
               (buf, s) = kmalloc s
           in if buf = 0 then Inl Fault
              else
                kbind (block_bitmap_image (block_bitmap_bit_len cnt) buf_size) (\<lambda>img.
                kbind (disk_write (block_bitmap_lba b) img (unat (block_bitmap_sects b)) s) (\<lambda>s.
                kbind (disk_write (inode_bitmap_lba b) (overwrite 0 [1] (replicate buf_size 0)) (unat (inode_bitmap_sects b)) s) (\<lambda>s.
                let i = \<lparr>i_no = 0, i_size = dir_entry_size b * 2, i_open_cnts = 0, write_deny = False,
                         i_sectors = data_start_lba b # replicate 12 0\<rparr>
                in kbind (disk_write (inode_table_lba b) (overwrite 0 (inode_bytes i) (replicate buf_size 0)) (unat (inode_table_sects b)) s) (\<lambda>s.
                   disk_write (data_start_lba b) (overwrite 0 (dot_entries 0 0) (replicate buf_size 0)) 1 s))))))"

section \<open>Mounting\<close>

text \<open>\<^verbatim>\<open>mount_partition\<close> behind its test of the name.\<close>

definition mount_partition :: "bytes \<Rightarrow> partition \<Rightarrow> 'a fsys_scheme \<Rightarrow> 'a fsys_scheme kres" where
  "mount_partition behind part s =
     (let (sb_buf, s) = kmalloc s;
          (sbp, s) = kmalloc s
      in if sbp = 0 then Inl (Panic ''alloc memory failed!'')
         else
           kbind (kassert ''memset'' (sb_buf \<noteq> 0)) (\<lambda>_.
           kbind (disk_read (start_lba part + 1) 1 s) (\<lambda>bs.
           let b = sb_of_bytes bs;
               (bb, s) = kmalloc s
           in if bb = 0 then Inl (Panic ''alloc memory failed!'')
              else
                kbind (disk_read (block_bitmap_lba b) (unat (block_bitmap_sects b)) s) (\<lambda>bbits.
                let (ib, s) = kmalloc s
                in if ib = 0 then Inl (Panic ''alloc memory failed!'')
                   else
                     kbind (disk_read (inode_bitmap_lba b) (unat (inode_bitmap_sects b)) s) (\<lambda>ibits.
                     Inr (s\<lparr>part_start := start_lba part, part_sec_cnt := sec_cnt part, sb := b,
                            block_bitmap := \<lparr>btmp_bytes_len = unat (block_bitmap_sects b * 512), bits = bbits @ behind\<rparr>,
                            inode_bitmap := \<lparr>btmp_bytes_len = unat (inode_bitmap_sects b * 512), bits = ibits @ behind\<rparr>,
                            open_inodes := []\<rparr>))))))"

text \<open>The traversal of the list of partitions; the result tells whether one was mounted.\<close>

definition part_at :: "ide_channel list \<Rightarrow> part_ref \<Rightarrow> partition kres" where
  "part_at chans r =
     (case r of (c, d, logical, i) \<Rightarrow>
        kbind (aget chans c) (\<lambda>ch. kbind (aget (devices ch) d) (\<lambda>hd. aget (if logical then logic_parts hd else prim_parts hd) i)))"

fun mount_traversal :: "bytes \<Rightarrow> bytes \<Rightarrow> ide_channel list \<Rightarrow> part_ref list \<Rightarrow> 'a fsys_scheme \<Rightarrow> (bool \<times> 'a fsys_scheme) kres" where
  "mount_traversal behind name chans [] s = Inr (False, s)"
| "mount_traversal behind name chans (r # rs) s =
     kbind (part_at chans r) (\<lambda>part.
     kbind (strcmp 1 (2 + length (part_name part)) (0 # part_name part @ [0] @ name @ [0])) (\<lambda>c.
     if c = 0 then kbind (mount_partition behind part s) (\<lambda>s. Inr (True, s))
     else mount_traversal behind name chans rs s))"

section \<open>Initialisation\<close>

text \<open>One partition of the disk: both tests read the magic number of the same buffer, which
  the first call of \<^verbatim>\<open>partition_format\<close> does not change.\<close>

definition init_part :: "bytes \<Rightarrow> bytes \<Rightarrow> partition \<Rightarrow> 'a fsys_scheme \<Rightarrow> 'a fsys_scheme kres" where
  "init_part pad pad' part s =
     (if sec_cnt part \<noteq> 0 then
        kbind (disk_read (start_lba part + 1) 1 s) (\<lambda>sb_buf.
        kbind (if magic (sb_of_bytes sb_buf) = SUPER_MAGIC then Inr s else partition_format pad (start_lba part) (sec_cnt part) s) (\<lambda>s.
        if magic (sb_of_bytes sb_buf) \<noteq> SUPER_MAGIC then partition_format pad' (start_lba part) (sec_cnt part) s else Inr s))
      else Inr s)"

fun init_parts :: "(nat \<Rightarrow> bytes) \<Rightarrow> disk \<Rightarrow> nat list \<Rightarrow> 'a fsys_scheme \<Rightarrow> 'a fsys_scheme kres" where
  "init_parts pads dsk [] s = Inr s"
| "init_parts pads dsk (part_idx # idxs) s =
     kbind (if part_idx < 4 then aget (prim_parts dsk) part_idx else aget (logic_parts dsk) (part_idx - 4)) (\<lambda>part.
     kbind (init_part (pads (2 * part_idx)) (pads (2 * part_idx + 1)) part s) (\<lambda>s.
     init_parts pads dsk idxs s))"

text \<open>The channels that are left, and the value of \<^verbatim>\<open>part_idx\<close>, which goes on from channel to channel.\<close>

fun init_channels :: "(nat \<Rightarrow> bytes) \<Rightarrow> ide_channel list \<Rightarrow> nat \<Rightarrow> 'a fsys_scheme \<Rightarrow> 'a fsys_scheme kres" where
  "init_channels pads [] part_idx s = Inr s"
| "init_channels pads (ch # chs) part_idx s =
     kbind (aget (devices ch) 1) (\<lambda>hd.
     kbind (init_parts pads hd [part_idx..<12] s) (\<lambda>s.
     init_channels pads chs (max part_idx 12) s))"

definition filesys_init :: "(nat \<Rightarrow> bytes) \<Rightarrow> bytes \<Rightarrow> ide_channel list \<Rightarrow> part_ref list \<Rightarrow> 'a fsys_scheme \<Rightarrow> 'a fsys_scheme kres" where
  "filesys_init pads behind chans plist s =
     (let (sb_buf, s) = kmalloc s
      in if sb_buf = 0 then Inl (Panic ''alloc memory failed!'')
         else
           kbind (init_channels pads chans 0 s) (\<lambda>s.
           kbind (mount_traversal behind [115, 100, 98, 49] chans plist s) (\<lambda>(mounted, s).
           if \<not> mounted then Inl Fault
           else
             kbind (open_root_dir s) (\<lambda>s.
             Inr (s\<lparr>file_table := map (\<lambda>f. f\<lparr>fd_inode := 0\<rparr>) (file_table s)\<rparr>)))))"

section \<open>The numbers of a formatted partition\<close>

definition data_blocks_of :: "nat \<Rightarrow> nat" where
  "data_blocks_of c = (c - 611) - (c - 611 + 4095) div 4096"

definition bitmap_sects_of :: "nat \<Rightarrow> nat" where
  "bitmap_sects_of c = (data_blocks_of c + 4095) div 4096"

lemma DIV_ROUND_UP_4096:
  assumes "unat x + 4095 < 2 ^ 32"
  shows "unat (DIV_ROUND_UP x BITS_PER_SECTOR) = (unat x + 4095) div 4096"
proof -
  have e: "unat (x + 4095) = unat x + 4095" using unat_of_nat_u32 [OF assms] by simp
  have "DIV_ROUND_UP x BITS_PER_SECTOR = (x + 4095) div 4096" by (simp add: DIV_ROUND_UP_def BITS_PER_SECTOR_def add.commute)
  then show ?thesis by (simp add: unat_div e)
qed

lemma DIV_ROUND_UP_const [simp]: "DIV_ROUND_UP MAX_FILES_PER_PART BITS_PER_SECTOR = 1" "DIV_ROUND_UP (76 * MAX_FILES_PER_PART) 512 = 608"
  by (simp_all add: DIV_ROUND_UP_def MAX_FILES_PER_PART_def BITS_PER_SECTOR_def)

lemma blocks_bounds:
  assumes "620 \<le> c" "c < 163840"
  shows "8 \<le> data_blocks_of c" "data_blocks_of c + 611 < c" "1 \<le> bitmap_sects_of c" "bitmap_sects_of c \<le> 40"
    "data_blocks_of c \<le> 4096 * bitmap_sects_of c" "4096 * bitmap_sects_of c < data_blocks_of c + 4096" "data_blocks_of c + bitmap_sects_of c + 611 \<le> c"
  using assms unfolding data_blocks_of_def bitmap_sects_of_def by linarith+

lemma unat_bit_len:
  assumes "620 \<le> unat cnt" "unat cnt < 163840"
  shows "unat (block_bitmap_bit_len cnt) = data_blocks_of (unat cnt)"
    "unat (DIV_ROUND_UP (block_bitmap_bit_len cnt) BITS_PER_SECTOR) = bitmap_sects_of (unat cnt)"
proof -
  have f: "unat (cnt - 611) = unat cnt - 611" using assms by (subst unat_sub) (simp_all add: word_le_nat_alt)
  have r: "unat (DIV_ROUND_UP (cnt - 611) BITS_PER_SECTOR) = (unat cnt - 611 + 4095) div 4096"
    using assms by (subst DIV_ROUND_UP_4096) (simp_all add: f)
  have "(unat cnt - 611 + 4095) div 4096 \<le> unat cnt - 611" using assms by linarith
  then show l: "unat (block_bitmap_bit_len cnt) = data_blocks_of (unat cnt)"
    using r f by (simp add: block_bitmap_bit_len_def Let_def data_blocks_of_def unat_sub word_le_nat_alt)
  show "unat (DIV_ROUND_UP (block_bitmap_bit_len cnt) BITS_PER_SECTOR) = bitmap_sects_of (unat cnt)"
    using blocks_bounds [OF assms] assms by (subst DIV_ROUND_UP_4096) (simp_all add: l bitmap_sects_of_def)
qed

lemma format_sb_fields:
  assumes "620 \<le> unat cnt" "unat cnt < 163840"
  defines "B \<equiv> bitmap_sects_of (unat cnt)"
  shows "format_sb start cnt =
    \<lparr>magic = SUPER_MAGIC, sb_sec_cnt = cnt, inode_cnt = 4096, part_lba_base = start, block_bitmap_lba = start + 2,
     block_bitmap_sects = of_nat B, inode_bitmap_lba = start + of_nat (2 + B), inode_bitmap_sects = 1, inode_table_lba = start + of_nat (3 + B),
     inode_table_sects = 608, data_start_lba = start + of_nat (611 + B), root_inode_no = 0, dir_entry_size = 24\<rparr>"
proof -
  have "DIV_ROUND_UP (block_bitmap_bit_len cnt) BITS_PER_SECTOR = of_nat B"
    using unat_bit_len(2) [OF assms(1,2)] by (metis B_def of_nat_unat ucast_id)
  then show ?thesis by (simp add: format_sb_def Let_def add.assoc) (simp add: MAX_FILES_PER_PART_def)
qed

lemma sb_of_bytes_bytes: "sb_of_bytes (sb_bytes b pad) = b"
proof -
  have "get32 (sb_bytes b pad) (4 * i) =
      [magic b, sb_sec_cnt b, inode_cnt b, part_lba_base b, block_bitmap_lba b, block_bitmap_sects b, inode_bitmap_lba b,
       inode_bitmap_sects b, inode_table_lba b, inode_table_sects b, data_start_lba b, root_inode_no b, dir_entry_size b] ! i" if "i < 13" for i
    using that by (simp add: sb_bytes_def get32_append1 get32_bytes_of)
  from this [of 0] this [of 1] this [of 2] this [of 3] this [of 4] this [of 5] this [of 6] this [of 7] this [of 8]
    this [of 9] this [of 10] this [of 11] this [of 12]
  show ?thesis by (simp add: sb_of_bytes_def)
qed

section \<open>The image of the block bitmap\<close>

lemma bit_clear_bits: "j < 8 \<Longrightarrow> bit (clear_bits n i x) j \<longleftrightarrow> bit x j \<and> \<not> (i \<le> j \<and> j < i + n)"
  by (induction n i x rule: clear_bits.induct) (auto simp: bit_simps)

lemma bit_FF: "j < 8 \<Longrightarrow> bit (0xFF :: u8) j"
proof -
  have e: "(0xFF :: u8) = mask 8" by (simp add: mask_eq_exp_minus_1)
  show "j < 8 \<Longrightarrow> bit (0xFF :: u8) j" unfolding e by (simp add: bit_mask_iff)
qed

lemma block_bitmap_image_bits:
  assumes "8 \<le> unat l" "unat l \<le> 4096 * B" "4096 * B < unat l + 4096" "512 * B + 512 \<le> N"
  obtains img where "block_bitmap_image l N = Inr img" "length img = N"
    "\<And>k. k < 4096 * B \<Longrightarrow> bit (img ! (k div 8)) (k mod 8) \<longleftrightarrow> k = 0 \<or> unat l < k"
proof -
  let ?b = "unat l div 8" and ?r = "unat l mod 8"
  define n where "n = 512 - ?b mod 512"
  have d: "unat (l div 8) = ?b" "unat (l mod 8) = ?r" by (simp_all add: unat_div unat_mod)
  have n: "?b + n \<le> N" "0 < n" "?b < N" unfolding n_def using assms(2,4) by linarith+
  let ?i = "overwrite ?b (replicate n 0xFF) ((replicate N 0)[0 := 1 :: u8])"
  let ?j = "?i[?b := clear_bits (Suc ?r) 0 0xFF]"
  have x: "?i ! ?b = 0xFF" using n by (simp add: nth_overwrite)
  have e: "block_bitmap_image l N = Inr ?j"
    using n x n(1) [unfolded n_def] by (simp add: block_bitmap_image_def Let_def d aset_def aget_def n_def)
  have end_of_image: "512 * B \<le> ?b + n"
  proof -
    have "512 * B \<le> ?b + 512" using assms(3) by linarith
    moreover have b: "?b = 512 * (?b div 512) + ?b mod 512" by simp
    moreover have m: "?b mod 512 < 512" by simp
    ultimately have "B < ?b div 512 + 2" by linarith
    moreover have "?b + n = 512 * (?b div 512) + 512" using b m unfolding n_def by linarith
    ultimately show ?thesis by linarith
  qed
  have "bit (?j ! (k div 8)) (k mod 8) \<longleftrightarrow> k = 0 \<or> unat l < k" if k: "k < 4096 * B" for k
  proof -
    have "k div 8 < 512 * B" using k by linarith
    with end_of_image have "k div 8 < ?b + n" by linarith
    then have j: "?j ! (k div 8) = (if k div 8 = ?b then clear_bits (Suc ?r) 0 0xFF else if ?b < k div 8 then 0xFF else if k div 8 = 0 then 1 else 0)"
      using n by (simp add: nth_overwrite nth_list_update)
    consider "k div 8 = ?b" | "?b < k div 8" | "k div 8 < ?b" by linarith
    then show ?thesis
    proof cases
      case 1
      then have "unat l = 8 * (k div 8) + ?r" by simp
      then have "?r < k mod 8 \<longleftrightarrow> unat l < k" using div_mult_mod_eq [of k 8] by (intro iffI) linarith+
      then show ?thesis unfolding j using 1 assms(1) bit_FF [of "k mod 8"] by (auto simp: bit_clear_bits simp del: clear_bits.simps)
    next
      case 2
      then show ?thesis unfolding j using bit_FF [of "k mod 8"] by simp linarith
    next
      case 3
      then show ?thesis unfolding j by (auto simp: bit_1_iff)
    qed
  qed
  then show thesis using that [OF e] n by simp
qed

lemma bset_block_image:
  assumes "1 \<le> B" "512 * B \<le> length img"
    "\<And>k. k < 4096 * B \<Longrightarrow> bit (img ! (k div 8)) (k mod 8) \<longleftrightarrow> k = 0 \<or> L < k"
  shows "bset \<lparr>btmp_bytes_len = 512 * B, bits = take (512 * B) img @ behind\<rparr> = insert 0 {k. L < k \<and> k < 512 * B * 8}"
proof -
  let ?b = "\<lparr>btmp_bytes_len = 512 * B, bits = take (512 * B) img @ behind\<rparr>"
  have e: "bused ?b k \<longleftrightarrow> k = 0 \<or> L < k" if "k < 4096 * B" for k
    using assms(2) div8_less [of k "512 * B"] assms(3) [OF that] that by (simp add: nth_append bused_def)
  then show ?thesis using assms(1) e [of 0] by (auto simp: bset_def)
qed

lemma bset_inode_image: "bset \<lparr>btmp_bytes_len = 512, bits = (1 # replicate 511 0) @ behind\<rparr> = {0}"
proof -
  have "bit (((1 # replicate 511 0) @ behind) ! (k div 8) :: u8) (k mod 8) \<longleftrightarrow> k = 0" if "k < 4096" for k
  proof (cases "k div 8")
    case 0
    then show ?thesis by (auto simp: bit_1_iff)
  next
    case (Suc j)
    then have "j < 511" "k \<noteq> 0" using that by linarith+
    then show ?thesis by (simp add: Suc nth_append)
  qed
  then show ?thesis by (auto simp: bset_def bused_def)
qed

section \<open>Formatting and mounting\<close>

lemma disk_write_region:
  assumes "unat lba + cnt \<le> 163840" "0 < cnt" "512 * cnt \<le> length src"
  shows "disk_write lba src cnt s = Inr (s\<lparr>sectors := write_secs (sectors s) lba cnt (take (512 * cnt) src)\<rparr>)"
proof -
  have "unat lba + 256 * ((cnt - Suc 0) div 256) \<le> 163839" using assms(1,2) by linarith
  then show ?thesis using assms by (simp add: disk_write_def disk_range_def max_lba_def word_le_nat_alt)
qed

lemma disk_read_region:
  assumes "unat lba + cnt \<le> 163840" "0 < cnt"
  shows "disk_read lba cnt s = Inr (read_secs (sectors s) lba cnt)"
proof -
  have "unat lba + 256 * ((cnt - Suc 0) div 256) \<le> 163839" using assms(1,2) by linarith
  then show ?thesis using assms by (simp add: disk_read_def disk_range_def max_lba_def word_le_nat_alt)
qed

text \<open>The five pieces that are written lie behind one another.\<close>

definition root_inode_image :: "u32 \<Rightarrow> inode" where
  "root_inode_image lba = \<lparr>i_no = 0, i_size = 48, i_open_cnts = 0, write_deny = False, i_sectors = lba # replicate 12 0\<rparr>"

definition format_image :: "u32 \<Rightarrow> u32 \<Rightarrow> bytes \<Rightarrow> bytes \<Rightarrow> bytes" where
  "format_image start cnt pad img =
     sb_bytes (format_sb start cnt) pad @ take (512 * bitmap_sects_of (unat cnt)) img @ (1 # replicate 511 0)
       @ overwrite 0 (inode_bytes (root_inode_image (data_start_lba (format_sb start cnt)))) (replicate 311296 0) @ dot_entries 0 0"

lemma length_dot_entries [simp]: "length (dot_entries a b) = 512"
  by (simp add: dot_entries_def)

lemma length_sb_bytes [simp]: "length (sb_bytes b pad) = 52 + length pad"
  by (simp add: sb_bytes_def)

lemma unat_in_partition: "unat start + k < 163840 \<Longrightarrow> unat (start + of_nat k) = unat start + k" for start :: u32
  using unat_of_nat_u32 [of "unat start + k"] by simp

lemma write_chain:
  assumes "length b1 = 512" "length b2 = 512 * B" "length b3 = 512" "length b4 = 512 * 608" "B < 1000"
  shows "write_secs (write_secs (write_secs (write_secs (write_secs m (start + 1) 1 b1) (start + 2) B b2) (start + of_nat (2 + B)) 1 b3)
      (start + of_nat (3 + B)) 608 b4) (start + of_nat (611 + B)) 1 b5 = write_secs m (start + 1) (611 + B) (b1 @ b2 @ b3 @ b4 @ b5)"
proof -
  have e: "start + 2 = start + 1 + of_nat 1" "start + of_nat (2 + B) = start + 1 + of_nat (1 + B)"
    "start + of_nat (3 + B) = start + 1 + of_nat (1 + B + 1)" "start + of_nat (611 + B) = start + 1 + of_nat (1 + B + 1 + 608)"
    by (simp_all add: algebra_simps)
  have n: "611 + B = 1 + B + 1 + 608 + 1" by simp
  let ?l = "start + 1"
  have "write_secs (write_secs m ?l 1 b1) (?l + of_nat 1) B b2 = write_secs m ?l (1 + B) (b1 @ b2)"
    by (rule write_secs_add) (use assms in simp_all)
  moreover have "write_secs (write_secs m ?l (1 + B) (b1 @ b2)) (?l + of_nat (1 + B)) 1 b3 = write_secs m ?l (1 + B + 1) ((b1 @ b2) @ b3)"
    by (rule write_secs_add) (use assms in simp_all)
  moreover have "write_secs (write_secs m ?l (1 + B + 1) ((b1 @ b2) @ b3)) (?l + of_nat (1 + B + 1)) 608 b4
      = write_secs m ?l (1 + B + 1 + 608) (((b1 @ b2) @ b3) @ b4)"
    by (rule write_secs_add) (use assms in simp_all)
  moreover have "write_secs (write_secs m ?l (1 + B + 1 + 608) (((b1 @ b2) @ b3) @ b4)) (?l + of_nat (1 + B + 1 + 608)) 1 b5
      = write_secs m ?l (1 + B + 1 + 608 + 1) ((((b1 @ b2) @ b3) @ b4) @ b5)"
    by (rule write_secs_add) (use assms in simp_all)
  ultimately show ?thesis unfolding e unfolding n by (simp only: append_assoc)
qed

lemma partition_format_writes:
  assumes c: "620 \<le> unat cnt" "unat start + unat cnt < 163840" and pad: "length pad = 460" and hp: "heap s = a # hs" "a \<noteq> 0"
    and im: "block_bitmap_image (block_bitmap_bit_len cnt) 311296 = Inr img" "length img = 311296"
  shows "partition_format pad start cnt s =
    Inr (s\<lparr>heap := hs, sectors := write_secs (sectors s) (start + 1) (611 + bitmap_sects_of (unat cnt)) (format_image start cnt pad img)\<rparr>)"
proof -
  let ?B = "bitmap_sects_of (unat cnt)"
  have cnt: "unat cnt < 163840" using c by simp
  note bd = blocks_bounds [OF c(1) cnt] and F = format_sb_fields [OF c(1) cnt, of start]
  have uB: "unat (of_nat ?B :: u32) = ?B" using bd by (intro unat_of_nat_u32) simp
  have u: "unat (start + 1) = unat start + 1" "unat (start + 2) = unat start + 2"
    "unat (start + of_nat (2 + ?B)) = unat start + (2 + ?B)" "unat (start + of_nat (3 + ?B)) = unat start + (3 + ?B)"
    "unat (start + of_nat (611 + ?B)) = unat start + (611 + ?B)"
    using unat_in_partition [of start 1] unat_in_partition [of start 2] unat_in_partition [of start "2 + ?B"] unat_in_partition [of start "3 + ?B"]
      unat_in_partition [of start "611 + ?B"] c bd by simp_all
  have sz: "(if 1 \<le> (of_nat ?B :: u32) then of_nat ?B else 1) = (of_nat ?B :: u32)" "\<not> (608 :: u32) \<le> of_nat ?B"
    using uB bd by (simp_all add: word_le_nat_alt)
  have i: "\<lparr>i_no = 0, i_size = 24 * 2, i_open_cnts = 0, write_deny = False, i_sectors = (start + of_nat (611 + ?B)) # replicate 12 0\<rparr>
      = root_inode_image (start + of_nat (611 + ?B))" by (simp add: root_inode_image_def)
  have tk: "take 512 (overwrite 0 [1] (replicate 311296 0)) = 1 # replicate 511 (0 :: u8)"
    "take 512 (overwrite 0 (dot_entries 0 0) (replicate 311296 0)) = dot_entries 0 0"
    by (simp_all add: overwrite_def)
  have il: "length (inode_bytes (root_inode_image l)) = 76" for l by (simp add: inode_bytes_def root_inode_image_def)
  have wc: "?B < 1000" using bd by simp
  let ?b1 = "sb_bytes (format_sb start cnt) pad" and ?b2 = "take (512 * ?B) img" and ?b3 = "1 # replicate 511 (0 :: u8)"
    and ?b4 = "overwrite 0 (inode_bytes (root_inode_image (start + of_nat (611 + ?B)))) (replicate 311296 0)"
  have l: "length ?b1 = 512" "length ?b2 = 512 * ?B" "length ?b3 = 512" "length ?b4 = 512 * 608"
    using pad im bd by (simp_all add: il)
  let ?w1 = "write_secs (sectors s) (start + 1) 1 ?b1"
  let ?w2 = "write_secs ?w1 (start + 2) ?B ?b2"
  let ?w3 = "write_secs ?w2 (start + of_nat (2 + ?B)) 1 ?b3"
  let ?w4 = "write_secs ?w3 (start + of_nat (3 + ?B)) 608 ?b4"
  let ?w5 = "write_secs ?w4 (start + of_nat (611 + ?B)) 1 (dot_entries 0 0)"
  have w1: "disk_write (start + 1) ?b1 1 s = Inr (s\<lparr>sectors := ?w1\<rparr>)"
    by (subst disk_write_region) (use u c l in simp_all)
  have w2: "disk_write (start + 2) img ?B (s\<lparr>sectors := ?w1, heap := hs\<rparr>) = Inr (s\<lparr>sectors := ?w2, heap := hs\<rparr>)"
    by (subst disk_write_region) (use u c bd im in simp_all)
  have w3: "disk_write (start + of_nat (2 + ?B)) (overwrite 0 [1] (replicate 311296 0)) 1 (s\<lparr>sectors := ?w2, heap := hs\<rparr>)
      = Inr (s\<lparr>sectors := ?w3, heap := hs\<rparr>)"
    by (subst disk_write_region) (use u c bd tk in simp_all)
  have w4: "disk_write (start + of_nat (3 + ?B)) ?b4 608 (s\<lparr>sectors := ?w3, heap := hs\<rparr>) = Inr (s\<lparr>sectors := ?w4, heap := hs\<rparr>)"
    by (subst disk_write_region) (use u c bd l in simp_all)
  have w5: "disk_write (start + of_nat (611 + ?B)) (overwrite 0 (dot_entries 0 0) (replicate 311296 0)) 1 (s\<lparr>sectors := ?w4, heap := hs\<rparr>)
      = Inr (s\<lparr>sectors := ?w5, heap := hs\<rparr>)"
    by (subst disk_write_region) (use u c bd tk in simp_all)
  have w: "?w5 = write_secs (sectors s) (start + 1) (611 + ?B) (format_image start cnt pad img)"
    using write_chain [OF l wc] by (simp add: format_image_def F)
  have fld: "block_bitmap_lba (format_sb start cnt) = start + 2" "block_bitmap_sects (format_sb start cnt) = of_nat ?B"
    "inode_bitmap_lba (format_sb start cnt) = start + of_nat (2 + ?B)" "inode_bitmap_sects (format_sb start cnt) = 1"
    "inode_table_lba (format_sb start cnt) = start + of_nat (3 + ?B)" "inode_table_sects (format_sb start cnt) = 608"
    "data_start_lba (format_sb start cnt) = start + of_nat (611 + ?B)" "dir_entry_size (format_sb start cnt) = 24"
    by (simp_all add: F)
  have km: "kmalloc (s\<lparr>sectors := ?w1\<rparr>) = (a, s\<lparr>sectors := ?w1, heap := hs\<rparr>)" using hp by (simp add: kmalloc_def)
  have un: "unat (608 * 512 :: u32) = 311296" "unat (1 :: u32) = 1" "unat (608 :: u32) = 608" by simp_all
  show ?thesis
    unfolding partition_format_def Let_def fld sz un uB i
    by (simp only: w1 kbind_Inr km prod.case hp(2) if_False sz un im(1) w2 w3 w4 w5 w) simp
qed

text \<open>What the pieces read back as.\<close>

lemma format_image_pieces:
  fixes m :: media and start :: u32
  assumes l: "length b1 = 512" "length b2 = 512 * B" "length b3 = 512" "length b4 = 512 * 608" "length b5 = 512" "B < 1000"
  defines "m' \<equiv> write_secs m (start + 1) (611 + B) (b1 @ b2 @ b3 @ b4 @ b5)"
  assumes m: "media_ok m"
  shows "read_secs m' (start + 1) 1 = b1" "read_secs m' (start + 2) B = b2" "read_secs m' (start + of_nat (2 + B)) 1 = b3"
    "read_secs m' (start + of_nat (3 + B)) 608 = b4" "read_secs m' (start + of_nat (611 + B)) 1 = b5" "media_ok m'"
proof -
  let ?bs = "b1 @ b2 @ b3 @ b4 @ b5"
  have len: "length ?bs = 512 * (611 + B)" using l by simp
  then show ok: "media_ok m'" unfolding m'_def using media_ok_write [OF m] by simp
  have all: "read_secs m' (start + 1) (611 + B) = ?bs" unfolding m'_def by (rule read_write_secs [OF len]) (use l in simp)
  have p: "read_secs m' (start + 1 + of_nat i) k = take (512 * k) (drop (512 * i) ?bs)" if "i + k \<le> 611 + B" for i k
    using read_secs_piece [OF ok that, of "start + 1"] by (simp only: all)
  show "read_secs m' (start + 1) 1 = b1" using p [of 0 1] l by simp
  have "start + 2 = start + 1 + of_nat 1" by simp
  then show "read_secs m' (start + 2) B = b2" using p [of 1 B] l by (simp only:) simp
  have "start + of_nat (2 + B) = start + 1 + of_nat (1 + B)" by (simp add: algebra_simps)
  then show "read_secs m' (start + of_nat (2 + B)) 1 = b3" using p [of "1 + B" 1] l by (simp only:) simp
  have "start + of_nat (3 + B) = start + 1 + of_nat (2 + B)" by (simp add: algebra_simps)
  then show "read_secs m' (start + of_nat (3 + B)) 608 = b4" using p [of "2 + B" 608] l by (simp only:) simp
  have "start + of_nat (611 + B) = start + 1 + of_nat (610 + B)" by (simp add: algebra_simps)
  then show "read_secs m' (start + of_nat (611 + B)) 1 = b5" using p [of "610 + B" 1] l by (simp only:) simp
qed

lemma mount_reads:
  assumes c: "620 \<le> unat cnt" "unat start + unat cnt < 163840" and part: "start_lba part = start" "sec_cnt part = cnt"
    and hp: "heap s = a # b # c # d # hs" "0 \<notin> {a, b, c, d}"
    and rd: "read_secs (sectors s) (start + 1) 1 = sb_bytes (format_sb start cnt) pad"
      "read_secs (sectors s) (start + 2) (bitmap_sects_of (unat cnt)) = bbits"
      "read_secs (sectors s) (start + of_nat (2 + bitmap_sects_of (unat cnt))) 1 = ibits"
  shows "mount_partition behind part s =
    Inr (s\<lparr>heap := hs, part_start := start, part_sec_cnt := cnt, sb := format_sb start cnt,
      block_bitmap := \<lparr>btmp_bytes_len = 512 * bitmap_sects_of (unat cnt), bits = bbits @ behind\<rparr>,
      inode_bitmap := \<lparr>btmp_bytes_len = 512, bits = ibits @ behind\<rparr>, open_inodes := []\<rparr>)"
proof -
  let ?B = "bitmap_sects_of (unat cnt)"
  have cnt: "unat cnt < 163840" using c by simp
  note bd = blocks_bounds [OF c(1) cnt] and F = format_sb_fields [OF c(1) cnt, of start]
  have uB: "unat (of_nat ?B :: u32) = ?B" using bd by (intro unat_of_nat_u32) simp
  have uB': "unat (of_nat ?B * 512 :: u32) = 512 * ?B" using unat_of_nat_u32 [of "512 * ?B"] bd by (simp add: mult.commute)
  have u: "unat (start + 1) = unat start + 1" "unat (start + 2) = unat start + 2" "unat (start + of_nat (2 + ?B)) = unat start + (2 + ?B)"
    using unat_in_partition [of start 1] unat_in_partition [of start 2] unat_in_partition [of start "2 + ?B"] c bd by simp_all
  have r: "disk_read (start + 1) 1 s' = Inr (sb_bytes (format_sb start cnt) pad)" "disk_read (start + 2) ?B s' = Inr bbits"
    "disk_read (start + of_nat (2 + ?B)) 1 s' = Inr ibits" if "sectors s' = sectors s" for s' :: "'a fsys_scheme"
    using disk_read_region [of "start + 1" 1 s'] disk_read_region [of "start + 2" ?B s'] disk_read_region [of "start + of_nat (2 + ?B)" 1 s']
      u c bd rd that by simp_all
  have r3: "disk_read (start + (2 + of_nat ?B)) 1 s' = Inr ibits" if "sectors s' = sectors s" for s' :: "'a fsys_scheme"
    using r(3) [OF that] by simp
  have fld: "block_bitmap_lba (format_sb start cnt) = start + 2" "block_bitmap_sects (format_sb start cnt) = of_nat ?B"
    "inode_bitmap_lba (format_sb start cnt) = start + (2 + of_nat ?B)" "inode_bitmap_sects (format_sb start cnt) = 1"
    by (simp_all add: F)
  show ?thesis
    using hp by (simp add: mount_partition_def kmalloc_def part fld sb_of_bytes_bytes uB uB' r r3 del: One_nat_def)
qed

section \<open>Properties\<close>

text \<open>C38.  A partition that is formatted and then mounted is a file system in order: the super block is read
  back as it was computed, the regions of the disk follow one another, i-node 0 is the root directory with
  its two entries and it is the only one in use, and of the blocks only the one of the root directory and those from
  the second one behind the end on are in use.  The boot sector and all sectors outside of the meta data
  keep their contents.\<close>

theorem format_then_mount:
  assumes m: "media_ok (sectors s)" and c: "620 \<le> unat cnt" "unat start + unat cnt < 163840" and pad: "length pad = 460" and bh: "behind \<noteq> []"
    and part: "start_lba part = start" "sec_cnt part = cnt" and hp: "heap s = x # a # b # c # d # hs" "0 \<notin> {x, a, b, c, d}"
  shows "\<exists>s1 s2. partition_format pad start cnt s = Inr s1 \<and> mount_partition behind part s1 = Inr s2 \<and> fs_layout s2 \<and> sb s2 = format_sb start cnt
    \<and> bset (inode_bitmap s2) = {0}
    \<and> bset (block_bitmap s2) = insert 0 {k. unat (block_bitmap_bit_len cnt) < k \<and> k < bcap (block_bitmap s2)}
    \<and> disk_inode s2 0 = root_inode_image (data_start_lba (sb s2)) \<and> sectors s2 (data_start_lba (sb s2)) = dot_entries 0 0
    \<and> (\<forall>l. unat l \<le> unat start \<or> unat (data_start_lba (sb s2)) < unat l \<longrightarrow> sectors s2 l = sectors s l)"
proof -
  let ?B = "bitmap_sects_of (unat cnt)"
  have cnt: "unat cnt < 163840" using c by simp
  note bd = blocks_bounds [OF c(1) cnt] and F = format_sb_fields [OF c(1) cnt, of start] and L = unat_bit_len(1) [OF c(1) cnt]
  obtain img where img: "block_bitmap_image (block_bitmap_bit_len cnt) 311296 = Inr img" "length img = 311296"
    "\<And>k. k < 4096 * ?B \<Longrightarrow> bit (img ! (k div 8)) (k mod 8) \<longleftrightarrow> k = 0 \<or> unat (block_bitmap_bit_len cnt) < k"
    by (rule block_bitmap_image_bits [of "block_bitmap_bit_len cnt" ?B 311296]) (use bd L in simp_all)
  let ?D = "data_start_lba (format_sb start cnt)"
  let ?b1 = "sb_bytes (format_sb start cnt) pad" and ?b2 = "take (512 * ?B) img" and ?b3 = "1 # replicate 511 (0 :: u8)"
    and ?b4 = "overwrite 0 (inode_bytes (root_inode_image ?D)) (replicate 311296 0)"
  have il: "length (inode_bytes (root_inode_image l)) = 76" for l by (simp add: inode_bytes_def root_inode_image_def)
  have l: "length ?b1 = 512" "length ?b2 = 512 * ?B" "length ?b3 = 512" "length ?b4 = 512 * 608" "length (dot_entries 0 0) = 512" "?B < 1000"
    using pad img bd by (simp_all add: il)
  let ?m = "write_secs (sectors s) (start + 1) (611 + ?B) (?b1 @ ?b2 @ ?b3 @ ?b4 @ dot_entries 0 0)"
  note R = format_image_pieces [OF l m, of start]
  let ?s1 = "s\<lparr>heap := a # b # c # d # hs, sectors := ?m\<rparr>"
  let ?s2 = "?s1\<lparr>heap := hs, part_start := start, part_sec_cnt := cnt, sb := format_sb start cnt,
      block_bitmap := \<lparr>btmp_bytes_len = 512 * ?B, bits = ?b2 @ behind\<rparr>, inode_bitmap := \<lparr>btmp_bytes_len = 512, bits = ?b3 @ behind\<rparr>, open_inodes := []\<rparr>"
  have 1: "partition_format pad start cnt s = Inr ?s1"
    using partition_format_writes [OF c pad hp(1) _ img(1,2)] hp(2) by (simp add: format_image_def)
  have 2: "mount_partition behind part ?s1 = Inr ?s2"
    by (rule mount_reads [OF c part, of _ a b c d hs]) (use hp R in simp_all)
  have bb: "bset (block_bitmap ?s2) = insert 0 {k. unat (block_bitmap_bit_len cnt) < k \<and> k < bcap (block_bitmap ?s2)}"
    using bset_block_image [of ?B img _ behind, OF bd(3) _ img(3)] img(2) bd(4) by simp
  have ib: "bset (inode_bitmap ?s2) = {0}"
    using bset_inode_image by simp
  have D: "unat ?D = unat start + (611 + ?B)"
    using unat_in_partition [of start "611 + ?B"] c bd by (simp add: F)
  have uB: "unat (of_nat ?B :: u32) = ?B" using bd by (intro unat_of_nat_u32) simp
  have u: "unat (start + 2) = unat start + 2" "unat (start + of_nat (2 + ?B)) = unat start + (2 + ?B)" "unat (start + of_nat (3 + ?B)) = unat start + (3 + ?B)"
    "unat (start + cnt) = unat start + unat cnt"
    using unat_in_partition [of start 2] unat_in_partition [of start "2 + ?B"] unat_in_partition [of start "3 + ?B"] unat_in_partition [of start "unat cnt"] c bd
    by simp_all
  have lay: "fs_layout ?s2"
    unfolding fs_layout_def
  proof (intro conjI allI impI)
    show "unat (data_start_lba (sb ?s2)) + k < 163840" if "k < bcap (block_bitmap ?s2)" "k \<notin> bset (block_bitmap ?s2)" for k
    proof -
      have "k \<le> data_blocks_of (unat cnt)" using that unfolding bb L by auto
      then show ?thesis using D bd(7) c by simp
    qed
    show "0 \<in> bset (block_bitmap ?s2)" unfolding bb by simp
  qed (use bd c bh D R(6) u uB in \<open>simp_all add: F bitmap_wf_def img(2)\<close>)
  have di: "disk_inode ?s2 0 = root_inode_image ?D"
    proof -
    have "itable ?s2 = ?b4" using R(4) by (simp add: itable_def F)
    moreover have "inode_of_bytes ?b4 0 = inode_of_bytes (inode_bytes (root_inode_image ?D)) 0"
      by (rule inode_of_bytes_cong) (simp_all add: il overwrite_def)
    ultimately show ?thesis by (simp add: disk_inode_def inode_of_inode_bytes root_inode_image_def)
  qed
  have rd: "?m ?D = dot_entries 0 0"
    using R(5) by (simp add: F)
  have out: "?m l = sectors s l" if "unat l \<le> unat start \<or> unat ?D < unat l" for l
    proof (rule write_secs_other)
    have "unat (start + 1) = unat start + 1" using unat_in_partition [of start 1] c bd by simp
    then show "\<not> unat (l - (start + 1)) < 611 + ?B" using that D c bd unsigned_less [of l] by (simp add: unat_sub_if') linarith
  qed
  show ?thesis
    using 1 2 lay ib bb di rd out by (intro exI [of _ ?s1] exI [of _ ?s2]) simp
qed

theorem format_then_mount_witness:
  "\<exists>s1 s2. partition_format (replicate 460 0) 2048 8192 small_fs = Inr s1
    \<and> mount_partition [0] \<lparr>start_lba = 2048, sec_cnt = 8192, part_name = [115, 100, 98, 49]\<rparr> s1 = Inr s2 \<and> fs_layout s2 \<and> bset (inode_bitmap s2) = {0}"
proof -
  have m: "media_ok (sectors small_fs)" by (simp add: small_fs_def media_ok_def)
  let ?p = "\<lparr>start_lba = 2048, sec_cnt = 8192, part_name = [115, 100, 98, 49]\<rparr>"
  have "heap small_fs = 0xC0301000 # 0xC0302000 # 0xC0303000 # 0xC0304000 # 0xC0305000 # [0xC0306000]" by (simp add: small_fs_def)
  from format_then_mount [OF m _ _ _ _ _ _ this, of 8192 2048 "replicate 460 0" "[0]" ?p]
  show ?thesis by fastforce
qed

end
