(* ===== verification/Fs_Types.thy ===== *)
theory Fs_Types
  imports Fs
begin

text \<open>
  What the file system leaves alone: the tables of descriptors keep their types under every
  system call.  The layers below the descriptors do not touch the tasks at all.
\<close>

section \<open>Functions that do not touch the tasks\<close>

named_theorems frames \<open>functions that leave tasks and the size of the table of open files alone\<close>

text \<open>The tables of descriptors of all tasks.\<close>

definition fdt :: "'a sched_scheme \<Rightarrow> u32 \<rightharpoonup> int list" where
  "fdt s = (\<lambda>p. map_option fd_table (tasks s p))"

definition keeps :: "'a fsys_scheme \<Rightarrow> 'a fsys_scheme \<Rightarrow> bool" where
  "keeps s s' \<longleftrightarrow> fdt s' = fdt s \<and> running s' = running s \<and> length (file_table s') = length (file_table s)"

lemma fdt_upd [simp]:
  "fdt (s\<lparr>sectors := m\<rparr>) = fdt s" "fdt (s\<lparr>block_bitmap := b\<rparr>) = fdt s" "fdt (s\<lparr>inode_bitmap := b\<rparr>) = fdt s"
  "fdt (s\<lparr>open_inodes := oi\<rparr>) = fdt s" "fdt (s\<lparr>inodes := im\<rparr>) = fdt s" "fdt (s\<lparr>dirs := dm\<rparr>) = fdt s"
  "fdt (s\<lparr>root_dir := rd\<rparr>) = fdt s" "fdt (s\<lparr>heap := h\<rparr>) = fdt s" "fdt (s\<lparr>pipes := pm\<rparr>) = fdt s"
  "fdt (s\<lparr>kbdq := kq\<rparr>) = fdt s" "fdt (s\<lparr>file_table := ft\<rparr>) = fdt s"
  by (simp_all add: fdt_def)

lemma keeps_refl [simp]: "keeps s s"
  by (simp add: keeps_def)

lemma keeps_trans [trans]: "keeps s s' \<Longrightarrow> keeps s' s'' \<Longrightarrow> keeps s s''"
  by (simp add: keeps_def)

lemma keeps_upd [simp]:
  "keeps s (s'\<lparr>sectors := m\<rparr>) = keeps s s'" "keeps s (s'\<lparr>block_bitmap := b\<rparr>) = keeps s s'" "keeps s (s'\<lparr>inode_bitmap := b\<rparr>) = keeps s s'"
  "keeps s (s'\<lparr>open_inodes := oi\<rparr>) = keeps s s'" "keeps s (s'\<lparr>inodes := im\<rparr>) = keeps s s'" "keeps s (s'\<lparr>dirs := dm\<rparr>) = keeps s s'"
  "keeps s (s'\<lparr>root_dir := rd\<rparr>) = keeps s s'" "keeps s (s'\<lparr>heap := h\<rparr>) = keeps s s'" "keeps s (s'\<lparr>pipes := pm\<rparr>) = keeps s s'"
  "keeps s (s'\<lparr>kbdq := kq\<rparr>) = keeps s s'"
  "keeps s (s'\<lparr>file_table := (file_table s')[k := f]\<rparr>) = keeps s s'"
  by (simp_all add: keeps_def)

lemma keeps_put [simp]: "keeps s (put_inode p i s') = keeps s s'" "keeps s (put_dir dp d s') = keeps s s'"
  by (simp_all add: put_inode_def put_dir_def split: dir_ptr.splits)

lemma kmalloc_frame [frames]: "kmalloc s = (a, s') \<Longrightarrow> keeps s s'"
  by (auto simp: kmalloc_def split: list.splits)

lemma disk_write_frame [frames]: "disk_write l src n s = Inr s' \<Longrightarrow> keeps s s'"
  by (auto simp: disk_write_def split: if_splits)

lemma bitmap_sync_frame [frames]: "bitmap_sync k t s = Inr s' \<Longrightarrow> keeps s s'"
  by (auto simp: bitmap_sync_def Let_def split: bitmap_type.splits dest: disk_write_frame)

lemma bitmap_alloc_frame [frames]: "block_bitmap_alloc s = Inr (l, s') \<Longrightarrow> keeps s s'" "inode_bitmap_alloc s = Inr (l, s') \<Longrightarrow> keeps s s'"
  by (auto simp: block_bitmap_alloc_def inode_bitmap_alloc_def split: if_splits)

lemma inode_sync_frame [frames]: "inode_sync i s = Inr s' \<Longrightarrow> keeps s s'"
  by (auto simp: inode_sync_def Let_def dest!: frames)

lemma inode_delete_frame [frames]: "inode_delete n s = Inr s' \<Longrightarrow> keeps s s'"
  by (auto simp: inode_delete_def Let_def dest!: frames)

lemma inode_open_frame [frames]: "inode_open n s = Inr (p, s') \<Longrightarrow> keeps s s'"
  by (auto simp: inode_open_def Let_def keeps_def put_inode_def split: option.splits prod.splits if_splits dest!: frames)

lemma inode_close_frame [frames]: "inode_close p s = Inr s' \<Longrightarrow> keeps s s'"
  by (auto simp: inode_close_def Let_def split: if_splits)

lemma release_block_frame [frames]: "release_block l s = Inr s' \<Longrightarrow> keeps s s'"
  by (auto simp: release_block_def Let_def keeps_def dest!: frames)

lemma release_blocks_frame [frames]: "release_blocks bs s = Inr s' \<Longrightarrow> keeps s s'"
proof (induction bs arbitrary: s)
  case (Cons b bs)
  then show ?case by (auto simp: keeps_def split: if_splits dest!: frames)
qed simp

lemma inode_release_frame [frames]: "inode_release n s = Inr s' \<Longrightarrow> keeps s s'"
  by (auto simp: inode_release_def Let_def keeps_def split: if_splits prod.splits dest!: frames)

lemma dir_open_frame [frames]: "dir_open n s = Inr (dp, s') \<Longrightarrow> keeps s s'"
  by (auto simp: dir_open_def keeps_def put_dir_def split: prod.splits if_splits dest!: frames)

lemma dir_close_frame [frames]: "dir_close dp s = Inr s' \<Longrightarrow> keeps s s'"
  by (auto simp: dir_close_def keeps_def split: dir_ptr.splits dest!: frames)

lemma search_dir_entry_frame [frames]: "search_dir_entry dp nm s = Inr (r, s') \<Longrightarrow> keeps s s'"
  by (auto simp: search_dir_entry_def keeps_def Let_def split: prod.splits if_splits dest!: frames)

lemma set_sector_frame [frames]: "set_sector p k l s = Inr s' \<Longrightarrow> keeps s s'"
  by (auto simp: set_sector_def)

lemma grow_size_frame [frames]: "grow_size p n s = Inr s' \<Longrightarrow> keeps s s'"
  by (auto simp: grow_size_def)

lemma alloc_block_frame [frames]: "alloc_block s = Inr (l, s') \<Longrightarrow> keeps s s'"
  by (auto simp: alloc_block_def keeps_def Let_def split: if_splits dest!: frames)

lemma add_block_frame [frames]: "add_block p k bl e s = Inr (ok, s') \<Longrightarrow> keeps s s'"
  by (auto simp: add_block_def keeps_def split: if_splits dest!: frames)

lemma sync_blocks_frame [frames]: "sync_blocks p ks bl e s = Inr (ok, s') \<Longrightarrow> keeps s s'"
proof (induction ks)
  case (Cons k ks)
  then show ?case by (auto simp: keeps_def split: if_splits option.splits dest!: frames)
qed simp

lemma sync_dir_entry_frame [frames]: "sync_dir_entry dp e s = Inr (ok, s') \<Longrightarrow> keeps s s'"
  by (auto simp: sync_dir_entry_def split: if_splits dest!: frames)

lemma drop_block_frame [frames]: "drop_block p k l s = Inr s' \<Longrightarrow> keeps s s'"
  by (auto simp: drop_block_def Let_def keeps_def split: if_splits dest!: frames)

lemma delete_blocks_frame [frames]: "delete_blocks p n ks bl s = Inr (ok, s') \<Longrightarrow> keeps s s'"
proof (induction ks)
  case (Cons k ks)
  then show ?case by (auto simp: keeps_def Let_def put_inode_def split: if_splits option.splits prod.splits dest!: frames)
qed simp

lemma delete_dir_entry_frame [frames]: "delete_dir_entry dp n s = Inr (ok, s') \<Longrightarrow> keeps s s'"
  by (auto simp: delete_dir_entry_def split: if_splits dest!: frames)

lemma read_blocks_frame [frames]: "read_blocks dp i bs c s = Inr (r, s') \<Longrightarrow> keeps s s'"
proof (induction bs arbitrary: c s)
  case (Cons b bs)
  then show ?case
    by (auto simp: Let_def keeps_def put_dir_def split: if_splits sum.splits dir_ptr.splits dest!: Cons.IH)
qed simp

lemma dir_read_frame [frames]: "dir_read dp s = Inr (r, s') \<Longrightarrow> keeps s s'"
  by (auto simp: dir_read_def split: if_splits dest!: frames)

lemma dir_remove_frame [frames]: "dir_remove dp dq s = Inr (r, s') \<Longrightarrow> keeps s s'"
  by (auto simp: dir_remove_def keeps_def split: if_splits prod.splits dest!: frames)

lemma search_loop_frame [frames]: "search_loop sub nm dp rec pno e s = Inr (n, rec', s') \<Longrightarrow> keeps s s'"
proof (induction "left sub nm" arbitrary: sub nm dp rec pno e s rule: less_induct)
  case less
  have IH: "search_loop sub' nm' dp' rec1 pno' e' s1 = Inr (n, rec', s') \<Longrightarrow> read_name sub = Inr (sub', nm') \<Longrightarrow> nm ! 0 \<noteq> 0 \<Longrightarrow> keeps s1 s'"
    for sub' nm' dp' rec1 pno' e' s1 using less.hyps [OF read_name_left] by blast
  from less.prems show ?case
    by (auto simp: search_loop.simps [of sub nm] keeps_def Let_def aget_eq_Inr split: if_splits option.splits prod.splits dest!: frames dest!: IH)
qed

lemma search_file_frame [frames]: "search_file e path s = Inr (n, rec, s') \<Longrightarrow> keeps s s'"
  by (auto simp: search_file_def split: if_splits dest!: frames)

lemma file_close_frame [frames]: "file_close fd s = Inr (r, s') \<Longrightarrow> keeps s s'"
  by (auto simp: file_close_def keeps_def put_inode_def dest!: frames)

lemma first_block_frame [frames]: "first_block p s = Inr (ok, s') \<Longrightarrow> keeps s s'"
  by (auto simp: first_block_def keeps_def Let_def split: if_splits dest!: frames)

lemma alloc_blocks_frame [frames]: "alloc_blocks p ks bl s = Inr (r, s') \<Longrightarrow> keeps s s'"
proof (induction ks arbitrary: bl s)
  case (Cons k ks)
  then show ?case by (auto simp: keeps_def split: if_splits dest!: Cons.IH frames)
qed simp

lemma write_blocks_frame [frames]: "write_blocks p h w s = Inr (r, s') \<Longrightarrow> keeps s s'"
  by (auto simp: write_blocks_def keeps_def split: if_splits option.splits dest!: frames)

lemma write_loop_frame [frames]: "write_loop fd p bl fr src n s = Inr s' \<Longrightarrow> keeps s s'"
proof (induction n arbitrary: fr src s rule: less_induct)
  case (less n)
  from less.prems show ?case
    by (auto simp: write_loop.simps [of fd p bl fr src n s] Let_def keeps_def put_inode_def split: if_splits dest!: frames dest!: less.IH [rotated])
qed

lemma file_write_frame [frames]: "file_write fd src n s = Inr (r, s') \<Longrightarrow> keeps s s'"
  by (auto simp: file_write_def Let_def keeps_def split: if_splits option.splits prod.splits dest!: frames)

lemma read_loop_frame [frames]: "read_loop fd ok bl n s = Inr (bs, s') \<Longrightarrow> keeps s s'"
proof (induction n arbitrary: ok bs s rule: less_induct)
  case (less n)
  from less.prems show ?case
    by (auto simp: read_loop.simps [of fd ok bl n s] Let_def keeps_def split: if_splits dest!: less.IH [rotated])
qed

lemma file_read_frame [frames]: "file_read fd n s = Inr (r, bs, s') \<Longrightarrow> keeps s s'"
  by (auto simp: file_read_def Let_def keeps_def split: if_splits prod.splits dest!: frames)

section \<open>The types of the descriptor tables\<close>

text \<open>The table of open files has its 32 slots; the table of a task has 8 entries, each of them empty or
  the number of a slot.\<close>

definition fd_row :: "int list \<Rightarrow> bool" where
  "fd_row row \<longleftrightarrow> length row = 8 \<and> (\<forall>g\<in>set row. g = - 1 \<or> 0 \<le> g \<and> g < 32)"

definition fds_ok :: "'a fsys_scheme \<Rightarrow> bool" where
  "fds_ok s \<longleftrightarrow> length (file_table s) = 32 \<and> (\<forall>row\<in>ran (fdt s). fd_row row)"

lemma keeps_fds: "keeps s s' \<Longrightarrow> fds_ok s' = fds_ok s"
  by (simp add: keeps_def fds_ok_def)

lemma fd_row_update: "fd_row row \<Longrightarrow> g = - 1 \<or> 0 \<le> g \<and> g < 32 \<Longrightarrow> fd_row (row[k := g])"
  by (auto simp: fd_row_def dest: set_update_subset_insert [THEN subsetD])

lemma fdt_upd_task: "fdt (upd_task p f s) = (fdt s)(p := map_option (\<lambda>t. fd_table (f t)) (tasks s p))"
  by (auto simp: fdt_def upd_task_def fun_eq_iff map_option.compositionality comp_def)

lemma fds_upd_task:
  assumes s: "fds_ok s" and f: "\<And>t. tasks s p = Some t \<Longrightarrow> fd_row (fd_table t) \<Longrightarrow> fd_row (fd_table (f t))"
  shows "fds_ok (upd_task p f s)"
proof -
  have "fd_row row" if "row \<in> ran (fdt (upd_task p f s))" for row
  proof (cases "tasks s p")
    case None
    then have "fdt (upd_task p f s) = fdt s" by (auto simp: fdt_def upd_task_def fun_eq_iff)
    then show ?thesis using s that by (simp add: fds_ok_def)
  next
    case (Some t)
    then have "fd_row (fd_table t)" using s by (auto simp: fds_ok_def fdt_def ran_def)
    then show ?thesis using that s f [OF Some] Some unfolding fdt_upd_task
      by (auto simp: fds_ok_def ran_def split: if_splits)
  qed
  then show ?thesis using s by (simp add: fds_ok_def upd_task_def)
qed

lemma fds_ok_upd [simp]:
  "fds_ok (s\<lparr>sectors := m\<rparr>) = fds_ok s" "fds_ok (s\<lparr>block_bitmap := b\<rparr>) = fds_ok s" "fds_ok (s\<lparr>inode_bitmap := b\<rparr>) = fds_ok s"
  "fds_ok (s\<lparr>open_inodes := oi\<rparr>) = fds_ok s" "fds_ok (s\<lparr>inodes := im\<rparr>) = fds_ok s" "fds_ok (s\<lparr>dirs := dm\<rparr>) = fds_ok s"
  "fds_ok (s\<lparr>root_dir := rd\<rparr>) = fds_ok s" "fds_ok (s\<lparr>heap := h\<rparr>) = fds_ok s" "fds_ok (s\<lparr>pipes := pm\<rparr>) = fds_ok s"
  "fds_ok (s\<lparr>kbdq := kq\<rparr>) = fds_ok s" "fds_ok (s\<lparr>file_table := (file_table s)[k := f]\<rparr>) = fds_ok s"
  "fds_ok (put_inode p i s) = fds_ok s" "fds_ok (put_dir dp d s) = fds_ok s" "fds_ok (put_pipe p q s) = fds_ok s"
  by (simp_all add: fds_ok_def put_inode_def put_dir_def put_pipe_def split: dir_ptr.splits)

lemma find_in_set: "List.find P xs = Some x \<Longrightarrow> x \<in> set xs"
  by (induction xs) (auto split: if_splits)

lemma get_free_slot_range: "get_free_slot_in_global s = - 1 \<or> 3 \<le> get_free_slot_in_global s \<and> get_free_slot_in_global s < 32"
  by (auto simp: get_free_slot_in_global_def MAX_FILE_OPEN_def simp del: upt_rec_numeral split: option.splits dest!: find_in_set)

lemma get_free_slot_bounds [simp]:
  "get_free_slot_in_global s \<noteq> - 1 \<Longrightarrow> 0 \<le> get_free_slot_in_global s" "get_free_slot_in_global s < 32"
  using get_free_slot_range [of s] by linarith+

lemma pcb_fd_install_typed:
  assumes "pcb_fd_install g s = Inr (fd, s')" "fds_ok s" "0 \<le> g \<and> g < 32"
  shows "fds_ok s' \<and> (fd = - 1 \<or> 3 \<le> fd \<and> fd < 8)"
proof (cases "fd = - 1")
  case True
  then show ?thesis using assms by (auto simp: pcb_fd_install_def split: option.splits)
next
  case False
  then obtain k where k: "fd = int k" "3 \<le> k" "k < 8" "s' = upd_task (running s) (\<lambda>t. t\<lparr>fd_table := (fd_table t)[k := g]\<rparr>) s"
    using assms(1) by (auto simp: pcb_fd_install_def MAX_FILES_OPEN_PER_PROC_def simp del: upt_rec_numeral split: option.splits dest!: find_in_set)
  have "fds_ok s'" unfolding k(4) using assms(3) by (intro fds_upd_task [OF assms(2)]) (simp add: fd_row_update)
  then show ?thesis using k by simp
qed

lemma file_open_typed: "file_open n fl s = Inr (fd, s') \<Longrightarrow> fds_ok s \<Longrightarrow> fds_ok s' \<and> (fd = - 1 \<or> 3 \<le> fd \<and> fd < 8)"
  by (auto simp: file_open_def Let_def split: if_splits dest!: pcb_fd_install_typed inode_open_frame keeps_fds)

lemma create_rollback_typed: "create_rollback st k p n s = Inr (r, s') \<Longrightarrow> fds_ok s \<Longrightarrow> fds_ok s' \<and> r = - 1"
  by (auto simp: create_rollback_def Let_def split: if_splits)

lemma file_create_typed: "file_create dp nm fl s = Inr (fd, s') \<Longrightarrow> fds_ok s \<Longrightarrow> fds_ok s' \<and> (fd = - 1 \<or> 3 \<le> fd \<and> fd < 8)"
  by (auto simp: file_create_def Let_def split: if_splits prod.splits dest!: frames create_rollback_typed pcb_fd_install_typed keeps_fds)

lemma sys_open_typed: "sys_open st p fl s = Inr (fd, s') \<Longrightarrow> fds_ok s \<Longrightarrow> fds_ok s' \<and> (fd = - 1 \<or> 3 \<le> fd \<and> fd < 8)"
  by (auto simp: sys_open_def Let_def split: if_splits dest!: file_open_typed file_create_typed frames keeps_fds)

lemma sys_close_typed: "sys_close fd s = Inr (r, s') \<Longrightarrow> fds_ok s \<Longrightarrow> fds_ok s'"
  by (auto simp: sys_close_def Let_def split: if_splits dest!: frames keeps_fds intro!: fds_upd_task fd_row_update)
    (simp add: fds_ok_def)

lemma sys_pipe_typed: "sys_pipe s = Inr (r, a, b, s') \<Longrightarrow> fds_ok s \<Longrightarrow> fds_ok s'"
  by (auto simp: sys_pipe_def Let_def split: if_splits prod.splits dest!: pcb_fd_install_typed frames keeps_fds)

lemma sys_fd_redirect_typed:
  assumes "sys_fd_redirect old new s = Inr s'" "fds_ok s"
  shows "fds_ok s'"
proof -
  obtain t g where t: "tasks s (running s) = Some t" and g: "(if new < 3 then Inr (int new) else aget (fd_table t) new) = Inr g"
    and s': "s' = upd_task (running s) (\<lambda>u. u\<lparr>fd_table := (fd_table t)[old := g]\<rparr>) s"
    using assms(1) by (auto simp: sys_fd_redirect_def get_task_def aset_eq_Inr split: option.splits)
  have row: "fd_row (fd_table t)" using assms(2) t by (auto simp: fds_ok_def fdt_def ran_def)
  then have "g = - 1 \<or> 0 \<le> g \<and> g < 32" using g by (auto simp: aget_eq_Inr fd_row_def split: if_splits)
  then have "fd_row ((fd_table t)[old := g])" by (rule fd_row_update [OF row])
  then show ?thesis unfolding s' by (intro fds_upd_task [OF assms(2)]) simp
qed

end
