(* ===== verification/Fs_Calls.thy ===== *)
theory Fs_Calls
  imports Fs_Types
begin

text \<open>
  The system calls of the file system as transitions: every sequence of them keeps the types of
  the tables of descriptors.
\<close>

section \<open>The system calls\<close>

lemma wakeup_keeps [frames]: "wakeup w s = Inr (w', s') \<Longrightarrow> keeps s s'" for s :: "'a fsys_scheme"
  by (auto simp: wakeup_def thread_unblock_def intr_off_def intr_back_def Let_def keeps_def fdt_def upd_task_def fun_eq_iff map_option.compositionality comp_def
      split: if_splits prod.splits)

lemma ioq_getchar_keeps: "ioq_getchar (q, s) = Inr (b, q', s') \<Longrightarrow> keeps s s'" for s :: "'a fsys_scheme"
  by (auto simp: ioq_getchar_def ioq_getchar_test_def Let_def split: if_splits option.splits dest!: frames)

lemma ioq_putchar_keeps: "ioq_putchar b (q, s) = Inr (q', s') \<Longrightarrow> keeps s s'" for s :: "'a fsys_scheme"
  by (auto simp: ioq_putchar_def ioq_putchar_test_def Let_def split: if_splits option.splits dest!: frames)

lemma get_many_keeps [frames]: "get_many ioq_getchar n (q, s) = Inr (bs, q', s') \<Longrightarrow> keeps s s'" for s :: "'a fsys_scheme"
proof (induction n arbitrary: q s bs)
  case (Suc n)
  then show ?case by (auto dest!: ioq_getchar_keeps Suc.IH intro: keeps_trans)
qed simp

lemma put_many_keeps [frames]: "put_many ioq_putchar bs (q, s) = Inr (q', s') \<Longrightarrow> keeps s s'" for s :: "'a fsys_scheme"
proof (induction bs arbitrary: q s)
  case (Cons b bs)
  then show ?case by (auto dest!: ioq_putchar_keeps Cons.IH intro: keeps_trans)
qed simp

lemma keeps_put_pipe [simp]: "keeps s (put_pipe p q s') = keeps s s'"
  by (simp add: put_pipe_def)

lemma sys_write_keeps [frames]: "sys_write fd src n s = Inr (r, out, s') \<Longrightarrow> keeps s s'"
  by (auto simp: sys_write_def pipe_write_def Let_def split: if_splits dest!: frames)

lemma sys_read_keeps [frames]: "sys_read fd nn n s = Inr (r, bs, s') \<Longrightarrow> keeps s s'"
  by (auto simp: sys_read_def pipe_read_def read_keys_def Let_def split: if_splits dest!: frames)

lemma sys_lseek_keeps [frames]: "sys_lseek fd off wh s = Inr (r, s') \<Longrightarrow> keeps s s'"
  by (auto simp: sys_lseek_def Let_def split: if_splits)

lemma sys_unlink_keeps [frames]: "sys_unlink st p s = Inr (r, s') \<Longrightarrow> keeps s s'"
  by (auto simp: sys_unlink_def keeps_def split: if_splits prod.splits dest!: frames)

lemma mkdir_rollback_keeps [frames]: "mkdir_rollback k rec n s = Inr (r, s') \<Longrightarrow> keeps s s'"
  by (auto simp: mkdir_rollback_def keeps_def split: if_splits dest!: frames)

lemma make_directory_keeps [frames]: "make_directory rec nm n s = Inr (r, s') \<Longrightarrow> keeps s s'"
  by (auto simp: make_directory_def Let_def keeps_def split: if_splits dest!: frames)

lemma sys_mkdir_keeps [frames]: "sys_mkdir st p s = Inr (r, s') \<Longrightarrow> keeps s s'"
  by (auto simp: sys_mkdir_def keeps_def split: if_splits prod.splits dest!: frames)

lemma sys_opendir_keeps [frames]: "sys_opendir st p s = Inr (r, s') \<Longrightarrow> keeps s s'"
  by (auto simp: sys_opendir_def keeps_def split: if_splits dest!: frames)

lemma sys_closedir_keeps [frames]: "sys_closedir dp s = Inr (r, s') \<Longrightarrow> keeps s s'"
  by (auto simp: sys_closedir_def split: option.splits dest!: frames)

lemma sys_readdir_keeps [frames]: "sys_readdir dp s = Inr (r, s') \<Longrightarrow> keeps s s'"
  by (auto simp: sys_readdir_def split: option.splits dest!: frames)

lemma sys_rewinddir_keeps [frames]: "sys_rewinddir dp s = Inr s' \<Longrightarrow> keeps s s'"
  by (auto simp: sys_rewinddir_def)

lemma sys_rmdir_keeps [frames]: "sys_rmdir st p s = Inr (r, s') \<Longrightarrow> keeps s s'"
  by (auto simp: sys_rmdir_def keeps_def split: if_splits dest!: frames)

lemma parent_nr_keeps [frames]: "get_parent_dir_inode_nr n s = Inr (r, s') \<Longrightarrow> keeps s s'"
  by (auto simp: get_parent_dir_inode_nr_def keeps_def dest!: frames)

lemma child_name_keeps [frames]: "get_child_dir_name p c path s = Inr (r, s') \<Longrightarrow> keeps s s'"
  by (auto simp: get_child_dir_name_def keeps_def split: if_splits dest!: frames)

lemma cwd_loop_keeps [frames]: "cwd_loop c path s = Inr (r, s') \<Longrightarrow> keeps s s'"
proof (induction "512 - length path" arbitrary: c path s rule: less_induct)
  case less
  have IH: "cwd_loop c1 path1 s1 = Inr (r, s') \<Longrightarrow> get_child_dir_name p1 c path s0 = Inr (Some path1, s1) \<Longrightarrow> keeps s1 s'" for c1 path1 s1 p1 s0
    using less.hyps [of path1 c1 s1] child_name_longer [of p1 c path s0 path1 s1] by auto
  have tr: "keeps a b \<Longrightarrow> keeps b d \<Longrightarrow> keeps d s' \<Longrightarrow> keeps a s'" for a b d :: "'a fsys_scheme" by (blast intro: keeps_trans)
  from less.prems show ?case
    by (auto simp: cwd_loop.simps [of c path s] split: if_splits option.splits intro: tr [OF parent_nr_keeps child_name_keeps IH] keeps_trans [OF parent_nr_keeps child_name_keeps])
qed

lemma sys_getcwd_keeps [frames]: "sys_getcwd nn n s = Inr (r, s') \<Longrightarrow> keeps s s'"
  by (auto simp: sys_getcwd_def keeps_def split: if_splits prod.splits option.splits dest!: frames)

lemma sys_chdir_keeps [frames]: "sys_chdir st p s = Inr (r, s') \<Longrightarrow> keeps s s'"
  by (auto simp: sys_chdir_def keeps_def fdt_def upd_task_def fun_eq_iff map_option.compositionality comp_def split: if_splits dest!: frames)

lemma sys_stat_keeps [frames]: "sys_stat st p b s = Inr (r, b', s') \<Longrightarrow> keeps s s'"
  by (auto simp: sys_stat_def keeps_def split: if_splits dest!: frames)

section \<open>Sequences of system calls\<close>

inductive syscall :: "'a fsys_scheme \<Rightarrow> 'a fsys_scheme \<Rightarrow> bool" where
  open_call: "sys_open st p fl s = Inr (r, s') \<Longrightarrow> syscall s s'"
| close_call: "sys_close fd s = Inr (r, s') \<Longrightarrow> syscall s s'"
| write_call: "sys_write fd src n s = Inr (r, out, s') \<Longrightarrow> syscall s s'"
| read_call: "sys_read fd nn n s = Inr (r, bs, s') \<Longrightarrow> syscall s s'"
| lseek_call: "sys_lseek fd off wh s = Inr (r, s') \<Longrightarrow> syscall s s'"
| unlink_call: "sys_unlink st p s = Inr (r, s') \<Longrightarrow> syscall s s'"
| mkdir_call: "sys_mkdir st p s = Inr (r, s') \<Longrightarrow> syscall s s'"
| opendir_call: "sys_opendir st p s = Inr (dp, s') \<Longrightarrow> syscall s s'"
| closedir_call: "sys_closedir dp s = Inr (r, s') \<Longrightarrow> syscall s s'"
| readdir_call: "sys_readdir dp s = Inr (e, s') \<Longrightarrow> syscall s s'"
| rewinddir_call: "sys_rewinddir d s = Inr s' \<Longrightarrow> syscall s s'"
| rmdir_call: "sys_rmdir st p s = Inr (r, s') \<Longrightarrow> syscall s s'"
| getcwd_call: "sys_getcwd nn n s = Inr (cwd, s') \<Longrightarrow> syscall s s'" for n :: nat
| chdir_call: "sys_chdir st p s = Inr (r, s') \<Longrightarrow> syscall s s'"
| stat_call: "sys_stat st p b s = Inr (r, b', s') \<Longrightarrow> syscall s s'"
| pipe_call: "sys_pipe s = Inr (r, fd0, fd1, s') \<Longrightarrow> syscall s s'"
| redirect_call: "sys_fd_redirect old new s = Inr s' \<Longrightarrow> syscall s s'"

lemma syscall_typed: "syscall s s' \<Longrightarrow> fds_ok s \<Longrightarrow> fds_ok s'"
proof (induction rule: syscall.induct)
qed (auto dest!: sys_open_typed sys_close_typed sys_pipe_typed sys_fd_redirect_typed dest!: frames keeps_fds)

lemma syscalls_typed: "syscall\<^sup>*\<^sup>* s s' \<Longrightarrow> fds_ok s \<Longrightarrow> fds_ok s'"
  by (induction rule: rtranclp_induct) (auto intro: syscall_typed)

lemma descriptor_typed:
  assumes "fds_ok s" "tasks s (running s) = Some t" "0 \<le> fd" "fd < 8"
  shows "fd_local2global fd s = (if fd_table t ! nat fd = - 1 then Inl (Assert_fail ''fd_local2global'') else Inr (nat (fd_table t ! nat fd)))"
    "fd_table t ! nat fd \<noteq> - 1 \<Longrightarrow> nat (fd_table t ! nat fd) < length (file_table s)"
proof -
  have row: "fd_row (fd_table t)" using assms(1,2) by (auto simp: fds_ok_def fdt_def ran_def)
  then have k: "nat fd < length (fd_table t)" using assms(3,4) by (simp add: fd_row_def)
  then have "fd_table t ! nat fd = - 1 \<or> 0 \<le> fd_table t ! nat fd \<and> fd_table t ! nat fd < 32" using row by (simp add: fd_row_def)
  then show "fd_local2global fd s = (if fd_table t ! nat fd = - 1 then Inl (Assert_fail ''fd_local2global'') else Inr (nat (fd_table t ! nat fd)))"
    "fd_table t ! nat fd \<noteq> - 1 \<Longrightarrow> nat (fd_table t ! nat fd) < length (file_table s)"
    using assms k by (auto simp: fd_local2global_def get_task_def MAX_FILE_OPEN_def fds_ok_def)
qed



section \<open>Positions\<close>

definition seek_base :: "u8 \<Rightarrow> u32 \<Rightarrow> u32 \<Rightarrow> int" where
  "seek_base whence pos file_size = (if whence = 1 then 0 else if whence = 2 then uint pos else uint file_size)"

lemma sint_range: "- (2 ^ 31) \<le> sint x" "sint x < 2 ^ 31" for x :: u32
  using sint_greater_eq [of x] sint_less [of x] by simp_all

lemma sint_of_int: "- (2 ^ 31) \<le> k \<Longrightarrow> k < 2 ^ 31 \<Longrightarrow> sint (of_int k :: u32) = k"
  by (simp add: signed_of_int signed_take_bit_int_eq_self)

lemma sint_of_int_wrap: "2 ^ 31 \<le> k \<Longrightarrow> k < 2 ^ 32 \<Longrightarrow> sint (of_int k :: u32) < 0"
proof -
  assume k: "2 ^ 31 \<le> k" "k < 2 ^ 32"
  have "(of_int k :: u32) = of_int (k - 2 ^ 32)" by simp
  moreover have "sint (of_int (k - 2 ^ 32) :: u32) = k - 2 ^ 32" by (rule sint_of_int) (use k in simp_all)
  ultimately have "sint (of_int k :: u32) = k - 2 ^ 32" by (simp only:)
  then show ?thesis using k by simp
qed

lemma seek_sum:
  fixes base off :: u32
  assumes "uint base < 2 ^ 31" "0 \<le> sz" "sz < 2 ^ 31"
  shows "sint (base + off) < 0 \<or> sint (base + off) > sz - 1 \<longleftrightarrow> \<not> (0 \<le> uint base + sint off \<and> uint base + sint off < sz)"
    "0 \<le> uint base + sint off \<Longrightarrow> uint base + sint off < sz \<Longrightarrow> sint (base + off) = uint base + sint off"
proof -
  let ?k = "uint base + sint off"
  have e: "base + off = of_int ?k" by simp
  have r: "- (2 ^ 31) \<le> ?k" "?k < 2 ^ 32" using sint_range [of off] assms(1) by (simp_all add: add_increasing)
  show "0 \<le> ?k \<Longrightarrow> ?k < sz \<Longrightarrow> sint (base + off) = ?k" using sint_of_int [of ?k] assms(3) r(1) unfolding e by linarith
  show "sint (base + off) < 0 \<or> sint (base + off) > sz - 1 \<longleftrightarrow> \<not> (0 \<le> ?k \<and> ?k < sz)"
  proof (cases "?k < 2 ^ 31")
    case True
    then have "sint (base + off) = ?k" using sint_of_int [of ?k] r(1) unfolding e by blast
    then show ?thesis by linarith
  next
    case False
    then have "sint (base + off) < 0" using sint_of_int_wrap [of ?k] r(2) unfolding e by linarith
    then show ?thesis using False assms(3) by linarith
  qed
qed

text \<open>C35.  \<^verbatim>\<open>sys_lseek\<close> computes with signed 32-bit numbers that may wrap, but never accepts a wrapped
  position: it sets the position to start, current position or end plus the offset, as whole
  numbers, if that lies within the file, and otherwise returns -1 and changes nothing.  The end
  of the file itself is not a position.\<close>

theorem lseek_exact:
  assumes fd: "0 \<le> fd" "fd_local2global fd s = Inr g" "g < length (file_table s)" "file_table s ! g = f"
    and i: "inodes s (fd_inode f) = Some i" and range: "uint (i_size i) < 2 ^ 31" "uint (fd_pos f) < 2 ^ 31"
    and wh: "0 < whence" "whence < 4" and target: "target = seek_base whence (fd_pos f) (i_size i) + sint offset"
  shows "sys_lseek fd offset whence s =
    (if 0 \<le> target \<and> target < uint (i_size i) then Inr (target, s\<lparr>file_table := (file_table s)[g := f\<lparr>fd_pos := of_int target\<rparr>]\<rparr>)
     else Inr (- 1, s))"
proof -
  define base where "base = (if whence = 1 then 0 else if whence = 2 then fd_pos f else i_size i)"
  have b: "uint base < 2 ^ 31" "uint base = seek_base whence (fd_pos f) (i_size i)" using range by (auto simp: base_def seek_base_def)
  have t: "uint base + sint offset = target" using b(2) target by simp
  have sz: "sint (i_size i - 1) = uint (i_size i) - 1"
  proof -
    have "i_size i - 1 = of_int (uint (i_size i) - 1)" by simp
    moreover have "- 2147483648 \<le> uint (i_size i) - 1" using uint_ge_0 [of "i_size i"] by linarith
    ultimately show ?thesis using sint_of_int [of "uint (i_size i) - 1"] range(1) by simp
  qed
  have np: "(if whence = 1 then offset else if whence = 2 then fd_pos f + offset else i_size i + offset) = base + offset"
    by (simp add: base_def)
  have bo: "base + offset = of_int target" by (simp add: t [symmetric])
  note S = seek_sum [OF b(1) uint_ge_0 range(1), of offset, unfolded t]
  have "sys_lseek fd offset whence s = (if sint (base + offset) < 0 \<or> sint (base + offset) > uint (i_size i) - 1 then Inr (- 1, s)
      else Inr (sint (base + offset), s\<lparr>file_table := (file_table s)[g := f\<lparr>fd_pos := base + offset\<rparr>]\<rparr>))"
    using fd wh i by (simp add: sys_lseek_def get_inode_def Let_def np sz)
  then show ?thesis using S bo by auto
qed

text \<open>The running task has the small file open as descriptor 5.\<close>

definition small_seek :: fsys where
  "small_seek = small_file\<lparr>tasks := [0x1000 \<mapsto> (kthread 1 TASK_RUNNING 10)\<lparr>fd_table := [0, 1, 2, - 1, - 1, 3, - 1, - 1]\<rparr>]\<rparr>"

theorem lseek_exact_witness:
  "(\<exists>s'. sys_lseek 5 (- 2) 3 small_seek = Inr (3, s')) \<and> sys_lseek 5 0x7FFFFFFF 2 small_seek = Inr (- 1, small_seek)"
proof -
  have g: "fd_local2global 5 small_seek = Inr 3"
    by (simp add: fd_local2global_def get_task_def small_seek_def small_file_def small_fs_def MAX_FILE_OPEN_def)
  have f: "3 < length (file_table small_seek)" "file_table small_seek ! 3 = small_open" "inodes small_seek (fd_inode small_open) = Some small_inode"
    by (simp_all add: small_seek_def small_file_def small_open_def)
  have v: "uint (i_size small_inode) = 5" "uint (fd_pos small_open) = 1" by (simp_all add: small_inode_def small_open_def)
  have "sys_lseek 5 (- 2) 3 small_seek = (if 0 \<le> (3::int) \<and> 3 < uint (i_size small_inode)
      then Inr (3, small_seek\<lparr>file_table := (file_table small_seek)[3 := small_open\<lparr>fd_pos := of_int 3\<rparr>]\<rparr>) else Inr (- 1, small_seek))"
    by (rule lseek_exact [OF _ g f]) (simp_all add: v seek_base_def)
  then have "\<exists>s'. sys_lseek 5 (- 2) 3 small_seek = Inr (3, s')" unfolding v by auto
  moreover have "sys_lseek 5 0x7FFFFFFF 2 small_seek = (if 0 \<le> (0x80000000::int) \<and> 0x80000000 < uint (i_size small_inode)
      then Inr (0x80000000, small_seek\<lparr>file_table := (file_table small_seek)[3 := small_open\<lparr>fd_pos := of_int 0x80000000\<rparr>]\<rparr>) else Inr (- 1, small_seek))"
    by (rule lseek_exact [OF _ g f]) (simp_all add: v seek_base_def)
  then have "sys_lseek 5 0x7FFFFFFF 2 small_seek = Inr (- 1, small_seek)" unfolding v by simp
  ultimately show ?thesis by blast
qed

end
