(* ===== verification/Spec2Isabelle.thy ===== *)
theory Spec2Isabelle
  imports Memory Klist Stdio Keyboard Fs_Format Fs_Calls
begin

text \<open>
  A verification library for TrueOS, a teaching kernel for 32-bit x86 in the style of Linux.  The
  kernel runs threads and processes on one processor, gives them paged memory, drives the
  keyboard and IDE disks, and keeps a file system on a partition; a shell uses it through
  system calls.

  \<^bold>\<open>Conventions.\<close>  A kernel function is a HOL function on explicit state with a result of type
  \<^verbatim>\<open>'a kres\<close> (theory Kernel_Prelude): \<open>Inr\<close> a value, or \<open>Inl\<close> the way in which it does not come back: a
  failed \<^verbatim>\<open>ASSERT\<close>, a \<^verbatim>\<open>PANIC\<close>, an access outside of the memory it was given, going to sleep without
  being woken in the modelled run, or an endless loop.  Structures are records with the names of
  their C fields; integers keep their width wherever they can wrap.  Arrays and strings are
  lists; an index outside of a list is a fault.  What a function prints is left out, except where the text is its
  result.  Memory that the C code leaves uninitialised, and memory behind an array that the
  code reads, are parameters.

  \<^bold>\<open>State.\<close>  One record grows with the layers: memory and page tables (\<^verbatim>\<open>mmu\<close>, theory Paging), tasks
  and queues (\<^verbatim>\<open>sched\<close>), and on top of them the page allocator (\<^verbatim>\<open>kmem\<close>), the disk driver (\<^verbatim>\<open>ide\<close>)
  or the file system (\<^verbatim>\<open>fsys\<close>).  Functions of a lower layer are polymorphic in the upper ones.

  \<^bold>\<open>Theories and sources.\<close>

  \<^item> Bitmap: \<^verbatim>\<open>lib/kernel/bitmap.c\<close>.  The search for a run of free bits, with the byte behind the bitmap that
    it reads; theory Slot_Pool is the contract of an allocator of identifiers, met by the frame
    allocator and the block bitmap of the file system.
  \<^item> Klist: \<^verbatim>\<open>lib/kernel/list.c\<close> on an explicit node memory; the pointer operations refine operations on
    sequences.  The other theories use sequences for lists.
  \<^item> Interrupt: \<^verbatim>\<open>kernel/interrupt.c\<close>.  Gates of the descriptor table, the interrupt flag.
  \<^item> Paging, Memory: \<^verbatim>\<open>kernel/memory.c\<close>.  The walk of the two-level page tables, the self map, frame and
    address pools, mapping and unmapping.
  \<^item> Sched, Sync: \<^verbatim>\<open>thread/thread.c\<close> (scheduling), \<^verbatim>\<open>device/timer.c\<close>, \<^verbatim>\<open>thread/sync.c\<close>, \<^verbatim>\<open>process_activate\<close>.
    The interleavings of threads that use one lock are a transition system.
  \<^item> Ioqueue, Keyboard: \<^verbatim>\<open>device/ioqueue.c\<close> as a bounded queue, \<^verbatim>\<open>device/keyboard.c\<close>.
  \<^item> Strings, Stdio: \<^verbatim>\<open>lib/string.c\<close> on a byte memory, \<^verbatim>\<open>lib/stdio.c\<close>.
  \<^item> Sectors, Ide: \<^verbatim>\<open>device/ide.c\<close> over a model of the ATA registers.
  \<^item> Fs_State, Inode, Blocks, Dir, File: the structures of the file system, \<^verbatim>\<open>fs/inode.c\<close>, the block
    allocator, \<^verbatim>\<open>fs/dir.c\<close>, \<^verbatim>\<open>fs/file.c\<close>; File_Bytes and File_Ops show what reading and writing do to a
    file as a string of bytes.
  \<^item> Pipe: \<^verbatim>\<open>shell/pipe.c\<close>; Fs_Path, Fs: paths and the system calls of \<^verbatim>\<open>fs/fs.c\<close>; Fs_Types and Fs_Calls
    show what every sequence of these calls preserves.

  \<^bold>\<open>Fuel and bounds.\<close>  Loops are total functions with a termination proof.  Only the scan of the
  partition tables takes fuel, since a cyclic chain of extended partitions makes it run forever; the waiting loops of the driver
  are bounded by the time limit of the source.

  \<^bold>\<open>Not modelled.\<close>  The boot code, the entry stubs and the register switch, which are assembly, and the text
  screen; the heap allocator, which the file system sees as the sequence of addresses that its
  calls return; the creation of processes, the shell and the user programs.
\<close>

end
